(* ===== verification/Prelude.thy ===== *)
theory Prelude
  imports Main "HOL-Library.Word"
begin

unbundle bit_operations_syntax

text \<open>
  What every component shares: the machine types of the C++ sources, the outcomes of code that
  can stop (assertions, null dereferences, exceptions), counted loops as folds over index ranges
  with an invariant rule, 64-bit signed arithmetic with its wrap-around, and generic facts on
  lists, words and maps.
\<close>

named_theorems arith256 \<open>value of the limb operations of \<open>arith_uint256\<close>\<close>

section \<open>Machine types\<close>

type_synonym u8 = "8 word"
type_synonym u16 = "16 word"
type_synonym u32 = "32 word"
type_synonym u64 = "64 word"
type_synonym bytes = "u8 list"

section \<open>Outcomes\<close>

text \<open>
  \<open>AssertFail\<close> is an \<^verbatim>\<open>assert\<close> that does not hold, \<open>NullDeref\<close> a read through a null or dangling
  pointer, \<open>OutOfRange\<close> an index outside its container, \<open>DivByZero\<close> an integer division by zero
  and \<open>Throw\<close> a C++ exception with its text.
\<close>

datatype fault = AssertFail | NullDeref | OutOfRange | DivByZero | Throw string

type_synonym 'a outcome = "fault + 'a"

fun bind_out :: "'a outcome \<Rightarrow> ('a \<Rightarrow> 'b outcome) \<Rightarrow> 'b outcome" where
  "bind_out (Inl e) f = Inl e"
| "bind_out (Inr a) f = f a"

definition assert_out :: "bool \<Rightarrow> 'a outcome \<Rightarrow> 'a outcome" where
  "assert_out b r = (if b then r else Inl AssertFail)"

lemma bind_out_Inr_iff:
  "bind_out r f = Inr b \<longleftrightarrow> (\<exists>a. r = Inr a \<and> f a = Inr b)"
  by (cases r) auto

lemma assert_out_True [simp]: "assert_out True r = r"
  by (simp add: assert_out_def)

lemma assert_out_Inr_iff: "assert_out b r = Inr a \<longleftrightarrow> b \<and> r = Inr a"
  by (simp add: assert_out_def)

text \<open>
  Reading a \<^verbatim>\<open>std::vector\<close> without a range check: the element at an index, and the one that is
  \<open>k\<close> places before the end. \<^verbatim>\<open>&&\<close> reads its right operand only when the left one holds.
\<close>

definition vector_at :: "'a list \<Rightarrow> nat \<Rightarrow> 'a outcome" where
  "vector_at v i = (if i < length v then Inr (v ! i) else Inl OutOfRange)"

definition vector_at_end :: "'a list \<Rightarrow> nat \<Rightarrow> 'a outcome" where
  "vector_at_end v k = (if 0 < k \<and> k \<le> length v then Inr (v ! (length v - k)) else Inl OutOfRange)"

definition test_at :: "'a list \<Rightarrow> nat \<Rightarrow> ('a \<Rightarrow> bool) \<Rightarrow> bool outcome" where
  "test_at v i p = bind_out (vector_at v i) (\<lambda>x. Inr (p x))"

definition and_out :: "bool outcome \<Rightarrow> bool outcome \<Rightarrow> bool outcome" where
  "and_out a b = bind_out a (\<lambda>x. if x then b else Inr False)"

lemma vector_at_Inr [simp]: "i < length v \<Longrightarrow> vector_at v i = Inr (v ! i)"
  by (simp add: vector_at_def)

lemma vector_at_end_Inr [simp]: "0 < k \<Longrightarrow> k \<le> length v \<Longrightarrow> vector_at_end v k = Inr (v ! (length v - k))"
  by (simp add: vector_at_end_def)

lemma test_at_Inr [simp]: "i < length v \<Longrightarrow> test_at v i p = Inr (p (v ! i))"
  by (simp add: test_at_def)

lemma and_out_Inr [simp]: "and_out (Inr x) b = (if x then b else Inr False)"
  by (simp add: and_out_def)

text \<open>A run of code with loops that may not end: \<open>None\<close> when it does not return.\<close>

type_synonym 'a run = "'a outcome option"

definition bind_run :: "'a run \<Rightarrow> ('a \<Rightarrow> 'b run) \<Rightarrow> 'b run" where
  "bind_run m f = (case m of None \<Rightarrow> None | Some (Inl e) \<Rightarrow> Some (Inl e) | Some (Inr a) \<Rightarrow> f a)"

lemma bind_run_simps [simp]:
  "bind_run None f = None" "bind_run (Some (Inl e)) f = Some (Inl e)" "bind_run (Some (Inr a)) f = f a"
  by (simp_all add: bind_run_def)

section \<open>Counted loops\<close>

text \<open>
  \<open>for (i = lo; i < hi; i++) body\<close> over a state is \<open>fold body [lo..<hi]\<close>; an invariant that holds
  at \<open>lo\<close> and is carried from \<open>i\<close> to \<open>Suc i\<close> holds at \<open>hi\<close>.
\<close>

lemma fold_upt_invariant:
  assumes "lo \<le> hi" and "P lo s"
    and "\<And>i s. lo \<le> i \<Longrightarrow> i < hi \<Longrightarrow> P i s \<Longrightarrow> P (Suc i) (f i s)"
  shows "P hi (fold f [lo..<hi] s)"
  using assms
proof (induction hi rule: dec_induct)
  case base
  then show ?case by simp
next
  case (step n)
  then have "P n (fold f [lo..<n] s)" by simp
  with step show ?case by simp
qed

section \<open>64-bit signed arithmetic\<close>

text \<open>
  \<open>wrap64\<close> is the two's complement value an \<^verbatim>\<open>int64_t\<close> register holds for an integer result.
\<close>

definition int64_min :: int where "int64_min = - (2 ^ 63)"
definition int64_max :: int where "int64_max = 2 ^ 63 - 1"

definition in_int64 :: "int \<Rightarrow> bool" where
  "in_int64 x \<longleftrightarrow> int64_min \<le> x \<and> x \<le> int64_max"

definition wrap64 :: "int \<Rightarrow> int" where
  "wrap64 x = (x + 2 ^ 63) mod 2 ^ 64 - 2 ^ 63"

lemma wrap64_id: "in_int64 x \<Longrightarrow> wrap64 x = x"
  by (simp add: in_int64_def int64_min_def int64_max_def wrap64_def)

lemma wrap64_in: "in_int64 (wrap64 x)"
proof -
  have "0 \<le> (x + 2 ^ 63) mod 2 ^ 64" and "(x + 2 ^ 63) mod 2 ^ 64 < (2 :: int) ^ 64"
    by simp_all
  then show ?thesis
    unfolding in_int64_def int64_min_def int64_max_def wrap64_def by simp
qed

text \<open>C++ integer division truncates towards zero; \<open>%\<close> has the sign of the dividend.\<close>

definition c_div :: "int \<Rightarrow> int \<Rightarrow> int" where
  "c_div a b = sgn a * sgn b * (\<bar>a\<bar> div \<bar>b\<bar>)"

definition c_mod :: "int \<Rightarrow> int \<Rightarrow> int" where
  "c_mod a b = a - b * c_div a b"

definition mod_out :: "int \<Rightarrow> int \<Rightarrow> int outcome" where
  "mod_out a b = (if b = 0 then Inl DivByZero else Inr (c_mod a b))"

lemma c_div_nonneg [simp]: "0 \<le> a \<Longrightarrow> 0 < b \<Longrightarrow> c_div a b = a div b"
  by (cases "a = 0") (simp_all add: c_div_def)

lemma c_mod_nonneg [simp]: "0 \<le> a \<Longrightarrow> 0 < b \<Longrightarrow> c_mod a b = a mod b"
  by (simp add: c_mod_def minus_mult_div_eq_mod)

section \<open>Words\<close>

lemma or_eq_add_disjoint:
  fixes x y :: "'a :: len word"
  assumes "unat y < 2 ^ n"
  shows "push_bit n x OR y = push_bit n x + y"
proof -
  have "take_bit n y = y"
    using assms by (simp add: word_unat_eq_iff unsigned_take_bit_eq take_bit_nat_eq_self)
  then have "\<not> bit y i" if "n \<le> i" for i
    using that by (metis bit_take_bit_iff leD)
  then have "push_bit n x AND y = 0"
    by (intro bit_eqI) (auto simp: bit_simps)
  then show ?thesis
    by (simp add: disjunctive_add_eq_or)
qed

lemma unat_drop_bit_div: "unat (drop_bit k w) = unat w div 2 ^ k"
  by (subst unat_drop_bit_eq) (rule drop_bit_eq_div)

end
