(* ===== verification/Arith256.thy ===== *)
theory Arith256
  imports Prelude
begin

unbundle bit_operations_syntax

text \<open>
  \<^verbatim>\<open>arith_uint256\<close> (src/src/arith_uint256.h, arith_uint256.cpp): the 256-bit unsigned integers of the
  proof-of-work code as eight 32-bit limbs, least significant first. Each operator is the limb
  loop of the source, the lemmas give its value on natural numbers modulo \<open>2 ^ 256\<close>.
\<close>

section \<open>Definitions\<close>

type_synonym base_uint = "u32 list"

definition WIDTH :: nat where "WIDTH = 8"

definition wf_uint :: "base_uint \<Rightarrow> bool" where
  "wf_uint pn \<longleftrightarrow> length pn = WIDTH"

text \<open>The number a limb array stands for.\<close>

fun uval :: "base_uint \<Rightarrow> nat" where
  "uval [] = 0"
| "uval (x # xs) = unat x + 2 ^ 32 * uval xs"

definition zero_uint :: base_uint where
  "zero_uint = replicate WIDTH 0"

text \<open>\<^verbatim>\<open>base_uint(uint64_t)\<close> and the assignment from a 64-bit value.\<close>

definition uint_of_u64 :: "u64 \<Rightarrow> base_uint" where
  "uint_of_u64 b = [ucast b, ucast (drop_bit 32 b)] @ replicate (WIDTH - 2) 0"

definition not_uint :: "base_uint \<Rightarrow> base_uint" where
  "not_uint a = map (\<lambda>w. NOT w) a"

definition is_zero_uint :: "base_uint \<Rightarrow> bool" where
  "is_zero_uint a = list_all (\<lambda>w. w = 0) a"

text \<open>\<^verbatim>\<open>operator++\<close>: stop at the first limb that does not wrap to zero.\<close>

fun inc_uint :: "base_uint \<Rightarrow> base_uint" where
  "inc_uint [] = []"
| "inc_uint (x # xs) = (if x + 1 = 0 then (x + 1) # inc_uint xs else (x + 1) # xs)"

fun dec_uint :: "base_uint \<Rightarrow> base_uint" where
  "dec_uint [] = []"
| "dec_uint (x # xs) = (if x - 1 = - 1 then (x - 1) # dec_uint xs else (x - 1) # xs)"

definition neg_uint :: "base_uint \<Rightarrow> base_uint" where
  "neg_uint a = inc_uint (not_uint a)"

definition add_step :: "base_uint \<Rightarrow> nat \<Rightarrow> base_uint \<times> u64 \<Rightarrow> base_uint \<times> u64" where
  "add_step b i = (\<lambda>(pn, carry).
     let n = carry + ucast (pn ! i) + ucast (b ! i)
     in (pn[i := ucast (n AND 0xffffffff)], drop_bit 32 n))"

definition add_uint :: "base_uint \<Rightarrow> base_uint \<Rightarrow> base_uint" where
  "add_uint a b = fst (fold (add_step b) [0..<WIDTH] (a, 0))"

definition sub_uint :: "base_uint \<Rightarrow> base_uint \<Rightarrow> base_uint" where
  "sub_uint a b = add_uint a (neg_uint b)"

definition mul32_step :: "u32 \<Rightarrow> nat \<Rightarrow> base_uint \<times> u64 \<Rightarrow> base_uint \<times> u64" where
  "mul32_step b32 i = (\<lambda>(pn, carry).
     let n = carry + ucast b32 * ucast (pn ! i)
     in (pn[i := ucast (n AND 0xffffffff)], drop_bit 32 n))"

definition mul32_uint :: "base_uint \<Rightarrow> u32 \<Rightarrow> base_uint" where
  "mul32_uint a b32 = fst (fold (mul32_step b32) [0..<WIDTH] (a, 0))"

definition mul_step :: "base_uint \<Rightarrow> base_uint \<Rightarrow> nat \<Rightarrow> nat \<Rightarrow> base_uint \<times> u64 \<Rightarrow> base_uint \<times> u64" where
  "mul_step a b j i = (\<lambda>(pn, carry).
     let n = carry + ucast (pn ! (i + j)) + ucast (a ! j) * ucast (b ! i)
     in (pn[i + j := ucast (n AND 0xffffffff)], drop_bit 32 n))"

definition mul_row :: "base_uint \<Rightarrow> base_uint \<Rightarrow> nat \<Rightarrow> base_uint \<Rightarrow> base_uint" where
  "mul_row a b j pn = fst (fold (mul_step a b j) [0..<WIDTH - j] (pn, 0))"

definition mul_uint :: "base_uint \<Rightarrow> base_uint \<Rightarrow> base_uint" where
  "mul_uint a b = fold (mul_row a b) [0..<WIDTH] zero_uint"

definition shl_step :: "base_uint \<Rightarrow> nat \<Rightarrow> nat \<Rightarrow> nat \<Rightarrow> base_uint \<Rightarrow> base_uint" where
  "shl_step a k shift i pn =
     (let pn1 = (if i + k + 1 < WIDTH \<and> shift \<noteq> 0
                 then pn[i + k + 1 := pn ! (i + k + 1) OR drop_bit (32 - shift) (a ! i)] else pn)
      in if i + k < WIDTH then pn1[i + k := pn1 ! (i + k) OR push_bit shift (a ! i)] else pn1)"

definition shl_uint :: "base_uint \<Rightarrow> nat \<Rightarrow> base_uint" where
  "shl_uint a shift = fold (shl_step a (shift div 32) (shift mod 32)) [0..<WIDTH] zero_uint"

definition shr_step :: "base_uint \<Rightarrow> nat \<Rightarrow> nat \<Rightarrow> nat \<Rightarrow> base_uint \<Rightarrow> base_uint" where
  "shr_step a k shift i pn =
     (let pn1 = (if k + 1 \<le> i \<and> shift \<noteq> 0
                 then pn[i - k - 1 := pn ! (i - k - 1) OR push_bit (32 - shift) (a ! i)] else pn)
      in if k \<le> i then pn1[i - k := pn1 ! (i - k) OR drop_bit shift (a ! i)] else pn1)"

definition shr_uint :: "base_uint \<Rightarrow> nat \<Rightarrow> base_uint" where
  "shr_uint a shift = fold (shr_step a (shift div 32) (shift mod 32)) [0..<WIDTH] zero_uint"

text \<open>\<^verbatim>\<open>CompareTo\<close>, from the most significant limb down: the argument counts the limbs left.\<close>

fun compare_from :: "nat \<Rightarrow> base_uint \<Rightarrow> base_uint \<Rightarrow> int" where
  "compare_from 0 a b = 0"
| "compare_from (Suc i) a b =
     (if a ! i < b ! i then - 1 else if b ! i < a ! i then 1 else compare_from i a b)"

definition CompareTo :: "base_uint \<Rightarrow> base_uint \<Rightarrow> int" where
  "CompareTo a b = compare_from WIDTH a b"

definition EqualTo :: "base_uint \<Rightarrow> u64 \<Rightarrow> bool" where
  "EqualTo a b \<longleftrightarrow> list_all (\<lambda>i. a ! i = 0) [2..<WIDTH] \<and>
     ucast (a ! 1) = drop_bit 32 b \<and> ucast (a ! 0) = b AND 0xffffffff"

fun limb_bits :: "nat \<Rightarrow> u32 \<Rightarrow> nat" where
  "limb_bits 0 w = 1"
| "limb_bits (Suc n) w = (if w AND push_bit (Suc n) 1 \<noteq> 0 then Suc n + 1 else limb_bits n w)"

fun bits_from :: "nat \<Rightarrow> base_uint \<Rightarrow> nat" where
  "bits_from 0 pn = 0"
| "bits_from (Suc pos) pn =
     (if pn ! pos \<noteq> 0 then 32 * pos + limb_bits 31 (pn ! pos) else bits_from pos pn)"

definition bits_uint :: "base_uint \<Rightarrow> nat" where
  "bits_uint pn = bits_from WIDTH pn"

text \<open>
  The loop of \<^verbatim>\<open>operator/=\<close>: \<open>n\<close> is \<open>shift + 1\<close>, so that \<open>0\<close> is the exit \<open>shift = -1\<close>.
\<close>

fun div_loop :: "nat \<Rightarrow> base_uint \<Rightarrow> base_uint \<Rightarrow> base_uint \<Rightarrow> base_uint" where
  "div_loop 0 num dv q = q"
| "div_loop (Suc shift) num dv q =
     (if CompareTo num dv \<ge> 0
      then div_loop shift (sub_uint num dv) (shr_uint dv 1)
             (q[shift div 32 := q ! (shift div 32) OR push_bit (shift mod 32) 1])
      else div_loop shift num (shr_uint dv 1) q)"

definition div_uint :: "base_uint \<Rightarrow> base_uint \<Rightarrow> base_uint outcome" where
  "div_uint a b =
     (let num_bits = bits_uint a; div_bits = bits_uint b
      in if div_bits = 0 then Inl (Throw ''Division by zero'')
         else if div_bits > num_bits then Inr zero_uint
         else let shift = num_bits - div_bits
              in Inr (div_loop (Suc shift) a (shl_uint b shift) zero_uint))"

definition GetLow64 :: "base_uint \<Rightarrow> u64" where
  "GetLow64 pn = ucast (pn ! 0) OR push_bit 32 (ucast (pn ! 1))"

text \<open>\<^verbatim>\<open>SetCompact\<close> returns the number and the two optional flags \<open>pfNegative\<close>, \<open>pfOverflow\<close>.\<close>

definition SetCompact :: "u32 \<Rightarrow> base_uint \<times> bool \<times> bool" where
  "SetCompact nCompact =
     (let nSize = unat (drop_bit 24 nCompact);
          nWord0 = nCompact AND 0x007fffff;
          nWord = (if nSize \<le> 3 then drop_bit (8 * (3 - nSize)) nWord0 else nWord0);
          v = (if nSize \<le> 3 then uint_of_u64 (ucast nWord)
               else shl_uint (uint_of_u64 (ucast nWord)) (8 * (nSize - 3)))
      in (v,
          nWord \<noteq> 0 \<and> nCompact AND 0x00800000 \<noteq> 0,
          nWord \<noteq> 0 \<and> (nSize > 34 \<or> (nWord > 0xff \<and> nSize > 33) \<or> (nWord > 0xffff \<and> nSize > 32))))"

definition compact_word0 :: "base_uint \<Rightarrow> nat \<Rightarrow> u32" where
  "compact_word0 a nSize =
     (if nSize \<le> 3 then ucast (push_bit (8 * (3 - nSize)) (GetLow64 a))
      else ucast (GetLow64 (shr_uint a (8 * (nSize - 3)))))"

definition GetCompact :: "base_uint \<Rightarrow> bool \<Rightarrow> u32 outcome" where
  "GetCompact a fNegative =
     (let nSize0 = (bits_uint a + 7) div 8;
          nCompact0 = compact_word0 a nSize0;
          (nCompact1, nSize) = (if nCompact0 AND 0x00800000 \<noteq> 0
                                then (drop_bit 8 nCompact0, nSize0 + 1) else (nCompact0, nSize0))
      in assert_out (nCompact1 AND NOT 0x007fffff = 0) (assert_out (nSize < 256)
           (let nCompact2 = nCompact1 OR push_bit 24 (of_nat nSize)
            in Inr (nCompact2 OR (if fNegative \<and> nCompact2 AND 0x007fffff \<noteq> 0
                                  then 0x00800000 else 0)))))"

text \<open>\<^verbatim>\<open>uint256\<close> is a 32-byte blob; \<^verbatim>\<open>ReadLE32\<close> and \<^verbatim>\<open>WriteLE32\<close> move its limbs.\<close>

definition ReadLE32 :: "bytes \<Rightarrow> u32" where
  "ReadLE32 p = ucast (p ! 0) OR push_bit 8 (ucast (p ! 1)) OR push_bit 16 (ucast (p ! 2))
     OR push_bit 24 (ucast (p ! 3))"

definition WriteLE32 :: "u32 \<Rightarrow> bytes" where
  "WriteLE32 x = [ucast x, ucast (drop_bit 8 x), ucast (drop_bit 16 x), ucast (drop_bit 24 x)]"

definition ArithToUint256 :: "base_uint \<Rightarrow> bytes" where
  "ArithToUint256 a = concat (map (\<lambda>x. WriteLE32 (a ! x)) [0..<WIDTH])"

definition UintToArith256 :: "bytes \<Rightarrow> base_uint" where
  "UintToArith256 a = map (\<lambda>x. ReadLE32 (take 4 (drop (x * 4) a))) [0..<WIDTH]"

section \<open>Values of the operations\<close>


lemma u32_less: "unat (x :: u32) < 2 ^ 32"
  using unsigned_less [of x] by simp

lemma mask32: "(0xffffffff :: u64) = mask 32"
  by (simp add: mask_eq_exp_minus_1)

lemma u64_limb_split:
  "unat (ucast (n AND 0xffffffff) :: u32) + 2 ^ 32 * unat (drop_bit 32 n) = unat (n :: u64)"
proof -
  have "unat (ucast (n AND 0xffffffff) :: u32) = unat n mod 2 ^ 32"
    by (simp add: mask32 unsigned_ucast_eq unsigned_take_bit_eq flip: take_bit_eq_mask)
      (simp add: take_bit_eq_mod)
  moreover have "unat (drop_bit 32 n) = unat n div 2 ^ 32"
    by (rule unat_drop_bit_div)
  ultimately show ?thesis
    by (simp add: add.commute)
qed

lemma uval_append: "uval (xs @ ys) = uval xs + 2 ^ (32 * length xs) * uval ys"
  by (induction xs) (simp_all add: algebra_simps power_add)

lemma uval_update:
  "i < length xs \<Longrightarrow> uval (xs[i := v]) + 2 ^ (32 * i) * unat (xs ! i) = uval xs + 2 ^ (32 * i) * unat v"
proof (induction xs arbitrary: i)
  case Nil
  then show ?case by simp
next
  case (Cons x xs)
  show ?case
  proof (cases i)
    case 0
    then show ?thesis by simp
  next
    case (Suc k)
    with Cons have "uval (xs[k := v]) + 2 ^ (32 * k) * unat (xs ! k) = uval xs + 2 ^ (32 * k) * unat v"
      by simp
    then have "2 ^ 32 * (uval (xs[k := v]) + 2 ^ (32 * k) * unat (xs ! k))
        = 2 ^ 32 * (uval xs + 2 ^ (32 * k) * unat v)"
      by simp
    then show ?thesis
      by (simp add: Suc algebra_simps power_add)
  qed
qed

lemma uval_less: "uval xs < 2 ^ (32 * length xs)"
proof (induction xs)
  case Nil
  then show ?case by simp
next
  case (Cons x xs)
  have "unat x + 2 ^ 32 * uval xs < 2 ^ 32 * (uval xs + 1)"
    using u32_less [of x] by simp
  also have "\<dots> \<le> 2 ^ 32 * 2 ^ (32 * length xs)"
    using Cons by (intro mult_le_mono2) simp
  finally show ?case by (simp add: power_add)
qed

lemma uval_take_Suc:
  "i < length xs \<Longrightarrow> uval (take (Suc i) xs) = uval (take i xs) + 2 ^ (32 * i) * unat (xs ! i)"
  by (simp add: take_Suc_conv_app_nth uval_append min_def)

lemma uval_replicate_0 [simp]: "uval (replicate n 0) = 0"
  by (induction n) simp_all

lemma uval_zero [simp]: "uval zero_uint = 0"
  by (simp add: zero_uint_def)

lemma wf_zero [simp]: "wf_uint zero_uint"
  by (simp add: wf_uint_def zero_uint_def)

lemma uval_wf_less: "wf_uint a \<Longrightarrow> uval a < 2 ^ 256"
  using uval_less [of a] by (simp add: wf_uint_def WIDTH_def)

text \<open>One limb of a carry chain: \<open>n\<close> is split into the limb stored and the carry.\<close>

lemma carry_step:
  assumes "i < length pn" and "unat (n :: u64) = unat carry + unat (pn ! i) + d"
  shows "uval (pn[i := ucast (n AND 0xffffffff)]) + 2 ^ (32 * Suc i) * unat (drop_bit 32 n)
    = uval pn + 2 ^ (32 * i) * (unat carry + d)"
proof -
  let ?x = "ucast (n AND 0xffffffff) :: u32"
  have "uval (pn[i := ?x]) + 2 ^ (32 * i) * unat (pn ! i) = uval pn + 2 ^ (32 * i) * unat ?x"
    using assms(1) by (rule uval_update)
  moreover have "2 ^ (32 * i) * (unat ?x + 2 ^ 32 * unat (drop_bit 32 n)) =
      2 ^ (32 * i) * (unat carry + unat (pn ! i) + d)"
    by (simp only: u64_limb_split assms(2))
  ultimately show ?thesis
    by (simp add: algebra_simps power_add)
qed

lemma carry_less: "unat n < 2 ^ 32 * k \<Longrightarrow> unat (drop_bit 32 (n :: u64)) < k"
  by (simp only: unat_drop_bit_div less_mult_imp_div_less mult.commute)

lemma unat_add3:
  assumes "unat a + unat b + unat c < 2 ^ 64"
  shows "unat (a + b + c :: u64) = unat a + unat b + unat c"
  using assms by (simp add: unat_word_ariths)

lemma unat_ucast_u32 [simp]: "unat (ucast (x :: u32) :: u64) = unat x"
  by (simp add: unsigned_ucast_eq take_bit_nat_eq_self less_trans [OF u32_less])

lemma add_loop:
  assumes "wf_uint a" "wf_uint b"
  shows "case fold (add_step b) [0..<WIDTH] (a, 0) of (pn, carry) \<Rightarrow>
    wf_uint pn \<and> uval pn + 2 ^ (32 * WIDTH) * unat carry = uval a + uval (take WIDTH b)"
proof -
  let ?P = "\<lambda>i (pn, carry). wf_uint pn \<and> unat carry < 2 \<and>
      uval pn + 2 ^ (32 * i) * unat (carry :: u64) = uval a + uval (take i b)"
  have "?P WIDTH (fold (add_step b) [0..<WIDTH] (a, 0))"
  proof (rule fold_upt_invariant [where P = ?P])
    show "?P 0 (a, 0)" using assms by simp
  next
    fix i s assume i: "i < WIDTH" and inv: "?P i s"
    obtain pn carry where s: "s = (pn, carry)" by (cases s)
    let ?n = "carry + ucast (pn ! i) + ucast (b ! i) :: u64"
    have lens: "i < length pn" "i < length b"
      using i inv assms by (simp_all add: s wf_uint_def)
    have n: "unat ?n = unat carry + unat (pn ! i) + unat (b ! i)"
      using inv u32_less [of "pn ! i"] u32_less [of "b ! i"]
      by (subst unat_add3) (simp_all add: s)
    then have "unat (drop_bit 32 ?n) < 2"
      using inv u32_less [of "pn ! i"] u32_less [of "b ! i"] by (intro carry_less) (simp add: s)
    moreover have "uval (pn[i := ucast (?n AND 0xffffffff)]) + 2 ^ (32 * Suc i) * unat (drop_bit 32 ?n)
        = uval a + uval (take (Suc i) b)"
      using carry_step [OF lens(1) n] inv lens
      by (simp add: s uval_take_Suc algebra_simps)
    ultimately show "?P (Suc i) (add_step b i s)"
      using inv by (simp add: s add_step_def Let_def wf_uint_def)
  qed simp
  then show ?thesis by (auto split: prod.splits)
qed

lemma mod_from_carry: "(x :: nat) < m \<Longrightarrow> x + m * c = y \<Longrightarrow> x = y mod m"
  by auto

lemma wf_add [simp]: "wf_uint a \<Longrightarrow> wf_uint b \<Longrightarrow> wf_uint (add_uint a b)"
  using add_loop [of a b] by (auto simp: add_uint_def split: prod.splits)

lemma uval_add [arith256]:
  assumes "wf_uint a" "wf_uint b"
  shows "uval (add_uint a b) = (uval a + uval b) mod 2 ^ 256"
proof -
  obtain pn carry where f: "fold (add_step b) [0..<WIDTH] (a, 0) = (pn, carry)"
    by (cases "fold (add_step b) [0..<WIDTH] (a, 0)")
  have "wf_uint pn" "uval pn + 2 ^ 256 * unat carry = uval a + uval b"
    using add_loop [OF assms] assms(2) by (simp_all only: f) (auto simp: wf_uint_def WIDTH_def)
  then show ?thesis
    using mod_from_carry [OF uval_wf_less] by (simp only: add_uint_def f fst_conv)
qed

lemma unat_max_u32: "unat (- 1 :: u32) = 2 ^ 32 - 1"
  by (simp add: unsigned_minus_1_eq_mask mask_eq_exp_minus_1)

lemma unat_not: "unat (NOT x :: u32) = 2 ^ 32 - 1 - unat x"
proof -
  have "NOT x = - 1 - x"
    by (simp add: not_eq_complement)
  moreover have "unat x \<le> unat (- 1 :: u32)"
    using u32_less[of x] by (simp add: unat_max_u32)
  ultimately show ?thesis
    by (simp add: unat_sub word_le_nat_alt unat_max_u32)
qed

lemma uval_not: "uval (not_uint xs) + uval xs + 1 = 2 ^ (32 * length xs)"
proof (induction xs)
  case Nil
  then show ?case by (simp add: not_uint_def)
next
  case (Cons x xs)
  have "unat (NOT x) + unat x + 1 = 2 ^ 32"
    using u32_less [of x] by (simp add: unat_not)
  then have "unat (NOT x) + unat x + 1 + 2 ^ 32 * (uval (not_uint xs) + uval xs)
      = 2 ^ 32 * (uval (not_uint xs) + uval xs + 1)"
    by simp
  then show ?case
    using Cons by (simp add: not_uint_def power_add algebra_simps)
qed

lemma length_not [simp]: "length (not_uint a) = length a"
  by (simp add: not_uint_def)

lemma length_inc [simp]: "length (inc_uint a) = length a"
  by (induction a) auto

lemma length_neg [simp]: "length (neg_uint a) = length a"
  by (simp add: neg_uint_def)

lemma unat_inc_u32: "unat (x + 1 :: u32) = (if x + 1 = 0 then 0 else unat x + 1)"
  using unatSuc[of x] by (auto simp: add.commute)

lemma uval_inc: "uval (inc_uint xs) = (uval xs + 1) mod 2 ^ (32 * length xs)"
proof (induction xs)
  case Nil
  then show ?case by simp
next
  case (Cons x xs)
  show ?case
  proof (cases "x + 1 = 0")
    case True
    then have "x = - 1"
      by (simp add: add_eq_0_iff2)
    then have x: "unat x = 2 ^ 32 - 1"
      by (simp only: unat_max_u32)
    have "(uval (x # xs) + 1) mod 2 ^ (32 * length (x # xs)) =
        (2 ^ 32 * (uval xs + 1)) mod (2 ^ 32 * 2 ^ (32 * length xs))"
      using x by (simp add: power_add)
    also have "\<dots> = 2 ^ 32 * ((uval xs + 1) mod 2 ^ (32 * length xs))"
      by (rule mult_mod_right [symmetric])
    finally show ?thesis
      using True Cons by simp
  next
    case False
    then have "uval ((x + 1) # xs) = uval (x # xs) + 1"
      using unat_inc_u32[of x] by simp
    moreover have "uval ((x + 1) # xs) < 2 ^ (32 * length (x # xs))"
      using uval_less[of "(x + 1) # xs"] by simp
    ultimately show ?thesis
      using False by simp
  qed
qed

lemma uval_neg: "uval (neg_uint a) = (2 ^ (32 * length a) - uval a) mod 2 ^ (32 * length a)"
proof -
  have "uval (not_uint a) + 1 = 2 ^ (32 * length a) - uval a"
    using uval_not[of a] by simp
  then show ?thesis
    by (simp add: neg_uint_def uval_inc)
qed

lemma wf_neg [simp]: "wf_uint a \<Longrightarrow> wf_uint (neg_uint a)"
  by (simp add: wf_uint_def)

lemma wf_not [simp]: "wf_uint a \<Longrightarrow> wf_uint (not_uint a)"
  by (simp add: wf_uint_def)

lemma wf_sub [simp]: "wf_uint a \<Longrightarrow> wf_uint b \<Longrightarrow> wf_uint (sub_uint a b)"
  by (simp add: sub_uint_def)

lemma uval_not_wf [arith256]: "wf_uint a \<Longrightarrow> uval (not_uint a) = 2 ^ 256 - 1 - uval a"
  using uval_not[of a] by (simp add: wf_uint_def WIDTH_def)

lemma uval_sub [arith256]:
  assumes "wf_uint a" "wf_uint b"
  shows "uval (sub_uint a b) = (uval a + (2 ^ 256 - uval b)) mod 2 ^ 256"
proof -
  have "uval (neg_uint b) = (2 ^ 256 - uval b) mod 2 ^ 256"
    using uval_neg[of b] assms by (simp add: wf_uint_def WIDTH_def)
  then show ?thesis
    using assms by (simp only: sub_uint_def uval_add wf_neg mod_add_right_eq)
qed

lemma uval_sub_le:
  assumes "wf_uint a" "wf_uint b" "uval b \<le> uval a"
  shows "uval (sub_uint a b) = uval a - uval b"
proof -
  have "uval a + (2 ^ 256 - uval b) = (uval a - uval b) + 2 ^ 256"
    using assms uval_wf_less[OF assms(2)] by simp
  then have "uval (sub_uint a b) = (uval a - uval b) mod 2 ^ 256"
    by (simp only: uval_sub assms mod_add_self2)
  also have "\<dots> = uval a - uval b"
    using uval_wf_less[OF assms(1)] by (intro mod_less) simp
  finally show ?thesis .
qed

lemma unat_mac:
  fixes x y z :: u32 and c :: u64
  assumes "unat c < 2 ^ 32"
  shows "unat (c + ucast x * ucast y) = unat c + unat x * unat y"
    and "unat (c + ucast z + ucast x * ucast y) = unat c + unat z + unat x * unat y"
proof -
  have "unat x * unat y \<le> (2 ^ 32 - 1) * (2 ^ 32 - 1)"
    using u32_less[of x] u32_less[of y] by (intro mult_le_mono) simp_all
  then have le: "unat c + unat z + unat x * unat y < 2 ^ 64"
    using assms u32_less[of z] by simp
  then have m: "unat (ucast x * ucast y :: u64) = unat x * unat y"
    by (simp add: unat_word_ariths)
  show "unat (c + ucast z + ucast x * ucast y) = unat c + unat z + unat x * unat y"
    using le m by (subst unat_add3) simp_all
  show "unat (c + ucast x * ucast y) = unat c + unat x * unat y"
    using le m unat_add3[of c 0 "ucast x * ucast y"] by simp
qed

lemma prod_u32_less:
  fixes x y :: u32
  assumes "c < 2 ^ 32" "d < 2 ^ 32"
  shows "c + d + unat x * unat y < 2 ^ 32 * 2 ^ 32"
proof -
  have "unat x * unat y \<le> (2 ^ 32 - 1) * (2 ^ 32 - 1)"
    using u32_less[of x] u32_less[of y] by (intro mult_le_mono) simp_all
  then show ?thesis using assms by simp
qed

lemma mul32_loop:
  assumes "wf_uint a"
  shows "case fold (mul32_step b) [0..<WIDTH] (a, 0) of (pn, carry) \<Rightarrow>
    wf_uint pn \<and> uval pn + 2 ^ (32 * WIDTH) * unat carry = unat b * uval (take WIDTH a)"
proof -
  let ?P = "\<lambda>i (pn, carry). wf_uint pn \<and> unat carry < 2 ^ 32 \<and> drop i pn = drop i a \<and>
      uval (take i pn) + 2 ^ (32 * i) * unat (carry :: u64) = unat b * uval (take i a)"
  have "?P WIDTH (fold (mul32_step b) [0..<WIDTH] (a, 0))"
  proof (rule fold_upt_invariant [where P = ?P])
    show "?P 0 (a, 0)" using assms by simp
  next
    fix i s assume i: "i < WIDTH" and inv: "?P i s"
    obtain pn carry where s: "s = (pn, carry)" by (cases s)
    let ?n = "carry + ucast b * ucast (pn ! i) :: u64"
    let ?x = "ucast (?n AND 0xffffffff) :: u32"
    have lens: "i < length pn" "i < length a" and c: "unat carry < 2 ^ 32"
      and dr: "drop i pn = drop i a"
      using i inv assms by (simp_all add: s wf_uint_def)
    have nth: "pn ! i = a ! i"
      using dr lens by (metis hd_drop_conv_nth)
    have dr': "drop (Suc i) pn = drop (Suc i) a"
      using dr by (metis drop_Suc tl_drop)
    have n: "unat ?n = unat carry + unat b * unat (a ! i)"
      using unat_mac(1)[OF c] nth by simp
    then have "unat (drop_bit 32 ?n) < 2 ^ 32"
      using prod_u32_less[OF c, of 0 b "a ! i"] by (intro carry_less) simp
    moreover have "uval (take (Suc i) (pn[i := ?x])) + 2 ^ (32 * Suc i) * unat (drop_bit 32 ?n)
        = unat b * uval (take (Suc i) a)"
    proof -
      have "uval (take (Suc i) (pn[i := ?x])) + 2 ^ (32 * Suc i) * unat (drop_bit 32 ?n)
        = uval (take i pn) + 2 ^ (32 * i) * (unat ?x + 2 ^ 32 * unat (drop_bit 32 ?n))"
        using lens by (simp add: uval_take_Suc algebra_simps power_add)
      also have "\<dots> = uval (take i pn) + 2 ^ (32 * i) * unat ?n"
        by (simp only: u64_limb_split)
      also have "\<dots> = unat b * uval (take i a) + 2 ^ (32 * i) * (unat b * unat (a ! i))"
        using inv by (simp add: s n algebra_simps)
      finally show ?thesis
        using lens by (simp add: uval_take_Suc algebra_simps)
    qed
    ultimately show "?P (Suc i) (mul32_step b i s)"
      using inv dr' by (simp add: s mul32_step_def Let_def wf_uint_def)
  qed simp
  then show ?thesis by (auto simp: wf_uint_def split: prod.splits)
qed

lemma uval_mul32:
  assumes "wf_uint a"
  shows "wf_uint (mul32_uint a b)" and "uval (mul32_uint a b) = (uval a * unat b) mod 2 ^ 256"
proof -
  obtain pn carry where f: "fold (mul32_step b) [0..<WIDTH] (a, 0) = (pn, carry)"
    by (cases "fold (mul32_step b) [0..<WIDTH] (a, 0)")
  have wf: "wf_uint pn" and v: "uval pn + 2 ^ 256 * unat carry = uval a * unat b"
    using mul32_loop[OF assms, of b] assms
    by (simp_all only: f) (auto simp: wf_uint_def WIDTH_def mult.commute)
  show "wf_uint (mul32_uint a b)"
    using wf by (simp add: mul32_uint_def f)
  show "uval (mul32_uint a b) = (uval a * unat b) mod 2 ^ 256"
    using mod_from_carry[OF uval_wf_less[OF wf] v] by (simp only: mul32_uint_def f fst_conv)
qed

lemma mul_row_value:
  assumes "wf_uint a" "wf_uint b" "wf_uint pn" "j < WIDTH"
  shows "wf_uint (mul_row a b j pn) \<and>
    uval (mul_row a b j pn) = (uval pn + 2 ^ (32 * j) * unat (a ! j) * uval b) mod 2 ^ 256"
proof -
  let ?P = "\<lambda>i (p, carry). wf_uint p \<and> unat carry < 2 ^ 32 \<and>
      uval p + 2 ^ (32 * (i + j)) * unat (carry :: u64)
        = uval pn + 2 ^ (32 * j) * unat (a ! j) * uval (take i b)"
  have "?P (WIDTH - j) (fold (mul_step a b j) [0..<WIDTH - j] (pn, 0))"
  proof (rule fold_upt_invariant [where P = ?P])
    show "?P 0 (pn, 0)" using assms by simp
  next
    fix i s assume i: "i < WIDTH - j" and inv: "?P i s"
    obtain p carry where s: "s = (p, carry)" by (cases s)
    let ?n = "carry + ucast (p ! (i + j)) + ucast (a ! j) * ucast (b ! i) :: u64"
    have lens: "i + j < length p" "i < length b" and c: "unat carry < 2 ^ 32"
      using i inv assms by (simp_all add: s wf_uint_def)
    have n: "unat ?n = unat carry + unat (p ! (i + j)) + unat (a ! j) * unat (b ! i)"
      by (rule unat_mac(2)[OF c])
    then have "unat (drop_bit 32 ?n) < 2 ^ 32"
      using prod_u32_less[OF c u32_less, of "p ! (i + j)" "a ! j" "b ! i"]
      by (intro carry_less) simp
    moreover have "uval (p[i + j := ucast (?n AND 0xffffffff)])
        + 2 ^ (32 * (Suc i + j)) * unat (drop_bit 32 ?n)
        = uval pn + 2 ^ (32 * j) * unat (a ! j) * uval (take (Suc i) b)"
      using carry_step[OF lens(1) n] inv lens
      by (simp add: s uval_take_Suc algebra_simps power_add)
    ultimately show "?P (Suc i) (mul_step a b j i s)"
      using inv by (simp add: s mul_step_def Let_def wf_uint_def)
  qed simp
  moreover obtain p carry where f: "fold (mul_step a b j) [0..<WIDTH - j] (pn, 0) = (p, carry)"
    by (cases "fold (mul_step a b j) [0..<WIDTH - j] (pn, 0)")
  moreover have "32 * (WIDTH - j + j) = 256"
    using assms(4) by (simp add: WIDTH_def)
  ultimately have wf: "wf_uint p" and v: "uval p + 2 ^ 256 * unat carry
        = uval pn + 2 ^ (32 * j) * unat (a ! j) * uval (take (WIDTH - j) b)"
    by (simp_all only: prod.case)
  have b: "uval b = uval (take (WIDTH - j) b) + 2 ^ (32 * (WIDTH - j)) * uval (drop (WIDTH - j) b)"
    using assms uval_append[of "take (WIDTH - j) b" "drop (WIDTH - j) b"] by (simp add: wf_uint_def)
  have "2 ^ (32 * j) * (2 :: nat) ^ (32 * (WIDTH - j)) = 2 ^ 256"
    using assms(4) by (simp only: WIDTH_def flip: power_add distrib_left) simp
  then have "uval pn + 2 ^ (32 * j) * unat (a ! j) * uval b = uval p +
      2 ^ 256 * (unat carry + unat (a ! j) * uval (drop (WIDTH - j) b))"
    using v by (subst b) (simp add: algebra_simps)
  then have "uval p = (uval pn + 2 ^ (32 * j) * unat (a ! j) * uval b) mod 2 ^ 256"
    using uval_wf_less[OF wf] by (metis mod_from_carry)
  then show ?thesis
    using wf by (simp add: mul_row_def f)
qed

lemma uval_mul [arith256]:
  assumes "wf_uint a" "wf_uint b"
  shows "uval (mul_uint a b) = (uval a * uval b) mod 2 ^ 256" and "wf_uint (mul_uint a b)"
proof -
  let ?P = "\<lambda>j p. wf_uint p \<and> uval p = (uval (take j a) * uval b) mod 2 ^ 256"
  have "?P WIDTH (fold (mul_row a b) [0..<WIDTH] zero_uint)"
  proof (rule fold_upt_invariant [where P = ?P])
    fix j p assume j: "j < WIDTH" and inv: "?P j p"
    have "uval (mul_row a b j p) = (uval p + 2 ^ (32 * j) * unat (a ! j) * uval b) mod 2 ^ 256"
      using mul_row_value[OF assms _ j] inv by simp
    also have "\<dots> = (uval (take j a) * uval b + 2 ^ (32 * j) * unat (a ! j) * uval b) mod 2 ^ 256"
      using inv by (simp only: mod_add_left_eq)
    also have "\<dots> = (uval (take (Suc j) a) * uval b) mod 2 ^ 256"
      using j assms by (simp only: uval_take_Suc wf_uint_def distrib_right)
    finally show "?P (Suc j) (mul_row a b j p)"
      using mul_row_value[OF assms _ j] inv by simp
  qed simp_all
  then have r: "wf_uint (mul_uint a b)" "uval (mul_uint a b) = (uval (take WIDTH a) * uval b) mod 2 ^ 256"
    by (simp_all only: mul_uint_def)
  show "wf_uint (mul_uint a b)"
    by (rule r)
  show "uval (mul_uint a b) = (uval a * uval b) mod 2 ^ 256"
    using r(2) assms by (simp only: wf_uint_def take_all order_refl)
qed

lemma unat_push_bit_u32: "unat (push_bit n (x :: u32)) = (unat x * 2 ^ n) mod 2 ^ 32"
  by (simp add: unsigned_push_bit_eq) (simp add: push_bit_eq_mult take_bit_eq_mod)

lemma unat_or_push:
  fixes x y :: u32
  assumes "unat y < 2 ^ n"
  shows "unat (y OR push_bit n x) = unat y + (unat x * 2 ^ n) mod 2 ^ 32"
proof -
  have "y OR push_bit n x = push_bit n x + y"
    using or_eq_add_disjoint[OF assms] by (simp add: or.commute)
  moreover have "unat (push_bit n x) + unat y < 2 ^ 32"
  proof (cases "n < 32")
    case True
    then have "(unat x * 2 ^ n) mod 2 ^ 32 = 2 ^ n * (unat x mod 2 ^ (32 - n))"
      using mult_mod_right[of "2 ^ n" "unat x" "2 ^ (32 - n)"]
      by (simp add: mult.commute flip: power_add)
    moreover have "unat x mod 2 ^ (32 - n) + 1 \<le> 2 ^ (32 - n)"
      by (simp add: Suc_leI)
    then have "2 ^ n * (unat x mod 2 ^ (32 - n) + 1) \<le> 2 ^ n * 2 ^ (32 - n)"
      by (rule mult_le_mono2)
    ultimately show ?thesis
      using assms True by (simp add: unat_push_bit_u32 flip: power_add)
  next
    case False
    then have "2 ^ n = (2 :: nat) ^ 32 * 2 ^ (n - 32)"
      by (metis power_add le_add_diff_inverse not_less)
    then have "(unat x * 2 ^ n) mod 2 ^ 32 = 0"
      by (simp add: mult.left_commute)
    then show ?thesis
      using u32_less[of y] by (simp add: unat_push_bit_u32)
  qed
  ultimately have "unat (y OR push_bit n x) = unat (push_bit n x) + unat y"
    using unat_add_lem[of "push_bit n x" y] by simp
  then show ?thesis
    by (simp only: unat_push_bit_u32 add.commute)
qed

lemma shift_split:
  assumes "s < 32"
  shows "x * 2 ^ s = (x * 2 ^ s) mod 2 ^ 32 + 2 ^ 32 * (x div 2 ^ (32 - s :: nat) :: nat)"
proof -
  have "2 ^ 32 = (2 :: nat) ^ (32 - s) * 2 ^ s"
    using assms by (simp flip: power_add)
  then have "(x * 2 ^ s) div 2 ^ 32 = x div 2 ^ (32 - s)"
    by (metis div_mult_mult2 power_eq_0_iff zero_neq_numeral)
  then show ?thesis
    by (metis mod_mult_div_eq)
qed

lemma uval_or_0:
  assumes "m < length pn" "pn ! m = 0"
  shows "uval (pn[m := pn ! m OR w]) = uval pn + 2 ^ (32 * m) * unat w"
  using uval_update[OF assms(1), of w] assms(2) by simp

lemma uval_or_push:
  assumes "m < length pn" "unat (pn ! m) < 2 ^ n"
  shows "uval (pn[m := pn ! m OR push_bit n x]) = uval pn + 2 ^ (32 * m) * ((unat x * 2 ^ n) mod 2 ^ 32)"
  using uval_update[OF assms(1), of "pn ! m OR push_bit n x"] unat_or_push[OF assms(2)]
  by (simp add: algebra_simps)

definition shl_inv :: "base_uint \<Rightarrow> nat \<Rightarrow> nat \<Rightarrow> nat \<Rightarrow> base_uint \<Rightarrow> bool" where
  "shl_inv a k s i pn \<longleftrightarrow> wf_uint pn \<and> (\<forall>m. i + k < m \<and> m < WIDTH \<longrightarrow> pn ! m = 0) \<and>
     (i + k < WIDTH \<longrightarrow> unat (pn ! (i + k)) < 2 ^ s) \<and>
     uval pn = (uval (take i a) * 2 ^ (32 * k + s)) mod 2 ^ 256"

lemma shl_step_value:
  assumes inv: "shl_inv a k s i pn" and "s < 32" "i < WIDTH"
  shows "\<exists>h. uval (shl_step a k s i pn) + 2 ^ 256 * h
    = uval pn + 2 ^ (32 * (i + k)) * (unat (a ! i) * 2 ^ s)"
proof -
  let ?x = "a ! i" and ?d = "32 - s"
  let ?lo = "(unat ?x * 2 ^ s) mod 2 ^ 32" and ?hi = "unat ?x div 2 ^ ?d"
  have split: "unat ?x * 2 ^ s = ?lo + 2 ^ 32 * ?hi"
    by (rule shift_split[OF assms(2)])
  have len: "length pn = WIDTH"
    using inv by (simp add: shl_inv_def wf_uint_def)
  consider (in2) "i + k + 1 < WIDTH" | (in1) "i + k + 1 = WIDTH" | (out) "WIDTH \<le> i + k"
    by linarith
  then show ?thesis
  proof cases
    case in2
    define pn1 where "pn1 = (if s \<noteq> 0 then pn[i + k + 1 := pn ! (i + k + 1) OR drop_bit ?d ?x] else pn)"
    have z: "pn ! (i + k + 1) = 0" and l: "unat (pn ! (i + k)) < 2 ^ s"
      using inv in2 by (auto simp: shl_inv_def)
    have "uval pn1 = uval pn + 2 ^ (32 * (i + k + 1)) * ?hi"
    proof (cases "s = 0")
      case True
      then show ?thesis using u32_less[of ?x] by (simp add: pn1_def)
    next
      case False
      then show ?thesis
        using uval_or_0[OF _ z] in2 len by (simp add: pn1_def unat_drop_bit_div)
    qed
    moreover have "shl_step a k s i pn = pn1[i + k := pn1 ! (i + k) OR push_bit s ?x]"
      using in2 by (simp add: shl_step_def pn1_def Let_def)
    moreover have "i + k < length pn1" "unat (pn1 ! (i + k)) < 2 ^ s"
      using in2 len l by (auto simp: pn1_def)
    ultimately have "uval (shl_step a k s i pn)
        = uval pn + 2 ^ (32 * (i + k + 1)) * ?hi + 2 ^ (32 * (i + k)) * ?lo"
      by (simp only: uval_or_push)
    also have "\<dots> = uval pn + 2 ^ (32 * (i + k)) * (?lo + 2 ^ 32 * ?hi)"
      by (simp add: algebra_simps power_add)
    also have "?lo + 2 ^ 32 * ?hi = unat ?x * 2 ^ s"
      by (rule split[symmetric])
    finally show ?thesis
      by (intro exI[of _ 0]) simp
  next
    case in1
    then have l: "unat (pn ! (i + k)) < 2 ^ s" and ik: "i + k < length pn" "i + k < WIDTH"
      using inv len by (auto simp: shl_inv_def)
    have "shl_step a k s i pn = pn[i + k := pn ! (i + k) OR push_bit s ?x]"
      using in1 by (simp add: shl_step_def)
    then have "uval (shl_step a k s i pn) = uval pn + 2 ^ (32 * (i + k)) * ?lo"
      using uval_or_push[OF ik(1) l] by simp
    moreover have "(2 :: nat) ^ 256 = 2 ^ (32 * (i + k)) * 2 ^ 32"
      using in1 by (simp add: WIDTH_def flip: power_add)
    ultimately have "uval (shl_step a k s i pn) + 2 ^ 256 * ?hi
        = uval pn + 2 ^ (32 * (i + k)) * (?lo + 2 ^ 32 * ?hi)"
      by (simp only: algebra_simps)
    then show ?thesis
      by (metis split)
  next
    case out
    then have "32 * (i + k) = 256 + 32 * (i + k - 8)"
      by (simp add: WIDTH_def)
    then have "(2 :: nat) ^ (32 * (i + k)) = 2 ^ 256 * 2 ^ (32 * (i + k - 8))"
      by (metis power_add)
    moreover have "shl_step a k s i pn = pn"
      using out by (simp add: shl_step_def)
    ultimately show ?thesis
      by (metis mult.assoc)
  qed
qed

lemma shl_step_inv:
  assumes inv: "shl_inv a k s i pn" and "s < 32" "i < WIDTH" "wf_uint a"
  shows "shl_inv a k s (Suc i) (shl_step a k s i pn)"
proof -
  let ?r = "shl_step a k s i pn"
  have len: "length pn = WIDTH"
    using inv by (simp add: shl_inv_def wf_uint_def)
  then have wf: "wf_uint ?r"
    by (simp add: shl_step_def wf_uint_def Let_def)
  obtain h where "uval ?r + 2 ^ 256 * h = uval pn + 2 ^ (32 * (i + k)) * (unat (a ! i) * 2 ^ s)"
    using shl_step_value[OF assms(1-3)] by blast
  then have "uval ?r = (uval pn + 2 ^ (32 * (i + k)) * (unat (a ! i) * 2 ^ s)) mod 2 ^ 256"
    using mod_from_carry uval_wf_less[OF wf] by blast
  also have "\<dots> = (uval (take i a) * 2 ^ (32 * k + s)
      + 2 ^ (32 * (i + k)) * (unat (a ! i) * 2 ^ s)) mod 2 ^ 256"
    using inv by (simp only: shl_inv_def mod_add_left_eq)
  also have "uval (take i a) * 2 ^ (32 * k + s) + 2 ^ (32 * (i + k)) * (unat (a ! i) * 2 ^ s)
      = uval (take (Suc i) a) * 2 ^ (32 * k + s)"
    using assms(3,4) by (simp add: wf_uint_def uval_take_Suc algebra_simps power_add)
  finally have v: "uval ?r = (uval (take (Suc i) a) * 2 ^ (32 * k + s)) mod 2 ^ 256" .
  have "?r ! m = 0" if "Suc i + k < m" "m < WIDTH" for m
    using inv that len by (auto simp: shl_step_def shl_inv_def Let_def)
  moreover have "unat (?r ! (Suc i + k)) < 2 ^ s" if "Suc i + k < WIDTH"
  proof -
    have "unat (a ! i) < 2 ^ s * 2 ^ (32 - s)"
      using u32_less[of "a ! i"] assms(2) by (simp flip: power_add)
    then have "unat (drop_bit (32 - s) (a ! i)) < 2 ^ s"
      by (simp only: unat_drop_bit_div less_mult_imp_div_less)
    moreover have "pn ! (Suc i + k) = 0"
      using inv that by (auto simp: shl_inv_def)
    ultimately show ?thesis
      using that len by (auto simp: shl_step_def Let_def)
  qed
  ultimately show ?thesis
    using wf v by (simp only: shl_inv_def) blast
qed

lemma uval_shl [arith256]:
  assumes "wf_uint a"
  shows "uval (shl_uint a n) = (uval a * 2 ^ n) mod 2 ^ 256" and "wf_uint (shl_uint a n)"
proof -
  have "shl_inv a (n div 32) (n mod 32) WIDTH (shl_uint a n)"
    unfolding shl_uint_def
  proof (rule fold_upt_invariant[where P = "shl_inv a (n div 32) (n mod 32)"])
    show "shl_inv a (n div 32) (n mod 32) 0 zero_uint"
      by (simp add: shl_inv_def) (simp add: zero_uint_def)
  qed (use assms in \<open>auto intro: shl_step_inv\<close>)
  then have "uval (shl_uint a n) = (uval (take WIDTH a) * 2 ^ (32 * (n div 32) + n mod 32)) mod 2 ^ 256"
      and wf: "wf_uint (shl_uint a n)"
    by (simp_all only: shl_inv_def)
  then show "uval (shl_uint a n) = (uval a * 2 ^ n) mod 2 ^ 256"
    using assms by (simp add: wf_uint_def)
  show "wf_uint (shl_uint a n)"
    by (rule wf)
qed

definition shr_inv :: "base_uint \<Rightarrow> nat \<Rightarrow> nat \<Rightarrow> nat \<Rightarrow> base_uint \<Rightarrow> bool" where
  "shr_inv a k s i pn \<longleftrightarrow> wf_uint pn \<and> (\<forall>m. i \<le> m + k \<and> m < WIDTH \<longrightarrow> pn ! m = 0) \<and>
     (k < i \<longrightarrow> unat (pn ! (i - k - 1)) < 2 ^ (32 - s)) \<and>
     uval pn = uval (take i a) div 2 ^ (32 * k + s)"

lemma shr_step_value:
  assumes inv: "shr_inv a k s i pn" and "s < 32" "i < WIDTH" "wf_uint a"
  shows "uval (shr_step a k s i pn) = uval (take (Suc i) a) div 2 ^ (32 * k + s)"
proof -
  let ?x = "a ! i"
  have len: "length pn = WIDTH"
    using inv by (simp add: shr_inv_def wf_uint_def)
  have tk: "uval (take (Suc i) a) = uval (take i a) + 2 ^ (32 * i) * unat ?x"
    using assms(3,4) by (simp add: wf_uint_def uval_take_Suc)
  have ti: "uval (take i a) < 2 ^ (32 * i)"
    using uval_less[of "take i a"] assms(3,4) by (simp add: wf_uint_def)
  have v: "uval pn = uval (take i a) div 2 ^ (32 * k + s)"
    using inv by (simp add: shr_inv_def)
  consider (lt) "i < k" | (eq) "i = k" | (gt) "k < i" by linarith
  then show ?thesis
  proof cases
    case lt
    have "uval (take (Suc i) a) < 2 ^ (32 * Suc i)"
      using uval_less[of "take (Suc i) a"] assms(3,4) by (simp add: wf_uint_def min_absorb2 Suc_leI)
    also have "\<dots> \<le> (2 :: nat) ^ (32 * k + s)"
      using lt by (intro power_increasing) simp_all
    finally have "uval (take (Suc i) a) div 2 ^ (32 * k + s) = 0"
      by simp
    moreover have "uval (take i a) div 2 ^ (32 * k + s) = 0"
      using calculation div_le_mono[of "uval (take i a)" "uval (take (Suc i) a)" "2 ^ (32 * k + s)"] tk
      by simp
    ultimately show ?thesis
      using lt v by (simp add: shr_step_def)
  next
    case eq
    have z: "pn ! 0 = 0" and l0: "0 < length pn"
      using inv eq len by (auto simp: shr_inv_def WIDTH_def)
    have "uval (take (Suc i) a) div 2 ^ (32 * k + s) = (uval (take (Suc i) a) div 2 ^ (32 * k)) div 2 ^ s"
      by (simp only: power_add div_mult2_eq)
    also have "uval (take (Suc i) a) div 2 ^ (32 * k) = unat ?x"
      using ti tk by (simp add: eq)
    finally have r: "uval (take (Suc i) a) div 2 ^ (32 * k + s) = unat ?x div 2 ^ s" .
    have "uval (take i a) div 2 ^ (32 * k + s) = 0"
      using ti by (simp add: eq power_add div_mult2_eq)
    then have "uval pn = 0"
      using v by simp
    moreover have "shr_step a k s i pn = pn[0 := pn ! 0 OR drop_bit s ?x]"
      by (simp add: shr_step_def eq)
    ultimately show ?thesis
      using uval_or_0[OF l0 z, of "drop_bit s ?x"] r by (simp add: unat_drop_bit_div)
  next
    case gt
    define m where "m = i - k - 1"
    define pn1 where "pn1 = (if s \<noteq> 0 then pn[m := pn ! m OR push_bit (32 - s) ?x] else pn)"
    have i: "i = Suc (m + k)"
      using gt by (simp add: m_def)
    have lm: "m < length pn" "Suc m < WIDTH" and z: "pn ! Suc m = 0"
      and l: "unat (pn ! m) < 2 ^ (32 - s)"
      using inv gt len assms(3) by (auto simp: shr_inv_def i)
    have "uval pn1 = uval pn + 2 ^ (32 * m) * ((unat ?x * 2 ^ (32 - s)) mod 2 ^ 32)"
      using uval_or_push[OF lm(1) l, of ?x] by (simp add: pn1_def)
    moreover have "shr_step a k s i pn = pn1[Suc m := pn1 ! Suc m OR drop_bit s ?x]"
      by (auto simp: shr_step_def pn1_def i)
    moreover have "uval (pn1[Suc m := pn1 ! Suc m OR drop_bit s ?x])
        = uval pn1 + 2 ^ (32 * Suc m) * unat (drop_bit s ?x)"
      using lm z len by (intro uval_or_0) (auto simp: pn1_def)
    ultimately have "uval (shr_step a k s i pn) = uval pn
        + 2 ^ (32 * m) * ((unat ?x * 2 ^ (32 - s)) mod 2 ^ 32) + 2 ^ (32 * Suc m) * (unat ?x div 2 ^ s)"
      by (simp only: unat_drop_bit_div)
    also have "\<dots> = uval pn + 2 ^ (32 * m) * ((unat ?x * 2 ^ (32 - s)) mod 2 ^ 32 + 2 ^ 32 * (unat ?x div 2 ^ s))"
      by (simp add: algebra_simps power_add)
    also have "(unat ?x * 2 ^ (32 - s)) mod 2 ^ 32 + 2 ^ 32 * (unat ?x div 2 ^ s) = unat ?x * 2 ^ (32 - s)"
    proof (cases "s = 0")
      case True
      then show ?thesis using u32_less[of ?x] by simp
    next
      case False
      then show ?thesis
        using shift_split[of "32 - s" "unat ?x"] assms(2) by simp
    qed
    also have "uval pn + 2 ^ (32 * m) * (unat ?x * 2 ^ (32 - s)) = uval (take (Suc i) a) div 2 ^ (32 * k + s)"
    proof -
      have "32 * i = 32 * k + s + (32 * m + (32 - s))"
        using assms(2) by (simp add: i)
      then have "2 ^ (32 * i) * unat ?x = 2 ^ (32 * k + s) * (2 ^ (32 * m) * (unat ?x * 2 ^ (32 - s)))"
        by (simp only: power_add mult_ac)
      then show ?thesis
        using v by (simp only: tk) simp
    qed
    finally show ?thesis .
  qed
qed

lemma shr_step_inv:
  assumes inv: "shr_inv a k s i pn" and "s < 32" "i < WIDTH" "wf_uint a"
  shows "shr_inv a k s (Suc i) (shr_step a k s i pn)"
proof -
  let ?r = "shr_step a k s i pn"
  have len: "length pn = WIDTH"
    using inv by (simp add: shr_inv_def wf_uint_def)
  then have wf: "wf_uint ?r"
    by (simp add: shr_step_def wf_uint_def Let_def)
  have "?r ! m = 0" if "Suc i \<le> m + k" "m < WIDTH" for m
    using inv that len by (auto simp: shr_step_def shr_inv_def Let_def)
  moreover have "unat (?r ! (Suc i - k - 1)) < 2 ^ (32 - s)" if "k < Suc i"
  proof -
    have "unat (a ! i) < 2 ^ (32 - s) * 2 ^ s"
      using u32_less[of "a ! i"] assms(2) by (simp flip: power_add)
    then have "unat (drop_bit s (a ! i)) < 2 ^ (32 - s)"
      by (simp only: unat_drop_bit_div less_mult_imp_div_less)
    moreover have "pn ! (i - k) = 0"
      using inv that assms(3) by (auto simp: shr_inv_def)
    ultimately show ?thesis
      using that len assms(3) by (auto simp: shr_step_def Let_def)
  qed
  ultimately show ?thesis
    using wf shr_step_value[OF assms] by (simp only: shr_inv_def) blast
qed

lemma uval_shr [arith256]:
  assumes "wf_uint a"
  shows "uval (shr_uint a n) = uval a div 2 ^ n" and "wf_uint (shr_uint a n)"
proof -
  have "shr_inv a (n div 32) (n mod 32) WIDTH (shr_uint a n)"
    unfolding shr_uint_def
  proof (rule fold_upt_invariant[where P = "shr_inv a (n div 32) (n mod 32)"])
    show "shr_inv a (n div 32) (n mod 32) 0 zero_uint"
      by (simp add: shr_inv_def) (simp add: zero_uint_def)
  qed (use assms in \<open>auto intro: shr_step_inv\<close>)
  then have "uval (shr_uint a n) = uval (take WIDTH a) div 2 ^ (32 * (n div 32) + n mod 32)"
      and wf: "wf_uint (shr_uint a n)"
    by (simp_all only: shr_inv_def)
  then show "uval (shr_uint a n) = uval a div 2 ^ n"
    using assms by (simp add: wf_uint_def)
  show "wf_uint (shr_uint a n)"
    by (rule wf)
qed

lemma compare_from_value:
  assumes "i \<le> length a" "i \<le> length b"
  shows "compare_from i a b = (if uval (take i a) < uval (take i b) then - 1
    else if uval (take i a) > uval (take i b) then 1 else 0)"
  using assms
proof (induction i)
  case 0
  then show ?case by simp
next
  case (Suc i)
  have le: "uval (take i xs) < 2 ^ (32 * i)" if "Suc i \<le> length xs" for xs
    using uval_less[of "take i xs"] that by simp
  have lt: "uval (take i xs) + 2 ^ (32 * i) * x < uval (take i ys) + 2 ^ (32 * i) * y"
    if "Suc i \<le> length xs" "x < y" for xs ys x y
  proof -
    have "uval (take i xs) + 2 ^ (32 * i) * x < 2 ^ (32 * i) * (x + 1)"
      using le[OF that(1)] by simp
    also have "\<dots> \<le> 2 ^ (32 * i) * y"
      using that(2) by (intro mult_le_mono2) simp
    finally show ?thesis by simp
  qed
  consider "a ! i < b ! i" | "b ! i < a ! i" | "a ! i = b ! i" by fastforce
  then show ?case
  proof cases
    case 1
    then show ?thesis
      using Suc.prems lt[of a "unat (a ! i)" "unat (b ! i)" b]
      by (simp add: uval_take_Suc word_less_nat_alt)
  next
    case 2
    then show ?thesis
      using Suc.prems lt[of b "unat (b ! i)" "unat (a ! i)" a]
      by (simp add: uval_take_Suc word_less_nat_alt)
  next
    case 3
    then show ?thesis
      using Suc by (simp add: uval_take_Suc)
  qed
qed

lemma CompareTo_value:
  assumes "wf_uint a" "wf_uint b"
  shows "CompareTo a b = (if uval a < uval b then - 1 else if uval a > uval b then 1 else 0)"
  using compare_from_value[of WIDTH a b] assms by (simp add: CompareTo_def wf_uint_def)

lemma CompareTo_ge [arith256]:
  "wf_uint a \<Longrightarrow> wf_uint b \<Longrightarrow> CompareTo a b \<ge> 0 \<longleftrightarrow> uval b \<le> uval a"
  by (simp add: CompareTo_value)

lemma CompareTo_gt [arith256]:
  "wf_uint a \<Longrightarrow> wf_uint b \<Longrightarrow> CompareTo a b > 0 \<longleftrightarrow> uval b < uval a"
  by (simp add: CompareTo_value)

lemma and_push_1_bit: "w AND push_bit n 1 \<noteq> 0 \<longleftrightarrow> bit (w :: u32) n"
  by (simp add: push_bit_eq_mult and_exp_eq_0_iff_not_bit)

lemma bit_odd_unat: "bit (w :: u32) n \<longleftrightarrow> odd (unat w div 2 ^ n)"
proof -
  have "bit w n \<longleftrightarrow> bit (unat w) n"
    by (simp add: bit_unsigned_iff)
  then show ?thesis
    by (simp only: bit_iff_odd)
qed

lemma limb_bits_Suc:
  "limb_bits (Suc n) w = (if bit w (Suc n) then Suc (Suc n) else limb_bits n w)"
  by (simp only: limb_bits.simps and_push_1_bit) simp

declare limb_bits.simps(2) [simp del]

lemma limb_bits_value:
  assumes "w \<noteq> 0" "unat w < 2 ^ Suc n"
  shows "2 ^ (limb_bits n w - 1) \<le> unat w \<and> unat w < 2 ^ limb_bits n w \<and> limb_bits n w \<le> Suc n \<and> 0 < limb_bits n w"
  using assms
proof (induction n)
  case 0
  then have "unat w = 1"
    using unat_eq_zero[of w] by auto
  then show ?case by simp
next
  case (Suc n)
  have b: "bit w (Suc n) \<longleftrightarrow> odd (unat w div 2 ^ Suc n)"
    by (rule bit_odd_unat)
  have d: "unat w div 2 ^ Suc n < 2"
    using Suc.prems by (intro less_mult_imp_div_less) simp
  show ?case
  proof (cases "bit w (Suc n)")
    case True
    then have "unat w div 2 ^ Suc n = 1"
      using b d by (auto simp only: less_2_cases_iff dest: odd_pos)
    then have "2 ^ Suc n \<le> unat w"
      by (metis div_less less_one not_less zero_neq_one)
    then show ?thesis
      using True Suc.prems by (simp add: limb_bits_Suc)
  next
    case False
    then have "unat w div 2 ^ Suc n = 0"
      using b d by (metis less_2_cases odd_one One_nat_def)
    then have "unat w < 2 ^ Suc n"
      by (simp add: div_eq_0_iff)
    then show ?thesis
      using False Suc by (auto simp: limb_bits_Suc)
  qed
qed

lemma bits_from_value:
  assumes "pos \<le> length pn"
  shows "bits_from pos pn = 0 \<and> uval (take pos pn) = 0 \<or>
    0 < bits_from pos pn \<and> 2 ^ (bits_from pos pn - 1) \<le> uval (take pos pn) \<and>
    uval (take pos pn) < 2 ^ bits_from pos pn \<and> bits_from pos pn \<le> 32 * pos"
  using assms
proof (induction pos)
  case 0
  then show ?case by simp
next
  case (Suc pos)
  show ?case
  proof (cases "pn ! pos = 0")
    case True
    then show ?thesis
      using Suc by (auto simp: uval_take_Suc)
  next
    case False
    let ?l = "limb_bits 31 (pn ! pos)"
    have l: "2 ^ (?l - 1) \<le> unat (pn ! pos)" "unat (pn ! pos) < 2 ^ ?l" "?l \<le> 32" "0 < ?l"
      using limb_bits_value[OF False, of 31] u32_less[of "pn ! pos"] by simp_all
    have t: "uval (take pos pn) < 2 ^ (32 * pos)"
      using uval_less[of "take pos pn"] Suc.prems by simp
    have v: "uval (take (Suc pos) pn) = uval (take pos pn) + 2 ^ (32 * pos) * unat (pn ! pos)"
      using Suc.prems by (simp add: uval_take_Suc)
    have "2 ^ (32 * pos) * 2 ^ (?l - 1) \<le> 2 ^ (32 * pos) * unat (pn ! pos)"
      using l(1) by (rule mult_le_mono2)
    moreover have "32 * pos + ?l - 1 = 32 * pos + (?l - 1)"
      using l(4) by simp
    ultimately have "2 ^ (32 * pos + ?l - 1) \<le> uval (take (Suc pos) pn)"
      by (simp only: v power_add trans_le_add2)
    moreover have "uval (take (Suc pos) pn) < 2 ^ (32 * pos + ?l)"
    proof -
      have "uval (take (Suc pos) pn) < 2 ^ (32 * pos) * (unat (pn ! pos) + 1)"
        using t v by simp
      also have "\<dots> \<le> 2 ^ (32 * pos) * 2 ^ ?l"
        using l(2) by (intro mult_le_mono2) simp
      finally show ?thesis by (simp add: power_add)
    qed
    ultimately show ?thesis
      using False l(3,4) by simp
  qed
qed

lemma bits_value:
  assumes "wf_uint a"
  shows "bits_uint a = 0 \<longleftrightarrow> uval a = 0" and "0 < uval a \<Longrightarrow> 2 ^ (bits_uint a - 1) \<le> uval a"
    and "uval a < 2 ^ bits_uint a" and "bits_uint a \<le> 256"
  using bits_from_value[of WIDTH a] assms
  by (auto simp: bits_uint_def wf_uint_def WIDTH_def)

lemma set_quot_bit:
  assumes "wf_uint q" "shift < 256" "uval q = 2 ^ Suc shift * t"
  shows "wf_uint (q[shift div 32 := q ! (shift div 32) OR push_bit (shift mod 32) 1])"
    and "uval (q[shift div 32 := q ! (shift div 32) OR push_bit (shift mod 32) 1]) = uval q + 2 ^ shift"
proof -
  let ?m = "shift div 32" and ?s = "shift mod 32"
  have m: "?m < length q"
    using assms(1,2) by (simp add: wf_uint_def WIDTH_def)
  show "wf_uint (q[?m := q ! ?m OR push_bit ?s 1])"
    using assms(1) by (simp add: wf_uint_def)
  have q: "uval q = uval (take ?m q) + 2 ^ (32 * ?m) * (unat (q ! ?m) + 2 ^ 32 * uval (drop (Suc ?m) q))"
  proof -
    have "uval q = uval (take ?m q @ q ! ?m # drop (Suc ?m) q)"
      by (rule arg_cong[OF id_take_nth_drop[OF m]])
    also have "\<dots> = uval (take ?m q) + 2 ^ (32 * ?m) * (unat (q ! ?m) + 2 ^ 32 * uval (drop (Suc ?m) q))"
      using m by (simp add: uval_append)
    finally show ?thesis .
  qed
  have tq: "uval (take ?m q) < 2 ^ (32 * ?m)"
    using uval_less[of "take ?m q"] m by simp
  have sh: "Suc shift = 32 * ?m + Suc ?s"
    by simp
  have "uval q div 2 ^ (32 * ?m) = 2 ^ Suc ?s * t"
    by (simp only: assms(3) sh power_add mult.assoc) simp
  moreover have "uval q div 2 ^ (32 * ?m) = unat (q ! ?m) + 2 ^ 32 * uval (drop (Suc ?m) q)"
    using tq by (subst q) simp
  ultimately have e: "unat (q ! ?m) + 2 ^ 32 * uval (drop (Suc ?m) q) = 2 ^ Suc ?s * t"
    by simp
  have "2 ^ Suc ?s dvd (2 :: nat) ^ 32"
    by (intro le_imp_power_dvd) simp
  then have "2 ^ Suc ?s dvd unat (q ! ?m)"
    using e by (metis dvd_add_left_iff dvd_mult2 dvd_triv_left)
  then have even: "\<not> bit (q ! ?m) ?s"
    by (auto simp only: bit_odd_unat power_Suc elim!: dvdE) simp
  then have "q ! ?m AND push_bit ?s 1 = 0"
    using and_push_1_bit by blast
  then have "q ! ?m OR push_bit ?s 1 = q ! ?m + push_bit ?s 1"
    by (simp only: disjunctive_add_eq_or)
  moreover have "unat (q ! ?m + push_bit ?s 1) = unat (q ! ?m) + 2 ^ ?s"
  proof -
    have "unat (push_bit ?s 1 :: u32) = 2 ^ ?s"
      using power_strict_increasing[of ?s 32 "2 :: nat"] unat_push_bit_u32[of ?s 1] by simp
    moreover have "unat (q ! ?m) + 2 ^ ?s < 2 ^ 32"
    proof -
      obtain c where c: "unat (q ! ?m) = 2 ^ Suc ?s * c"
        using \<open>2 ^ Suc ?s dvd unat (q ! ?m)\<close> by (auto elim: dvdE)
      obtain d where d: "(2 :: nat) ^ 32 = 2 ^ Suc ?s * d"
        using \<open>2 ^ Suc ?s dvd 2 ^ 32\<close> by (auto elim: dvdE)
      have "2 ^ Suc ?s * c < 2 ^ Suc ?s * d"
        using u32_less[of "q ! ?m"] by (simp only: c d)
      then have "c + 1 \<le> d" by simp
      then have "2 ^ Suc ?s * (c + 1) \<le> 2 ^ Suc ?s * d"
        by (rule mult_le_mono2)
      moreover have "(2 :: nat) ^ ?s < 2 ^ Suc ?s" by simp
      ultimately show ?thesis
        by (simp only: c d) (simp only: distrib_left)
    qed
    ultimately show ?thesis
      using unat_add_lem[of "q ! ?m" "push_bit ?s 1"] by simp
  qed
  ultimately have "uval (q[?m := q ! ?m OR push_bit ?s 1]) = uval q + 2 ^ (32 * ?m) * 2 ^ ?s"
    using uval_update[OF m, of "q ! ?m OR push_bit ?s 1"] by (simp add: algebra_simps)
  then show "uval (q[?m := q ! ?m OR push_bit ?s 1]) = uval q + 2 ^ shift"
    by (simp flip: power_add)
qed

lemma div_loop_value:
  assumes "wf_uint num" "wf_uint q" "wf_uint dv" "0 < b" "n \<le> 256"
    and "n > 0 \<Longrightarrow> uval dv = b * 2 ^ (n - 1)"
    and "uval num < b * 2 ^ n" and "uval q = 2 ^ n * t"
  shows "wf_uint (div_loop n num dv q) \<and> uval (div_loop n num dv q) = uval q + uval num div b"
  using assms
proof (induction n arbitrary: num dv q t)
  case 0
  then show ?case by simp
next
  case (Suc s)
  have dv: "uval dv = b * 2 ^ s"
    using Suc.prems(6) by simp
  have dv1: "uval (shr_uint dv 1) = b * 2 ^ (s - 1)" if "0 < s"
    using that by (cases s) (simp_all add: uval_shr[OF Suc.prems(3)] dv)
  have wd: "wf_uint (shr_uint dv 1)"
    using Suc.prems(3) by (rule uval_shr)
  show ?case
  proof (cases "uval dv \<le> uval num")
    case True
    let ?q = "q[s div 32 := q ! (s div 32) OR push_bit (s mod 32) 1]"
    let ?num = "sub_uint num dv"
    have num: "uval ?num = uval num - b * 2 ^ s"
      using uval_sub_le[OF Suc.prems(1,3) True] dv by simp
    have q: "wf_uint ?q" "uval ?q = uval q + 2 ^ s"
      using set_quot_bit[OF Suc.prems(2) _ Suc.prems(8)] Suc.prems(5) by simp_all
    have "uval ?q = 2 ^ s * (2 * t + 1)"
      using q(2) Suc.prems(8) by simp
    moreover have "uval ?num < b * 2 ^ s"
      using num Suc.prems(7) by simp
    ultimately have "wf_uint (div_loop s ?num (shr_uint dv 1) ?q)
        \<and> uval (div_loop s ?num (shr_uint dv 1) ?q) = uval ?q + uval ?num div b"
      using Suc.IH[of ?num ?q "shr_uint dv 1" "2 * t + 1"] Suc.prems q wd dv1 by simp
    moreover have "2 ^ s + uval ?num div b = uval num div b"
    proof -
      have "uval num = b * 2 ^ s + uval ?num"
        using num True dv by simp
      then show ?thesis
        using Suc.prems(4) by simp
    qed
    ultimately show ?thesis
      using True q Suc.prems(1,3) by (simp add: CompareTo_ge)
  next
    case False
    have "uval q = 2 ^ s * (2 * t)"
      using Suc.prems(8) by simp
    then show ?thesis
      using False Suc.IH[of num q "shr_uint dv 1" "2 * t"] Suc.prems wd dv1 dv
      by (simp add: CompareTo_ge)
  qed
qed

lemma div_uint_value:
  assumes "wf_uint a" "wf_uint b" "uval b \<noteq> 0"
  shows "\<exists>q. div_uint a b = Inr q \<and> wf_uint q \<and> uval q = uval a div uval b"
proof (cases "bits_uint b > bits_uint a")
  case True
  have "uval a < 2 ^ bits_uint a"
    by (rule bits_value[OF assms(1)])
  also have "\<dots> \<le> 2 ^ (bits_uint b - 1)"
    using True by (intro power_increasing) simp_all
  also have "\<dots> \<le> uval b"
    using bits_value[OF assms(2)] assms(3) by simp
  finally show ?thesis
    using True bits_value[OF assms(2)] assms(3) by (simp add: div_uint_def Let_def)
next
  case False
  let ?s = "bits_uint a - bits_uint b"
  have bb: "bits_uint b \<noteq> 0"
    using bits_value[OF assms(2)] assms(3) by simp
  have "uval b * 2 ^ ?s < 2 ^ bits_uint b * 2 ^ ?s"
    using bits_value(3)[OF assms(2)] by simp
  also have "\<dots> = 2 ^ bits_uint a"
    using False by (simp flip: power_add)
  also have "\<dots> \<le> 2 ^ 256"
    using bits_value(4)[OF assms(1)] by (intro power_increasing) simp_all
  finally have sh: "uval (shl_uint b ?s) = uval b * 2 ^ ?s"
    by (simp only: uval_shl[OF assms(2)] mod_less)
  have "uval a < 2 ^ (bits_uint b - 1) * 2 ^ Suc ?s"
    using bits_value(3)[OF assms(1)] False bb by (simp flip: power_add power_Suc)
  also have "\<dots> \<le> uval b * 2 ^ Suc ?s"
    using bits_value[OF assms(2)] assms(3) by (intro mult_le_mono1) simp
  finally have "uval a < uval b * 2 ^ Suc ?s" .
  moreover have "Suc ?s \<le> 256"
    using bits_value(4)[OF assms(1)] bb False by simp
  ultimately have "wf_uint (div_loop (Suc ?s) a (shl_uint b ?s) zero_uint)
      \<and> uval (div_loop (Suc ?s) a (shl_uint b ?s) zero_uint) = uval a div uval b"
    using div_loop_value[OF assms(1) wf_zero uval_shl(2)[OF assms(2)], of "uval b" "Suc ?s" ?s 0]
      sh assms(3) by simp
  then show ?thesis
    using False bb by (simp add: div_uint_def Let_def)
qed

lemma div_uint_by_zero: "wf_uint b \<Longrightarrow> uval b = 0 \<Longrightarrow> div_uint a b = Inl (Throw ''Division by zero'')"
  using bits_value(1)[of b] by (simp add: div_uint_def)

lemma unat_ucast_low: "unat (ucast (b :: u64) :: u32) = unat b mod 2 ^ 32"
  by (simp add: unsigned_ucast_eq) (simp add: take_bit_eq_mod)

lemma wf_of_u64 [simp]: "wf_uint (uint_of_u64 b)"
  by (simp add: wf_uint_def uint_of_u64_def WIDTH_def)

lemma uval_of_u64 [arith256]: "uval (uint_of_u64 b) = unat b"
proof -
  have "unat b div 2 ^ 32 < 2 ^ 32"
    using unsigned_less[of b] by (intro less_mult_imp_div_less) simp
  then have "unat (ucast (drop_bit 32 b) :: u32) = unat b div 2 ^ 32"
    by (simp only: unat_ucast_low unat_drop_bit_div mod_less)
  then show ?thesis
    using unat_ucast_low[of b] by (simp add: uint_of_u64_def uval_append)
qed

lemma uval_0_iff: "uval a = 0 \<longleftrightarrow> list_all (\<lambda>w. w = 0) a"
  by (induction a) (auto simp: unat_eq_zero)

section \<open>The compact form\<close>

lemma and_mask23: "x AND 0x007fffff = take_bit 23 (x :: u32)"
  by (simp add: take_bit_eq_mask mask_eq_exp_minus_1)

lemma unat_and_mask23: "unat (x AND 0x007fffff :: u32) = unat x mod 2 ^ 23"
  unfolding and_mask23 unsigned_take_bit_eq by (simp add: take_bit_eq_mod)

lemma and_sign_bit: "x AND 0x00800000 \<noteq> 0 \<longleftrightarrow> odd (unat (x :: u32) div 2 ^ 23)"
proof -
  have "x AND 0x00800000 = x AND push_bit 23 1"
    by (simp add: push_bit_eq_mult)
  then show ?thesis
    by (metis and_push_1_bit bit_odd_unat)
qed

lemma and_not_mask23: "x AND NOT 0x007fffff = 0 \<longleftrightarrow> unat (x :: u32) < 2 ^ 23"
proof -
  have "x AND NOT 0x007fffff = 0 \<longleftrightarrow> x AND NOT (mask 23) = 0"
    by (simp add: mask_eq_exp_minus_1)
  also have "\<dots> \<longleftrightarrow> take_bit 23 x = x"
    by (auto simp: bit_eq_iff bit_simps)
  also have "\<dots> \<longleftrightarrow> unat x < 2 ^ 23"
    by (simp add: word_unat_eq_iff unsigned_take_bit_eq take_bit_nat_eq_self_iff)
  finally show ?thesis .
qed

text \<open>The value a compact word denotes, the exponent and the mantissa read as numbers.\<close>

definition compact_value :: "nat \<Rightarrow> nat \<Rightarrow> nat" where
  "compact_value sz m = (if sz \<le> 3 then m div 256 ^ (3 - sz) else m * 256 ^ (sz - 3))"

lemma pow256: "(256 :: nat) ^ k = 2 ^ (8 * k)"
  by (simp add: power_mult)

lemma SetCompact_fst:
  fixes c :: u32
  defines "sz \<equiv> unat c div 2 ^ 24" and "m \<equiv> unat c mod 2 ^ 23"
  shows "wf_uint (fst (SetCompact c))"
    and "uval (fst (SetCompact c)) = compact_value sz m mod 2 ^ 256"
proof -
  have szv: "unat (drop_bit 24 c) = sz"
    unfolding sz_def by (rule unat_drop_bit_div)
  have m: "unat (c AND 0x007fffff) = m"
    unfolding m_def by (rule unat_and_mask23)
  have small: "m div k < 2 ^ 256" for k
  proof -
    have "m < 2 ^ 23" unfolding m_def by (rule mod_less_divisor) simp
    then have "m div k < 2 ^ 23" by (rule le_less_trans[OF div_le_dividend])
    then show ?thesis by simp
  qed
  show "wf_uint (fst (SetCompact c))"
    by (simp add: SetCompact_def Let_def uval_shl)
  show "uval (fst (SetCompact c)) = compact_value sz m mod 2 ^ 256"
  proof (cases "sz \<le> 3")
    case True
    have "uval (fst (SetCompact c)) = unat (drop_bit (8 * (3 - sz)) (c AND 0x007fffff))"
      using True by (simp add: SetCompact_def Let_def szv uval_of_u64)
    also have "\<dots> = m div 256 ^ (3 - sz)"
      by (simp only: unat_drop_bit_div m pow256)
    finally show ?thesis
      using True small[of "256 ^ (3 - sz)"] by (simp only: compact_value_def if_True mod_less)
  next
    case False
    have "uval (fst (SetCompact c)) = (m * 2 ^ (8 * (sz - 3))) mod 2 ^ 256"
      using False m by (simp add: SetCompact_def Let_def szv uval_of_u64 uval_shl)
    then show ?thesis
      using False by (simp only: compact_value_def if_False pow256)
  qed
qed

lemma SetCompact_negative:
  "fst (snd (SetCompact c)) \<longleftrightarrow> (let sz = unat c div 2 ^ 24; m = unat c mod 2 ^ 23 in
     (if sz \<le> 3 then m div 256 ^ (3 - sz) else m) \<noteq> 0 \<and> odd (unat c div 2 ^ 23))"
proof -
  have "drop_bit k (c AND 0x007fffff) \<noteq> 0 \<longleftrightarrow> unat c mod 2 ^ 23 div 2 ^ k \<noteq> 0" for k
    by (metis unat_and_mask23 unat_drop_bit_div unat_eq_zero)
  moreover have "c AND 0x007fffff \<noteq> 0 \<longleftrightarrow> unat c mod 2 ^ 23 \<noteq> 0"
    by (metis unat_and_mask23 unat_eq_zero)
  ultimately show ?thesis
    by (simp only: SetCompact_def Let_def and_sign_bit unat_drop_bit_div[of 24] pow256 fst_conv snd_conv
      split: if_splits) simp
qed

lemma compact_not_overflow:
  assumes "unat c div 2 ^ 24 \<le> 33" "unat c div 2 ^ 24 = 33 \<Longrightarrow> unat c mod 2 ^ 23 < 2 ^ 16"
  shows "\<not> snd (snd (SetCompact c))"
proof -
  have "c AND 0x007fffff \<le> 0xffff" if "unat c mod 2 ^ 23 < 2 ^ 16"
    using that unat_and_mask23[of c] by (simp add: word_le_nat_alt)
  then show ?thesis
    using assms by (simp only: SetCompact_def Let_def unat_drop_bit_div[of 24] snd_conv) auto
qed

lemma bits_unique:
  assumes "wf_uint a" "2 ^ k \<le> uval a" "uval a < 2 ^ Suc k"
  shows "bits_uint a = Suc k"
proof -
  have pos: "0 < uval a"
    using assms(2) by (metis gr0I le_zero_eq power_not_zero zero_neq_numeral)
  have "2 ^ (bits_uint a - 1) < (2 :: nat) ^ Suc k"
    using bits_value(2)[OF assms(1) pos] assms(3) by simp
  then have "bits_uint a - 1 < Suc k"
    by (rule power_less_imp_less_exp[rotated]) simp
  moreover have "(2 :: nat) ^ k < 2 ^ bits_uint a"
    using assms(2) bits_value(3)[OF assms(1)] by (rule le_less_trans)
  then have "k < bits_uint a"
    by (rule power_less_imp_less_exp[rotated]) simp
  ultimately show ?thesis by simp
qed

text \<open>The bytes and the mantissa \<^verbatim>\<open>GetCompact\<close> computes before it moves the sign bit out.\<close>

definition raw_size :: "base_uint \<Rightarrow> nat" where
  "raw_size a = (bits_uint a + 7) div 8"

definition raw_mant :: "base_uint \<Rightarrow> nat" where
  "raw_mant a = (if raw_size a \<le> 3 then uval a * 256 ^ (3 - raw_size a)
                 else uval a div 256 ^ (raw_size a - 3))"

lemma uval_less_size: "wf_uint a \<Longrightarrow> uval a < 2 ^ (8 * raw_size a)"
proof -
  assume wf: "wf_uint a"
  have "bits_uint a \<le> 8 * raw_size a"
    by (simp add: raw_size_def)
  then have "(2 :: nat) ^ bits_uint a \<le> 2 ^ (8 * raw_size a)"
    by (intro power_increasing) simp_all
  then show "uval a < 2 ^ (8 * raw_size a)"
    using bits_value(3)[OF wf] by (rule less_le_trans[rotated])
qed

lemma raw_size_le: "wf_uint a \<Longrightarrow> raw_size a \<le> 32"
  using bits_value(4)[of a] by (simp add: raw_size_def)

lemma raw_mant_less:
  assumes "wf_uint a"
  shows "raw_mant a < 2 ^ 24"
proof (cases "raw_size a \<le> 3")
  case True
  have "uval a * 2 ^ (8 * (3 - raw_size a)) < 2 ^ (8 * raw_size a) * 2 ^ (8 * (3 - raw_size a))"
    using uval_less_size[OF assms] by simp
  also have "\<dots> = 2 ^ 24"
    using True by (simp flip: power_add distrib_left)
  finally show ?thesis
    using True by (simp only: raw_mant_def pow256 if_True)
next
  case False
  have "uval a < 2 ^ 24 * 2 ^ (8 * (raw_size a - 3))"
    using uval_less_size[OF assms] False by (simp only: flip: power_add) (simp add: diff_mult_distrib2)
  then show ?thesis
    using False by (simp only: raw_mant_def pow256 if_False less_mult_imp_div_less)
qed

lemma GetLow64_value: "wf_uint a \<Longrightarrow> unat (GetLow64 a) = uval a mod 2 ^ 64"
proof -
  assume "wf_uint a"
  then obtain x y r where a: "a = x # y # r"
    by (auto simp: wf_uint_def WIDTH_def length_Suc_conv numeral_eq_Suc)
  have "unat (ucast x :: u64) < 2 ^ 32"
    using u32_less[of x] by simp
  then have "GetLow64 a = push_bit 32 (ucast y) + ucast x"
    using or_eq_add_disjoint[of "ucast x :: u64" 32 "ucast y"] by (simp add: GetLow64_def a or.commute)
  moreover have "unat (push_bit 32 (ucast y) :: u64) = 2 ^ 32 * unat y"
  proof -
    have "2 ^ 32 * unat y < 2 ^ 64"
      using u32_less[of y] by simp
    then show ?thesis
      by (simp add: unsigned_push_bit_eq push_bit_eq_mult take_bit_eq_mod unat_word_ariths)
  qed
  moreover have "2 ^ 32 * unat y + unat x < 2 ^ 64"
    using u32_less[of x] u32_less[of y] by simp
  ultimately have "unat (GetLow64 a) = 2 ^ 32 * unat y + unat x"
    using unat_add_lem[of "push_bit 32 (ucast y) :: u64" "ucast x"] by simp
  moreover have "uval a = (2 ^ 32 * unat y + unat x) + 2 ^ 64 * uval r"
    by (simp add: a)
  ultimately show ?thesis
    using \<open>2 ^ 32 * unat y + unat x < 2 ^ 64\<close> by (simp only: mod_mult_self2 mod_less)
qed

lemma unat_compact_word0:
  assumes "wf_uint a"
  shows "unat (compact_word0 a (raw_size a)) = raw_mant a"
proof (cases "raw_size a \<le> 3")
  case True
  let ?k = "8 * (3 - raw_size a)"
  have "uval a < 2 ^ 24"
    using uval_less_size[OF assms(1)] True power_increasing[of "8 * raw_size a" 24 "2 :: nat"] by simp
  then have low: "unat (GetLow64 a) = uval a"
    using GetLow64_value[OF assms(1)] by simp
  have lt: "uval a * 2 ^ ?k < 2 ^ 24"
    using raw_mant_less[OF assms(1)] True by (simp only: raw_mant_def pow256 if_True)
  have "unat (push_bit ?k (GetLow64 a)) = (uval a * 2 ^ ?k) mod 2 ^ 64"
    by (simp only: unsigned_push_bit_eq low) (simp add: push_bit_eq_mult take_bit_eq_mod)
  then have "unat (push_bit ?k (GetLow64 a)) = uval a * 2 ^ ?k"
    using lt by simp
  then show ?thesis
    using True lt unat_ucast_low[of "push_bit ?k (GetLow64 a)"]
    by (simp add: compact_word0_def raw_mant_def pow256)
next
  case False
  let ?k = "8 * (raw_size a - 3)"
  have v: "uval (shr_uint a ?k) = raw_mant a"
    using uval_shr[OF assms(1)] False by (simp only: raw_mant_def pow256 if_False)
  then have "unat (GetLow64 (shr_uint a ?k)) = raw_mant a"
    using GetLow64_value[OF uval_shr(2)[OF assms(1)], of ?k] raw_mant_less[OF assms(1)] by simp
  then show ?thesis
    using False raw_mant_less[OF assms(1)] unat_ucast_low[of "GetLow64 (shr_uint a ?k)"]
    by (simp add: compact_word0_def)
qed

definition mant :: "base_uint \<Rightarrow> nat" where
  "mant a = (if raw_mant a < 2 ^ 23 then raw_mant a else raw_mant a div 256)"

definition expo :: "base_uint \<Rightarrow> nat" where
  "expo a = (if raw_mant a < 2 ^ 23 then raw_size a else raw_size a + 1)"

lemma mant_less: "wf_uint a \<Longrightarrow> mant a < 2 ^ 23"
  using raw_mant_less[of a] by (auto simp: mant_def)

lemma expo_le: "wf_uint a \<Longrightarrow> expo a \<le> 33"
  using raw_size_le[of a] by (simp add: expo_def)

lemma unat_or_exponent:
  fixes x :: u32
  assumes "unat x < 2 ^ 24" "e < 256"
  shows "unat (x OR push_bit 24 (of_nat e)) = unat x + 2 ^ 24 * e"
proof -
  have "unat (of_nat e :: u32) = e"
    using assms(2) by (simp add: unat_of_nat)
  then show ?thesis
    using unat_or_push[OF assms(1), of "of_nat e"] assms(2) by simp
qed

lemma odd_top_bit:
  assumes "x < 2 ^ 24"
  shows "odd (x div 2 ^ 23) \<longleftrightarrow> \<not> x < (2 ^ 23 :: nat)"
proof (cases "x < 2 ^ 23")
  case False
  then have "x div 2 ^ 23 = 1"
    using assms by (intro div_nat_eqI) simp_all
  then show ?thesis
    using False by (simp only: odd_one)
qed (simp only: div_less, simp)

lemma GetCompact_value:
  assumes "wf_uint a"
  shows "\<exists>c. GetCompact a False = Inr c \<and> unat c = mant a + 2 ^ 24 * expo a"
proof -
  define c0 where "c0 = compact_word0 a (raw_size a)"
  have u: "unat c0 = raw_mant a"
    unfolding c0_def by (rule unat_compact_word0[OF assms])
  have b: "c0 AND 0x00800000 \<noteq> 0 \<longleftrightarrow> \<not> raw_mant a < 2 ^ 23"
    using odd_top_bit[OF raw_mant_less[OF assms]] by (simp only: and_sign_bit u)
  define c1 where "c1 = (if c0 AND 0x00800000 \<noteq> 0 then drop_bit 8 c0 else c0)"
  have c1: "unat c1 = mant a"
    using b by (simp add: c1_def mant_def u unat_drop_bit_div[of 8])
  have pair: "(if c0 AND 0x00800000 \<noteq> 0 then (drop_bit 8 c0, raw_size a + 1) else (c0, raw_size a))
      = (c1, expo a)"
    using b by (simp add: c1_def expo_def)
  have as: "c1 AND NOT 0x007fffff = 0" "expo a < 256"
    using mant_less[OF assms] expo_le[OF assms] by (simp_all only: and_not_mask23 c1)
  have "GetCompact a False = Inr (c1 OR push_bit 24 (of_nat (expo a)))"
    unfolding GetCompact_def Let_def
    by (simp only: pair as prod.case assert_out_True simp_thms if_False or.right_neutral
      flip: raw_size_def c0_def)
  moreover have "unat (c1 OR push_bit 24 (of_nat (expo a))) = mant a + 2 ^ 24 * expo a"
    using unat_or_exponent[of c1 "expo a"] mant_less[OF assms] expo_le[OF assms] c1 by simp
  ultimately show ?thesis by blast
qed

text \<open>The significant part of a number that its compact form keeps.\<close>

definition trunc_compact :: "base_uint \<Rightarrow> nat" where
  "trunc_compact a = (if expo a \<le> 3 then uval a
     else uval a div 256 ^ (expo a - 3) * 256 ^ (expo a - 3))"

lemma compact_value_mant:
  assumes "wf_uint a"
  shows "compact_value (expo a) (mant a) = trunc_compact a"
proof (cases "raw_mant a < 2 ^ 23")
  case True
  then show ?thesis
    by (auto simp: compact_value_def trunc_compact_def expo_def mant_def raw_mant_def)
next
  case False
  consider (small) "raw_size a < 3" | (three) "raw_size a = 3" | (big) "3 < raw_size a" by linarith
  then show ?thesis
  proof cases
    case small
    then have "256 ^ (3 - raw_size a) = 256 * (256 :: nat) ^ (2 - raw_size a)"
      by (simp flip: power_Suc add: Suc_diff_le numeral_3_eq_3 numeral_2_eq_2)
    then show ?thesis
      using small False by (simp add: compact_value_def trunc_compact_def expo_def mant_def raw_mant_def)
  next
    case three
    then show ?thesis
      using False by (simp add: compact_value_def trunc_compact_def expo_def mant_def raw_mant_def)
  next
    case big
    then have e: "raw_size a + 1 - 3 = Suc (raw_size a - 3)"
      by simp
    have "256 ^ (raw_size a + 1 - 3) = 256 ^ (raw_size a - 3) * (256 :: nat)"
      by (simp only: e power_Suc2)
    then show ?thesis
      using big False
      by (simp add: compact_value_def trunc_compact_def expo_def mant_def raw_mant_def div_mult2_eq)
  qed
qed

lemma trunc_le: "trunc_compact a \<le> uval a"
  by (simp add: trunc_compact_def)

lemma compact_roundtrip:
  assumes "wf_uint a" "GetCompact a False = Inr c"
  shows "wf_uint (fst (SetCompact c))" and "uval (fst (SetCompact c)) = trunc_compact a"
    and "snd (SetCompact c) = (False, False)"
proof -
  have u: "unat c = mant a + 2 ^ 24 * expo a"
    using GetCompact_value[OF assms(1)] assms(2) by auto
  have m: "mant a < 2 ^ 23" by (rule mant_less[OF assms(1)])
  have d: "unat c div 2 ^ 24 = expo a" and md: "unat c mod 2 ^ 23 = mant a"
    and od: "even (unat c div 2 ^ 23)"
  proof -
    show "unat c div 2 ^ 24 = expo a" using m by (simp add: u)
    have "unat c = mant a + 2 ^ 23 * (2 * expo a)" by (simp add: u)
    then show "unat c mod 2 ^ 23 = mant a" "even (unat c div 2 ^ 23)"
      using m by (simp_all only: mod_mult_self2 mod_less div_mult_self2) simp_all
  qed
  show "wf_uint (fst (SetCompact c))"
    by (rule SetCompact_fst)
  have "trunc_compact a < 2 ^ 256"
    using trunc_le[of a] uval_wf_less[OF assms(1)] by (rule le_less_trans)
  then show "uval (fst (SetCompact c)) = trunc_compact a"
    using SetCompact_fst(2)[of c] by (simp only: d md compact_value_mant[OF assms(1)] mod_less)
  have "mant a < 2 ^ 16" if "expo a = 33"
    using that raw_size_le[OF assms(1)] raw_mant_less[OF assms(1)]
    by (auto simp: expo_def mant_def split: if_splits)
  then have "\<not> snd (snd (SetCompact c))"
    using compact_not_overflow[of c] expo_le[OF assms(1)] by (simp only: d md) blast
  moreover have "\<not> fst (snd (SetCompact c))"
    using od by (simp only: SetCompact_negative Let_def) simp
  ultimately show "snd (SetCompact c) = (False, False)"
    by (cases "snd (SetCompact c)") simp
qed

lemma mant_large:
  assumes "wf_uint a" "3 < expo a"
  shows "2 ^ 15 \<le> uval a div 256 ^ (expo a - 3)"
proof (cases "raw_mant a < 2 ^ 23")
  case True
  then have sz: "expo a = raw_size a" "3 < raw_size a"
    using assms(2) by (simp_all add: expo_def)
  then have b: "8 * (raw_size a - 1) \<le> bits_uint a - 1" "bits_uint a \<noteq> 0"
    by (auto simp: raw_size_def)
  then have "2 ^ (8 * (raw_size a - 1)) \<le> uval a"
    using order_trans[OF power_increasing[OF b(1), of "2 :: nat"] bits_value(2)[OF assms(1)]]
      bits_value(1)[OF assms(1)] b(2) by simp
  moreover have "8 * (raw_size a - 1) = 16 + 8 * (raw_size a - 3)"
    using sz by simp
  ultimately have "2 ^ 16 * 256 ^ (raw_size a - 3) \<le> uval a"
    by (simp only: power_add pow256)
  then have "2 ^ 16 \<le> uval a div 256 ^ (raw_size a - 3)"
    by (simp add: less_eq_div_iff_mult_less_eq)
  then show ?thesis
    using sz by simp
next
  case False
  then have e: "expo a - 3 = raw_size a - 3 + 1" "3 \<le> raw_size a"
    using assms(2) by (auto simp: expo_def)
  have "uval a div 256 ^ (raw_size a - 3) = raw_mant a"
    using e(2) by (auto simp: raw_mant_def)
  then have "uval a div 256 ^ (expo a - 3) = raw_mant a div 256"
    by (simp only: e(1) power_add div_mult2_eq power_one_right)
  moreover have "2 ^ 23 div 256 \<le> raw_mant a div 256"
    using False by (intro div_le_mono) simp
  ultimately show ?thesis by simp
qed

lemma uval_inj: "length a = length b \<Longrightarrow> uval a = uval b \<Longrightarrow> a = b"
proof (induction a b rule: list_induct2)
  case Nil
  then show ?case by simp
next
  case (Cons x xs y ys)
  have "unat x = (unat x + 2 ^ 32 * uval xs) mod 2 ^ 32"
    using u32_less[of x] by (simp only: mod_mult_self2 mod_less)
  also have "\<dots> = (unat y + 2 ^ 32 * uval ys) mod 2 ^ 32"
    using Cons.prems by simp
  also have "\<dots> = unat y"
    using u32_less[of y] by (simp only: mod_mult_self2 mod_less)
  finally have "x = y" by (simp add: word_unat_eq_iff)
  then show ?case using Cons by simp
qed

lemma floor_mult_le:
  fixes a b :: nat
  assumes "b dvd m" "m \<le> a" "0 < b"
  shows "m \<le> a div b * b"
proof -
  obtain t where t: "m = b * t" using assms(1) by (auto elim: dvdE)
  then have "t \<le> a div b"
    using assms by (simp add: less_eq_div_iff_mult_less_eq mult.commute)
  then show ?thesis by (simp add: t mult.commute)
qed

lemma trunc_same_shape:
  assumes "wf_uint a" "wf_uint r" "uval r = trunc_compact a" "3 < expo a"
  shows "raw_size r = raw_size a" and "raw_mant r = (if raw_mant a < 2 ^ 23 then raw_mant a else raw_mant a div 256 * 256)"
proof -
  let ?B = "256 ^ (expo a - 3) :: nat"
  have v: "uval r = uval a div ?B * ?B"
    using assms(3,4) by (simp add: trunc_compact_def)
  have es: "3 \<le> raw_size a" "expo a - 3 \<le> raw_size a - 2" "expo a \<le> raw_size a + 1"
    using assms(4) by (auto simp: expo_def split: if_splits)
  have b: "8 * (raw_size a - 1) \<le> bits_uint a - 1" "0 < bits_uint a"
    using es(1) by (auto simp: raw_size_def)
  obtain n where n: "bits_uint a = Suc n"
    using b(2) by (cases "bits_uint a") auto
  have "2 ^ n \<le> uval a" "uval a < 2 ^ Suc n"
    using bits_value[OF assms(1)] n by auto
  moreover have "?B dvd 2 ^ n"
    unfolding pow256 using b(1) es n by (intro le_imp_power_dvd) simp
  ultimately have "2 ^ n \<le> uval r" "uval r < 2 ^ Suc n"
    using floor_mult_le[of ?B "2 ^ n" "uval a"] v div_times_less_eq_dividend[of "uval a" ?B]
    by (simp_all only: v) simp_all
  then have "bits_uint r = bits_uint a"
    using bits_unique[OF assms(2)] n by simp
  then show sz: "raw_size r = raw_size a"
    by (simp add: raw_size_def)
  have ma: "raw_mant a = uval a div 256 ^ (raw_size a - 3)"
    and mr: "raw_mant r = uval r div 256 ^ (raw_size a - 3)"
    using es(1) sz by (auto simp: raw_mant_def)
  show "raw_mant r = (if raw_mant a < 2 ^ 23 then raw_mant a else raw_mant a div 256 * 256)"
  proof (cases "raw_mant a < 2 ^ 23")
    case True
    then show ?thesis
      by (simp add: ma mr v expo_def)
  next
    case False
    then have e: "expo a - 3 = Suc (raw_size a - 3)"
      using es(1) by (simp add: expo_def)
    have "?B = 256 ^ (raw_size a - 3) * 256"
      by (simp only: e power_Suc2)
    then have "uval r = (raw_mant a div 256 * 256) * 256 ^ (raw_size a - 3)"
      by (simp add: v ma div_mult2_eq)
    then show ?thesis
      using False by (simp only: mr) simp
  qed
qed

lemma trunc_idem:
  assumes "wf_uint a" "wf_uint r" "uval r = trunc_compact a"
  shows "GetCompact r False = GetCompact a False"
proof (cases "3 < expo a")
  case False
  then have "r = a"
    using assms by (intro uval_inj) (simp_all add: wf_uint_def trunc_compact_def)
  then show ?thesis by simp
next
  case True
  note sh = trunc_same_shape[OF assms True]
  have "mant r = mant a \<and> expo r = expo a"
  proof (cases "raw_mant a < 2 ^ 23")
    case True
    then show ?thesis using sh by (simp add: mant_def expo_def)
  next
    case False
    then have "2 ^ 23 \<le> raw_mant a div 256 * 256"
      using floor_mult_le[of 256 "2 ^ 23" "raw_mant a"] by simp
    then show ?thesis using sh False by (simp add: mant_def expo_def)
  qed
  then show ?thesis
    using GetCompact_value[OF assms(1)] GetCompact_value[OF assms(2)]
    by (metis word_unat_eq_iff)
qed

lemma trunc_error:
  assumes "wf_uint a"
  shows "(uval a - trunc_compact a) * 2 ^ 15 \<le> uval a"
proof (cases "3 < expo a")
  case False
  then show ?thesis by (simp add: trunc_compact_def)
next
  case True
  let ?B = "256 ^ (expo a - 3) :: nat"
  have "uval a - trunc_compact a = uval a mod ?B"
    using True by (simp add: trunc_compact_def minus_div_mult_eq_mod)
  also have "\<dots> \<le> ?B" by simp
  finally have "(uval a - trunc_compact a) * 2 ^ 15 \<le> ?B * 2 ^ 15"
    by (rule mult_le_mono1)
  also have "\<dots> \<le> ?B * (uval a div ?B)"
    using mant_large[OF assms True] by (rule mult_le_mono2)
  also have "\<dots> \<le> uval a"
    by simp
  finally show ?thesis .
qed

section \<open>Properties\<close>

text \<open>
  C11. On well-formed limb arrays the operators \<open>+\<close>, \<open>-\<close>, \<open>*\<close>, \<open><<\<close>, \<open>>>\<close>, \<open>~\<close> and \<open>CompareTo\<close> of
  \<^verbatim>\<open>base_uint\<close> are addition, subtraction, multiplication, scaling by a power of two, the distance to
  \<open>2 ^ 256 - 1\<close> and comparison of natural numbers, modulo \<open>2 ^ 256\<close>.
\<close>

theorem base_uint_ops_refine_nat:
  assumes "wf_uint a" and "wf_uint b"
  shows "uval (add_uint a b) = (uval a + uval b) mod 2 ^ 256 \<and>
    uval (sub_uint a b) = (uval a + (2 ^ 256 - uval b)) mod 2 ^ 256 \<and>
    uval (mul_uint a b) = (uval a * uval b) mod 2 ^ 256 \<and>
    uval (mul32_uint a w) = (uval a * unat w) mod 2 ^ 256 \<and>
    uval (shl_uint a n) = (uval a * 2 ^ n) mod 2 ^ 256 \<and>
    uval (shr_uint a n) = uval a div 2 ^ n \<and>
    uval (not_uint a) = 2 ^ 256 - 1 - uval a \<and>
    CompareTo a b = (if uval a < uval b then - 1 else if uval a > uval b then 1 else 0)"
  using assms by (simp only: arith256 uval_mul32 CompareTo_value simp_thms)

theorem base_uint_ops_refine_nat_witness:
  "uval (mul_uint [0xffffffff, 7, 0, 0, 0, 0, 0, 1] [5, 0, 0, 0x80000000, 0, 0, 0, 9])
     = (uval [0xffffffff, 7, 0, 0, 0, 0, 0, 1] * uval [5, 0, 0, 0x80000000, 0, 0, 0, 9]) mod 2 ^ 256"
  using base_uint_ops_refine_nat[of "[0xffffffff, 7, 0, 0, 0, 0, 0, 1]" "[5, 0, 0, 0x80000000, 0, 0, 0, 9]"]
  by (simp only: wf_uint_def WIDTH_def list.size)

text \<open>
  C13. \<^verbatim>\<open>operator/=\<close> terminates with the floor quotient for a non-zero divisor and throws
  \<open>Division by zero\<close> exactly for a zero divisor.
\<close>

theorem div_uint_floor_or_throw:
  assumes "wf_uint a" and "wf_uint b"
  shows "if uval b = 0 then div_uint a b = Inl (Throw ''Division by zero'')
    else \<exists>q. div_uint a b = Inr q \<and> wf_uint q \<and> uval q = uval a div uval b"
  using div_uint_value[OF assms] div_uint_by_zero[OF assms(2)] by simp

theorem div_uint_floor_or_throw_witness:
  "\<exists>q. div_uint [7, 9, 0, 0, 0, 0, 0, 0] [3, 1, 0, 0, 0, 0, 0, 0] = Inr q \<and> wf_uint q \<and>
     uval q = uval [7, 9, 0, 0, 0, 0, 0, 0] div uval [3, 1, 0, 0, 0, 0, 0, 0]"
proof -
  have w: "wf_uint [7, 9, 0, 0, 0, 0, 0, 0]" "wf_uint [3, 1, 0, 0, 0, 0, 0, 0]"
    by (simp_all add: wf_uint_def WIDTH_def)
  moreover have "uval [3, 1, 0, 0, 0, 0, 0, 0] \<noteq> 0"
    by simp
  ultimately show ?thesis
    using div_uint_floor_or_throw[OF w] by (simp only: if_False)
qed

text \<open>
  C14. Compact encoding: \<^verbatim>\<open>GetCompact\<close> never trips its assertions; decoding its result gives a
  number that is not negative, does not overflow, is at most the original and differs from it by at
  most one part in \<open>2 ^ 15\<close>; and encoding that number again gives the same word.
\<close>

theorem compact_encoding_sound:
  assumes "wf_uint a"
  shows "\<exists>c r. GetCompact a False = Inr c \<and> SetCompact c = (r, False, False) \<and> wf_uint r \<and>
    uval r \<le> uval a \<and> (uval a - uval r) * 2 ^ 15 \<le> uval a \<and> GetCompact r False = Inr c"
proof -
  obtain c where c: "GetCompact a False = Inr c"
    using GetCompact_value[OF assms] by blast
  note rt = compact_roundtrip[OF assms c]
  have "SetCompact c = (fst (SetCompact c), False, False)"
    using rt(3) by (cases "SetCompact c") simp
  then show ?thesis
    using c rt trunc_le[of a] trunc_error[OF assms] trunc_idem[OF assms rt(1,2)] by auto
qed

theorem compact_encoding_sound_witness:
  "GetCompact [0x12345678, 0x9abcdef0, 1, 0, 0, 0, 0, 0] False = Inr 0x09019abc \<and>
   (\<exists>c r. GetCompact [0x12345678, 0x9abcdef0, 1, 0, 0, 0, 0, 0] False = Inr c \<and>
      SetCompact c = (r, False, False) \<and> wf_uint r \<and> GetCompact r False = Inr c)"
proof -
  have "wf_uint [0x12345678, 0x9abcdef0, 1, 0, 0, 0, 0, 0]"
    by (simp add: wf_uint_def WIDTH_def)
  then have "\<exists>c r. GetCompact [0x12345678, 0x9abcdef0, 1, 0, 0, 0, 0, 0] False = Inr c \<and>
      SetCompact c = (r, False, False) \<and> wf_uint r \<and> GetCompact r False = Inr c"
    using compact_encoding_sound by blast
  moreover have "GetCompact [0x12345678, 0x9abcdef0, 1, 0, 0, 0, 0, 0] False = Inr 0x09019abc"
    by code_simp
  ultimately show ?thesis by blast
qed

end
