(* ===== verification/Chain.thy ===== *)
theory Chain
  imports Arith256
begin

unbundle bit_operations_syntax

text \<open>
  The block index (src/src/chain.h, chain.cpp). Objects of class \<^verbatim>\<open>CBlockIndex\<close> live in a memory that
  maps addresses to records; \<open>pprev\<close> and \<open>pskip\<close> are addresses or null. \<open>GetAncestor\<close> walks the
  skip list, \<open>CChain\<close> is the vector of the active chain. Loops that follow \<open>pprev\<close> are partial
  functions whose value \<open>None\<close> stands for a run that does not end; on a well-formed tree every one of
  them is proved to return.
\<close>

section \<open>Block index entries\<close>

type_synonym ptr = nat

record CBlockIndex =
  phashBlock :: bytes
  pprev :: "ptr option"
  pskip :: "ptr option"
  nHeight :: nat
  nFile :: int
  nDataPos :: u32
  nUndoPos :: u32
  nChainWork :: base_uint
  nTx :: u32
  nChainTx :: u32
  nStatus :: u32
  nVersion :: u32
  hashMerkleRoot :: bytes
  nTime :: u32
  nBits :: u32
  nNonce :: u32
  nNonce64 :: u64
  mix_hash :: bytes
  nSequenceId :: int
  nTimeMax :: u32

type_synonym block_mem = "ptr \<Rightarrow> CBlockIndex"

definition uint256_null :: bytes where
  "uint256_null = replicate 32 0"

definition null_index :: CBlockIndex where
  "null_index = \<lparr>phashBlock = [], pprev = None, pskip = None, nHeight = 0, nFile = 0, nDataPos = 0,
     nUndoPos = 0, nChainWork = zero_uint, nTx = 0, nChainTx = 0, nStatus = 0, nVersion = 0,
     hashMerkleRoot = uint256_null, nTime = 0, nBits = 0, nNonce = 0, nNonce64 = 0,
     mix_hash = uint256_null, nSequenceId = 0, nTimeMax = 0\<rparr>"

definition GetBlockTime :: "CBlockIndex \<Rightarrow> int" where
  "GetBlockTime b = uint (nTime b)"

definition GetBlockTimeMax :: "CBlockIndex \<Rightarrow> int" where
  "GetBlockTimeMax b = uint (nTimeMax b)"

definition nMedianTimeSpan :: nat where "nMedianTimeSpan = 11"

text \<open>The times of the last \<open>n\<close> blocks, gathered by the loop of \<^verbatim>\<open>GetMedianTimePast\<close>.\<close>

fun past_times :: "block_mem \<Rightarrow> nat \<Rightarrow> ptr option \<Rightarrow> int list" where
  "past_times h 0 pindex = []"
| "past_times h (Suc n) None = []"
| "past_times h (Suc n) (Some p) = past_times h n (pprev (h p)) @ [GetBlockTime (h p)]"

definition GetMedianTimePast :: "block_mem \<Rightarrow> ptr \<Rightarrow> int" where
  "GetMedianTimePast h p =
     (let ts = sort (past_times h nMedianTimeSpan (Some p)) in ts ! (length ts div 2))"

section \<open>Status bits\<close>

definition BLOCK_VALID_HEADER :: u32 where "BLOCK_VALID_HEADER = 1"
definition BLOCK_VALID_TREE :: u32 where "BLOCK_VALID_TREE = 2"
definition BLOCK_VALID_TRANSACTIONS :: u32 where "BLOCK_VALID_TRANSACTIONS = 3"
definition BLOCK_VALID_CHAIN :: u32 where "BLOCK_VALID_CHAIN = 4"
definition BLOCK_VALID_SCRIPTS :: u32 where "BLOCK_VALID_SCRIPTS = 5"
definition BLOCK_VALID_MASK :: u32 where
  "BLOCK_VALID_MASK = BLOCK_VALID_HEADER OR BLOCK_VALID_TREE OR BLOCK_VALID_TRANSACTIONS OR
     BLOCK_VALID_CHAIN OR BLOCK_VALID_SCRIPTS"
definition BLOCK_HAVE_DATA :: u32 where "BLOCK_HAVE_DATA = 8"
definition BLOCK_HAVE_UNDO :: u32 where "BLOCK_HAVE_UNDO = 16"
definition BLOCK_FAILED_VALID :: u32 where "BLOCK_FAILED_VALID = 32"
definition BLOCK_FAILED_CHILD :: u32 where "BLOCK_FAILED_CHILD = 64"
definition BLOCK_FAILED_MASK :: u32 where
  "BLOCK_FAILED_MASK = BLOCK_FAILED_VALID OR BLOCK_FAILED_CHILD"
definition BLOCK_OPT_WITNESS :: u32 where "BLOCK_OPT_WITNESS = 128"

definition IsValid :: "CBlockIndex \<Rightarrow> u32 \<Rightarrow> bool outcome" where
  "IsValid b nUpTo = assert_out (nUpTo AND NOT BLOCK_VALID_MASK = 0)
     (Inr (if nStatus b AND BLOCK_FAILED_MASK \<noteq> 0 then False
           else nStatus b AND BLOCK_VALID_MASK \<ge> nUpTo))"

definition RaiseValidity :: "CBlockIndex \<Rightarrow> u32 \<Rightarrow> (CBlockIndex \<times> bool) outcome" where
  "RaiseValidity b nUpTo = assert_out (nUpTo AND NOT BLOCK_VALID_MASK = 0)
     (Inr (if nStatus b AND BLOCK_FAILED_MASK \<noteq> 0 then (b, False)
           else if nStatus b AND BLOCK_VALID_MASK < nUpTo
           then (b\<lparr>nStatus := (nStatus b AND NOT BLOCK_VALID_MASK) OR nUpTo\<rparr>, True)
           else (b, False)))"

section \<open>The skip list\<close>

definition InvertLowestOne :: "nat \<Rightarrow> nat" where
  "InvertLowestOne n = n AND (n - 1)"

definition GetSkipHeight :: "nat \<Rightarrow> nat" where
  "GetSkipHeight height =
     (if height < 2 then 0
      else if height AND 1 \<noteq> 0 then InvertLowestOne (InvertLowestOne (height - 1)) + 1
      else InvertLowestOne height)"

text \<open>The test that decides whether the walk at \<open>heightWalk\<close> follows \<open>pskip\<close> on its way to \<open>height\<close>.\<close>

definition take_skip :: "nat \<Rightarrow> nat \<Rightarrow> bool" where
  "take_skip heightWalk height =
     (let heightSkip = GetSkipHeight heightWalk; heightSkipPrev = GetSkipHeight (heightWalk - 1)
      in heightSkip = height \<or>
         (heightSkip > height \<and> \<not> (heightSkipPrev + 2 < heightSkip \<and> heightSkipPrev \<ge> height)))"

lemma nat_and_le: "n AND (m :: nat) \<le> m"
  by (metis AND_upper2 of_nat_0_le_iff of_nat_and_eq of_nat_le_iff)

lemma InvertLowestOne_le: "InvertLowestOne n \<le> n - 1"
  by (simp add: InvertLowestOne_def nat_and_le)

lemma GetSkipHeight_less:
  assumes "0 < height"
  shows "GetSkipHeight height < height"
proof (cases "height < 2")
  case True
  then show ?thesis using assms by (simp add: GetSkipHeight_def)
next
  case False
  have "InvertLowestOne (InvertLowestOne (height - 1)) \<le> height - 1 - 1 - 1"
    using InvertLowestOne_le[of "InvertLowestOne (height - 1)"] InvertLowestOne_le[of "height - 1"]
    by linarith
  moreover have "InvertLowestOne height \<le> height - 1"
    by (rule InvertLowestOne_le)
  ultimately show ?thesis
    using False by (auto simp: GetSkipHeight_def)
qed

text \<open>
  The loop of \<^verbatim>\<open>GetAncestor\<close>: an entry without a predecessor above the wanted height trips the
  assertion of the source.
\<close>

function ancestor_walk :: "block_mem \<Rightarrow> nat \<Rightarrow> ptr \<Rightarrow> nat \<Rightarrow> ptr outcome" where
  "ancestor_walk h height pindexWalk heightWalk =
     (if heightWalk > height
      then (case (pskip (h pindexWalk), take_skip heightWalk height) of
              (Some s, True) \<Rightarrow> ancestor_walk h height s (GetSkipHeight heightWalk)
            | _ \<Rightarrow> (case pprev (h pindexWalk) of
                      None \<Rightarrow> Inl AssertFail
                    | Some q \<Rightarrow> ancestor_walk h height q (heightWalk - 1)))
      else Inr pindexWalk)"
  by pat_completeness auto
termination
  by (relation "measure (\<lambda>(h, height, p, hw). hw)") (auto intro: GetSkipHeight_less)

declare ancestor_walk.simps [simp del]

definition GetAncestor :: "block_mem \<Rightarrow> ptr \<Rightarrow> int \<Rightarrow> ptr option outcome" where
  "GetAncestor h p height =
     (if height > int (nHeight (h p)) \<or> height < 0 then Inr None
      else bind_out (ancestor_walk h (nat height) p (nHeight (h p))) (\<lambda>q. Inr (Some q)))"

definition BuildSkip :: "block_mem \<Rightarrow> ptr \<Rightarrow> block_mem outcome" where
  "BuildSkip h p =
     (case pprev (h p) of None \<Rightarrow> Inr h
      | Some q \<Rightarrow> bind_out (GetAncestor h q (int (GetSkipHeight (nHeight (h p)))))
          (\<lambda>s. Inr (h(p := (h p)\<lparr>pskip := s\<rparr>))))"

section \<open>Walking back\<close>

text \<open>\<^verbatim>\<open>while (pindex && P(pindex)) pindex = pindex->pprev;\<close>\<close>

partial_function (option) walk_back ::
  "block_mem \<Rightarrow> (ptr \<Rightarrow> bool) \<Rightarrow> ptr option \<Rightarrow> ptr option option" where
  "walk_back h P pindex =
     (case pindex of None \<Rightarrow> Some None
      | Some p \<Rightarrow> if P p then walk_back h P (pprev (h p)) else Some (Some p))"

partial_function (option) common_walk ::
  "block_mem \<Rightarrow> ptr option \<Rightarrow> ptr option \<Rightarrow> (ptr option \<times> ptr option) option" where
  "common_walk h pa pb =
     (case (pa, pb) of
        (Some a, Some b) \<Rightarrow> if a = b then Some (pa, pb) else common_walk h (pprev (h a)) (pprev (h b))
      | _ \<Rightarrow> Some (pa, pb))"

text \<open>
  \<^verbatim>\<open>LastCommonAncestor\<close>; the outer \<open>None\<close> is a run that does not end, an \<open>Inl\<close> a failed assertion or
  a null result that is dereferenced.
\<close>

definition LastCommonAncestor :: "block_mem \<Rightarrow> ptr \<Rightarrow> ptr \<Rightarrow> ptr option outcome option" where
  "LastCommonAncestor h pa pb =
     (let lowered =
        (if nHeight (h pa) > nHeight (h pb)
         then bind_out (GetAncestor h pa (int (nHeight (h pb)))) (\<lambda>a. Inr (a, Some pb))
         else if nHeight (h pb) > nHeight (h pa)
         then bind_out (GetAncestor h pb (int (nHeight (h pa)))) (\<lambda>b. Inr (Some pa, b))
         else Inr (Some pa, Some pb))
      in case lowered of Inl e \<Rightarrow> Some (Inl e)
         | Inr (a, b) \<Rightarrow> (case common_walk h a b of None \<Rightarrow> None
             | Some (a', b') \<Rightarrow> Some (assert_out (a' = b') (Inr a'))))"

section \<open>The active chain\<close>

text \<open>\<^verbatim>\<open>CChain\<close> holds the vector \<open>vChain\<close>; \<open>None\<close> is a null entry.\<close>

type_synonym CChain = "ptr option list"

definition chain_Genesis :: "CChain \<Rightarrow> ptr option" where
  "chain_Genesis vChain = (if length vChain > 0 then vChain ! 0 else None)"

definition chain_Tip :: "CChain \<Rightarrow> ptr option" where
  "chain_Tip vChain = (if length vChain > 0 then vChain ! (length vChain - 1) else None)"

definition chain_at :: "CChain \<Rightarrow> int \<Rightarrow> ptr option" where
  "chain_at vChain n = (if n < 0 \<or> n \<ge> int (length vChain) then None else vChain ! nat n)"

definition chain_Contains :: "block_mem \<Rightarrow> CChain \<Rightarrow> ptr \<Rightarrow> bool" where
  "chain_Contains h vChain p \<longleftrightarrow> chain_at vChain (int (nHeight (h p))) = Some p"

definition chain_Next :: "block_mem \<Rightarrow> CChain \<Rightarrow> ptr \<Rightarrow> ptr option" where
  "chain_Next h vChain p =
     (if chain_Contains h vChain p then chain_at vChain (int (nHeight (h p)) + 1) else None)"

definition chain_Height :: "CChain \<Rightarrow> int" where
  "chain_Height vChain = int (length vChain) - 1"

definition resize_chain :: "CChain \<Rightarrow> nat \<Rightarrow> CChain" where
  "resize_chain v n = take n v @ replicate (n - length v) None"

text \<open>The loop of \<^verbatim>\<open>SetTip\<close>; writing past the end of the vector is the fault \<open>OutOfRange\<close>.\<close>

partial_function (option) set_tip_loop ::
  "block_mem \<Rightarrow> ptr option \<Rightarrow> CChain \<Rightarrow> CChain outcome option" where
  "set_tip_loop h pindex v =
     (case pindex of None \<Rightarrow> Some (Inr v)
      | Some p \<Rightarrow> if nHeight (h p) \<ge> length v then Some (Inl OutOfRange)
          else if v ! nHeight (h p) \<noteq> Some p
          then set_tip_loop h (pprev (h p)) (v[nHeight (h p) := Some p])
          else Some (Inr v))"

definition SetTip :: "block_mem \<Rightarrow> CChain \<Rightarrow> ptr option \<Rightarrow> CChain outcome option" where
  "SetTip h v pindex =
     (case pindex of None \<Rightarrow> Some (Inr [])
      | Some p \<Rightarrow> set_tip_loop h (Some p) (resize_chain v (nHeight (h p) + 1)))"

definition FindFork :: "block_mem \<Rightarrow> CChain \<Rightarrow> ptr option \<Rightarrow> ptr option outcome option" where
  "FindFork h v pindex =
     (case pindex of None \<Rightarrow> Some (Inr None)
      | Some p \<Rightarrow>
          (case (if int (nHeight (h p)) > chain_Height v then GetAncestor h p (chain_Height v)
                 else Inr (Some p)) of
             Inl e \<Rightarrow> Some (Inl e)
           | Inr q \<Rightarrow> map_option Inr (walk_back h (\<lambda>r. \<not> chain_Contains h v r) q)))"

text \<open>
  The loop of \<^verbatim>\<open>GetLocator\<close>: \<open>vHave\<close> grows by the hash of each block visited, and the step back
  doubles once more than ten hashes are held.
\<close>

partial_function (option) locator_loop ::
  "block_mem \<Rightarrow> CChain \<Rightarrow> ptr option \<Rightarrow> nat \<Rightarrow> bytes list \<Rightarrow> bytes list outcome option" where
  "locator_loop h v pindex nStep vHave =
     (case pindex of None \<Rightarrow> Some (Inr vHave)
      | Some p \<Rightarrow>
          (let vHave' = vHave @ [phashBlock (h p)] in
           if nHeight (h p) = 0 then Some (Inr vHave')
           else let n = max (int (nHeight (h p)) - int nStep) 0;
                    nStep' = (if length vHave' > 10 then nStep * 2 else nStep)
                in if chain_Contains h v p then locator_loop h v (chain_at v n) nStep' vHave'
                   else (case GetAncestor h p n of
                           Inl e \<Rightarrow> Some (Inl e)
                         | Inr q \<Rightarrow> locator_loop h v q nStep' vHave')))"

definition GetLocator :: "block_mem \<Rightarrow> CChain \<Rightarrow> ptr option \<Rightarrow> bytes list outcome option" where
  "GetLocator h v pindex =
     locator_loop h v (case pindex of None \<Rightarrow> chain_Tip v | Some p \<Rightarrow> Some p) 1 []"

section \<open>Work\<close>

definition GetBlockProof :: "CBlockIndex \<Rightarrow> base_uint outcome" where
  "GetBlockProof block =
     (case SetCompact (nBits block) of (bnTarget, fNegative, fOverflow) \<Rightarrow>
        if fNegative \<or> fOverflow \<or> EqualTo bnTarget 0 then Inr (uint_of_u64 0)
        else bind_out (div_uint (not_uint bnTarget) (add_uint bnTarget (uint_of_u64 1)))
          (\<lambda>q. Inr (add_uint q (uint_of_u64 1))))"

definition GetBlockProofEquivalentTime ::
  "CBlockIndex \<Rightarrow> CBlockIndex \<Rightarrow> CBlockIndex \<Rightarrow> int \<Rightarrow> int outcome" where
  "GetBlockProofEquivalentTime to from tip nPowTargetSpacing =
     (let (r, sgn) = (if CompareTo (nChainWork to) (nChainWork from) > 0
                      then (sub_uint (nChainWork to) (nChainWork from), 1)
                      else (sub_uint (nChainWork from) (nChainWork to), - 1))
      in bind_out (GetBlockProof tip) (\<lambda>proof.
         bind_out (div_uint (mul_uint r (uint_of_u64 (of_int nPowTargetSpacing))) proof) (\<lambda>q.
           Inr (if bits_uint q > 63 then sgn * int64_max
                else sint (of_int sgn * GetLow64 q)))))"

section \<open>Well-formed trees\<close>

text \<open>\<open>steps_back h k p\<close> follows \<open>pprev\<close> \<open>k\<close> times: the reference for \<^verbatim>\<open>GetAncestor\<close>.\<close>

fun steps_back :: "block_mem \<Rightarrow> nat \<Rightarrow> ptr \<Rightarrow> ptr option" where
  "steps_back h 0 p = Some p"
| "steps_back h (Suc k) p = (case pprev (h p) of None \<Rightarrow> None | Some q \<Rightarrow> steps_back h k q)"

definition wf_entry :: "block_mem \<Rightarrow> ptr set \<Rightarrow> ptr \<Rightarrow> bool" where
  "wf_entry h A p \<longleftrightarrow>
     (case pprev (h p) of None \<Rightarrow> nHeight (h p) = 0
      | Some q \<Rightarrow> q \<in> A \<and> nHeight (h p) = Suc (nHeight (h q))) \<and>
     (case pskip (h p) of None \<Rightarrow> True
      | Some s \<Rightarrow> steps_back h (nHeight (h p) - GetSkipHeight (nHeight (h p))) p = Some s)"

definition wf_tree :: "block_mem \<Rightarrow> ptr set \<Rightarrow> bool" where
  "wf_tree h A \<longleftrightarrow> (\<forall>p \<in> A. wf_entry h A p)"

text \<open>The path from the root to a block, and the chains \<^verbatim>\<open>SetTip\<close> builds.\<close>

definition path_to :: "block_mem \<Rightarrow> ptr \<Rightarrow> CChain" where
  "path_to h p = map (\<lambda>i. steps_back h (nHeight (h p) - i) p) [0..<Suc (nHeight (h p))]"

definition wf_chain :: "block_mem \<Rightarrow> ptr set \<Rightarrow> CChain \<Rightarrow> bool" where
  "wf_chain h A v \<longleftrightarrow> v = [] \<or> (\<exists>p \<in> A. v = path_to h p)"

section \<open>Ancestors\<close>

lemma wf_treeD:
  assumes "wf_tree h A" "p \<in> A"
  shows "pprev (h p) = None \<Longrightarrow> nHeight (h p) = 0"
    and "pprev (h p) = Some q \<Longrightarrow> q \<in> A \<and> nHeight (h p) = Suc (nHeight (h q))"
    and "pskip (h p) = Some s \<Longrightarrow> steps_back h (nHeight (h p) - GetSkipHeight (nHeight (h p))) p = Some s"
  using assms by (auto simp: wf_tree_def wf_entry_def)

lemma wf_tree_prev:
  assumes "wf_tree h A" "p \<in> A" "0 < nHeight (h p)"
  obtains q where "pprev (h p) = Some q" "q \<in> A" "nHeight (h p) = Suc (nHeight (h q))"
  using wf_treeD[OF assms(1,2)] assms(3) by (cases "pprev (h p)") auto

lemma back_add: "steps_back h (k + l) p = Option.bind (steps_back h k p) (steps_back h l)"
  by (induction k arbitrary: p) (auto split: option.splits)

lemma back_height:
  assumes "wf_tree h A" "p \<in> A" "k \<le> nHeight (h p)"
  shows "\<exists>q. steps_back h k p = Some q \<and> q \<in> A \<and> nHeight (h q) = nHeight (h p) - k"
  using assms(2,3)
proof (induction k arbitrary: p)
  case 0
  then show ?case by simp
next
  case (Suc k)
  then obtain q where "pprev (h p) = Some q" "q \<in> A" "nHeight (h p) = Suc (nHeight (h q))"
    using wf_tree_prev[OF assms(1), of p] by auto
  then show ?case
    using Suc.IH[of q] Suc.prems by simp
qed

lemma back_too_far:
  assumes "wf_tree h A" "p \<in> A" "nHeight (h p) < k"
  shows "steps_back h k p = None"
  using assms(2,3)
proof (induction k arbitrary: p)
  case (Suc k)
  then show ?case
    using wf_treeD(1,2)[OF assms(1), of p] by (cases "pprev (h p)") auto
qed simp

lemma ancestor_walk_back:
  assumes "wf_tree h A" "p \<in> A" "nHeight (h p) = hw" "height \<le> hw"
  shows "\<exists>q. ancestor_walk h height p hw = Inr q \<and> steps_back h (hw - height) p = Some q"
  using assms(2-4)
proof (induction hw arbitrary: p rule: less_induct)
  case (less hw)
  show ?case
  proof (cases "height < hw")
    case False
    then show ?thesis
      using less.prems by (subst ancestor_walk.simps) simp
  next
    case True
    have "0 < nHeight (h p)"
      using less.prems(2) True by simp
    with assms(1) less.prems(1) obtain r where "pprev (h p) = Some r" "r \<in> A"
        "nHeight (h p) = Suc (nHeight (h r))"
      by (rule wf_tree_prev)
    with less.prems(2) have r: "pprev (h p) = Some r" "r \<in> A" "hw = Suc (nHeight (h r))"
      by simp_all
    have prev: "\<exists>q. ancestor_walk h height r (hw - 1) = Inr q \<and> steps_back h (hw - height) p = Some q"
    proof -
      have "\<exists>q. ancestor_walk h height r (hw - 1) = Inr q \<and> steps_back h (hw - 1 - height) r = Some q"
      proof (rule less.IH)
        show "hw - 1 < hw" "height \<le> hw - 1" "nHeight (h r) = hw - 1"
          using r(3) True by linarith+
      qed (rule r(2))
      moreover have "hw - height = Suc (hw - 1 - height)"
        using True by simp
      ultimately show ?thesis using r(1) by simp
    qed
    show ?thesis
    proof (cases "\<exists>s. pskip (h p) = Some s \<and> take_skip hw height")
      case True
      then obtain s where s: "pskip (h p) = Some s" "take_skip hw height" by blast
      let ?g = "GetSkipHeight hw"
      have g: "?g < hw" "height \<le> ?g"
        using GetSkipHeight_less[of hw] \<open>height < hw\<close> s(2) by (auto simp: take_skip_def Let_def)
      have bs: "steps_back h (hw - ?g) p = Some s"
        using wf_treeD(3)[OF assms(1) less.prems(1) s(1)] less.prems(2) by simp
      moreover obtain s' where "steps_back h (hw - ?g) p = Some s'" "s' \<in> A" "nHeight (h s') = hw - (hw - ?g)"
        using back_height[OF assms(1) less.prems(1), of "hw - ?g"] less.prems(2) by auto
      ultimately have "s \<in> A" "nHeight (h s) = ?g"
        using g by auto
      then obtain q where q: "ancestor_walk h height s ?g = Inr q" "steps_back h (?g - height) s = Some q"
        using less.IH[OF g(1)] g(2) by blast
      have "hw - height = (hw - ?g) + (?g - height)"
        using g by simp
      then have "steps_back h (hw - height) p = Some q"
        using bs q(2) by (simp only: back_add bind.bind_lunit)
      then show ?thesis
        using q(1) s \<open>height < hw\<close> by (subst ancestor_walk.simps) simp
    next
      case no: False
      then have "ancestor_walk h height p hw = ancestor_walk h height r (hw - 1)"
        using True r(1) by (subst ancestor_walk.simps) (auto split: option.splits bool.splits)
      then show ?thesis using prev by simp
    qed
  qed
qed

lemma GetAncestor_value:
  assumes "wf_tree h A" "p \<in> A"
  shows "GetAncestor h p height =
    Inr (if 0 \<le> height \<and> height \<le> int (nHeight (h p))
         then steps_back h (nHeight (h p) - nat height) p else None)"
proof (cases "0 \<le> height \<and> height \<le> int (nHeight (h p))")
  case True
  then have "nat height \<le> nHeight (h p)"
    by linarith
  then obtain q where "ancestor_walk h (nat height) p (nHeight (h p)) = Inr q"
      "steps_back h (nHeight (h p) - nat height) p = Some q"
    using ancestor_walk_back[OF assms refl, of "nat height"] by blast
  then show ?thesis
    using True by (simp add: GetAncestor_def)
qed (auto simp: GetAncestor_def)

lemma GetAncestor_in:
  assumes "wf_tree h A" "p \<in> A" "0 \<le> height" "height \<le> int (nHeight (h p))"
  obtains q where "GetAncestor h p height = Inr (Some q)" "q \<in> A" "int (nHeight (h q)) = height"
    "steps_back h (nHeight (h p) - nat height) p = Some q"
  using back_height[OF assms(1,2), of "nHeight (h p) - nat height"] GetAncestor_value[OF assms(1,2), of height]
    assms(3,4) by auto

section \<open>Adding an entry\<close>

lemma steps_back_frame:
  assumes "\<And>q. q \<noteq> p \<Longrightarrow> pprev (h' q) = pprev (h q)" "\<And>q. q \<in> A \<Longrightarrow> q \<noteq> p"
    and "wf_tree h A" "q \<in> A"
  shows "steps_back h' k q = steps_back h k q"
  using assms(4)
proof (induction k arbitrary: q)
  case (Suc k)
  have "pprev (h' q) = pprev (h q)"
    using assms(1,2) Suc.prems by blast
  moreover have "r \<in> A" if "pprev (h q) = Some r" for r
    using wf_treeD(2)[OF assms(3) Suc.prems that] by simp
  ultimately show ?case
    using Suc.IH by (auto split: option.splits)
qed simp

text \<open>
  A new entry on top of a tree: its predecessor is in the tree, its height is one more and
  \<open>pskip\<close> is what \<^verbatim>\<open>BuildSkip\<close> computes.
\<close>

lemma BuildSkip_wf:
  assumes wf: "wf_tree h A" and new: "p \<notin> A"
    and prev: "pprev (h p) = Some q" "q \<in> A" and ht: "nHeight (h p) = Suc (nHeight (h q))"
  shows "\<exists>s. BuildSkip h p = Inr (h(p := (h p)\<lparr>pskip := Some s\<rparr>)) \<and>
    wf_tree (h(p := (h p)\<lparr>pskip := Some s\<rparr>)) (insert p A)"
proof -
  let ?g = "GetSkipHeight (nHeight (h p))"
  have g: "?g \<le> nHeight (h q)"
    using GetSkipHeight_less[of "nHeight (h p)"] ht by simp
  then obtain s where s: "GetAncestor h q (int ?g) = Inr (Some s)"
      "steps_back h (nHeight (h q) - ?g) q = Some s"
    using GetAncestor_in[OF wf prev(2), of "int ?g"] by auto
  let ?h = "h(p := (h p)\<lparr>pskip := Some s\<rparr>)"
  have B: "BuildSkip h p = Inr ?h"
    using prev s(1) by (simp add: BuildSkip_def)
  have pp: "pprev (?h r) = pprev (h r)" for r by simp
  have fr: "steps_back ?h k r = steps_back h k r" if "r \<in> A" for k r
    using steps_back_frame[of p ?h h A r k] wf new that by auto
  have "wf_entry ?h (insert p A) r" if "r \<in> A" for r
    using wf that new fr[OF that] unfolding wf_tree_def wf_entry_def
    by (auto split: option.splits)
  moreover have "wf_entry ?h (insert p A) p"
  proof -
    have "nHeight (h p) - ?g = Suc (nHeight (h q) - ?g)"
      using g ht by simp
    then have "steps_back ?h (nHeight (h p) - ?g) p = Some s"
      using prev fr[OF prev(2)] s(2) by simp
    moreover have "q \<noteq> p"
      using prev(2) new by blast
    ultimately show ?thesis
      unfolding wf_entry_def using prev ht by (simp del: steps_back.simps)
  qed
  ultimately have "wf_tree ?h (insert p A)"
    by (simp add: wf_tree_def)
  then show ?thesis using B by blast
qed

section \<open>The active chain as a path\<close>

lemma length_path [simp]: "length (path_to h p) = Suc (nHeight (h p))"
  by (simp add: path_to_def)

lemma nth_path: "i \<le> nHeight (h p) \<Longrightarrow> path_to h p ! i = steps_back h (nHeight (h p) - i) p"
  unfolding path_to_def by (subst nth_map) (simp_all del: upt_Suc)

lemma steps_back_via:
  "steps_back h j p = Some q \<Longrightarrow> j \<le> k \<Longrightarrow> steps_back h k p = steps_back h (k - j) q"
  using back_add[of h j "k - j" p] by simp

lemma back_in:
  assumes "wf_tree h A" "p \<in> A" "steps_back h k p = Some q"
  shows "q \<in> A" and "k \<le> nHeight (h p)" and "nHeight (h q) = nHeight (h p) - k"
proof -
  show k: "k \<le> nHeight (h p)"
    using back_too_far[OF assms(1,2), of k] assms(3) by (cases "k \<le> nHeight (h p)") auto
  show "q \<in> A" and "nHeight (h q) = nHeight (h p) - k"
    using back_height[OF assms(1,2) k] assms(3) by auto
qed

lemma set_tip_loop_value:
  assumes "wf_tree h A" "q \<in> A" "nHeight (h q) < length v"
    and "\<And>i r. i \<le> nHeight (h q) \<Longrightarrow> v ! i = Some r \<Longrightarrow> (\<forall>j \<le> i. v ! j = steps_back h (i - j) r)"
  shows "\<exists>w. set_tip_loop h (Some q) v = Some (Inr w) \<and> length w = length v \<and>
    (\<forall>i. w ! i = (if i \<le> nHeight (h q) then steps_back h (nHeight (h q) - i) q else v ! i))"
  using assms(2-4)
proof (induction "nHeight (h q)" arbitrary: q v rule: less_induct)
  case less
  let ?k = "nHeight (h q)" and ?v = "v[nHeight (h q) := Some q]"
  show ?case
  proof (cases "v ! ?k = Some q")
    case True
    then have "\<forall>j \<le> ?k. v ! j = steps_back h (?k - j) q"
      using less.prems(3)[of ?k q] by simp
    then show ?thesis
      using True less.prems(2) by (subst set_tip_loop.simps) auto
  next
    case False
    then have step: "set_tip_loop h (Some q) v = set_tip_loop h (pprev (h q)) ?v"
      using less.prems(2) by (subst set_tip_loop.simps) simp
    show ?thesis
    proof (cases "pprev (h q)")
      case None
      then have "?k = 0"
        by (rule wf_treeD(1)[OF assms(1) less.prems(1)])
      moreover have "set_tip_loop h (Some q) v = Some (Inr ?v)"
        using step None by (simp add: set_tip_loop.simps[of h None])
      ultimately show ?thesis
        using less.prems(2) by (auto simp: nth_list_update)
    next
      case (Some r)
      then have r: "r \<in> A" "?k = Suc (nHeight (h r))"
        using wf_treeD(2)[OF assms(1) less.prems(1)] by auto
      have "\<exists>w. set_tip_loop h (Some r) ?v = Some (Inr w) \<and> length w = length ?v \<and>
        (\<forall>i. w ! i = (if i \<le> nHeight (h r) then steps_back h (nHeight (h r) - i) r else ?v ! i))"
      proof (rule less.hyps)
        show "nHeight (h r) < ?k" "nHeight (h r) < length ?v"
          using r(2) less.prems(2) by simp_all
      next
        fix i t assume i: "i \<le> nHeight (h r)" and "?v ! i = Some t"
        then have "v ! i = Some t"
          using r(2) by simp
        then have "\<forall>j \<le> i. v ! j = steps_back h (i - j) t"
          using less.prems(3)[of i t] i r(2) by simp
        then show "\<forall>j \<le> i. ?v ! j = steps_back h (i - j) t"
          using i r(2) by simp
      qed (rule r(1))
      then obtain w where w: "set_tip_loop h (Some r) ?v = Some (Inr w)" "length w = length ?v"
        "\<And>i. w ! i = (if i \<le> nHeight (h r) then steps_back h (nHeight (h r) - i) r else ?v ! i)"
        by blast
      have "w ! i = (if i \<le> ?k then steps_back h (?k - i) q else v ! i)" for i
      proof -
        consider "i \<le> nHeight (h r)" | "i = ?k" | "?k < i"
          using r(2) by linarith
        then show ?thesis
        proof cases
          case 1
          then have "?k - i = Suc (nHeight (h r) - i)"
            using r(2) by simp
          then show ?thesis
            using 1 w(3)[of i] Some r(2) by simp
        next
          case 2
          then show ?thesis
            using w(3)[of i] r(2) less.prems(2) by simp
        next
          case 3
          then show ?thesis
            using w(3)[of i] r(2) by simp
        qed
      qed
      then show ?thesis
        using step Some w(1,2) by auto
    qed
  qed
qed

lemma path_closed:
  assumes "wf_tree h A" "p \<in> A" "i \<le> nHeight (h p)" "path_to h p ! i = Some r" "j \<le> i"
  shows "path_to h p ! j = steps_back h (i - j) r"
proof -
  have "steps_back h (nHeight (h p) - i) p = Some r"
    using assms(3,4) by (simp add: nth_path)
  then have "steps_back h (nHeight (h p) - j) p = steps_back h (nHeight (h p) - j - (nHeight (h p) - i)) r"
    using assms(5) by (intro steps_back_via) simp_all
  then show ?thesis
    using assms(3,5) by (simp add: nth_path)
qed

lemma SetTip_value:
  assumes "wf_tree h A" "wf_chain h A v" "p \<in> A"
  shows "SetTip h v (Some p) = Some (Inr (path_to h p))"
proof -
  let ?n = "nHeight (h p)" and ?v = "resize_chain v (nHeight (h p) + 1)"
  have len: "length ?v = ?n + 1"
    by (simp add: resize_chain_def)
  have nth: "?v ! i = (if i < length v then v ! i else None)" if "i \<le> ?n" for i
    using that by (auto simp: resize_chain_def nth_append min_def)
  have "\<forall>j \<le> i. ?v ! j = steps_back h (i - j) r" if "i \<le> ?n" "?v ! i = Some r" for i r
  proof -
    have i: "i < length v" "v ! i = Some r"
      using that nth[OF that(1)] by (auto split: if_splits)
    then obtain t where t: "t \<in> A" "v = path_to h t"
      using assms(2) by (auto simp: wf_chain_def)
    have "?v ! j = steps_back h (i - j) r" if "j \<le> i" for j
      using path_closed[OF assms(1) t(1), of i r j] i t(2) nth[of j] that \<open>i \<le> ?n\<close> by simp
    then show ?thesis by blast
  qed
  then obtain w where w: "set_tip_loop h (Some p) ?v = Some (Inr w)" "length w = length ?v"
      "\<And>i. w ! i = (if i \<le> ?n then steps_back h (?n - i) p else ?v ! i)"
    using set_tip_loop_value[OF assms(1,3), of ?v] len by auto
  have "w = path_to h p"
    using w(2,3) len by (intro nth_equalityI) (simp_all add: nth_path)
  then show ?thesis
    using w(1) by (simp add: SetTip_def)
qed

lemma chain_Contains_path:
  assumes "wf_tree h A" "t \<in> A"
  shows "chain_Contains h (path_to h t) q \<longleftrightarrow> (\<exists>k. steps_back h k t = Some q)"
proof
  assume "chain_Contains h (path_to h t) q"
  then have "nHeight (h q) \<le> nHeight (h t)" "path_to h t ! nHeight (h q) = Some q"
    by (auto simp: chain_Contains_def chain_at_def split: if_splits)
  then show "\<exists>k. steps_back h k t = Some q"
    by (auto simp: nth_path)
next
  assume "\<exists>k. steps_back h k t = Some q"
  then obtain k where k: "steps_back h k t = Some q" by blast
  note q = back_in[OF assms k]
  then have "path_to h t ! nHeight (h q) = Some q"
    using k by (simp add: nth_path)
  then show "chain_Contains h (path_to h t) q"
    using q(3) by (simp add: chain_Contains_def chain_at_def)
qed

lemma walk_back_value:
  assumes "wf_tree h A" "p \<in> A"
  shows "\<exists>r. walk_back h P (Some p) = Some r \<and>
    (case r of None \<Rightarrow> \<forall>k q. steps_back h k p = Some q \<longrightarrow> P q
     | Some q \<Rightarrow> \<not> P q \<and> (\<exists>k. steps_back h k p = Some q \<and>
         (\<forall>j q'. steps_back h j p = Some q' \<and> \<not> P q' \<longrightarrow> k \<le> j)))"
  using assms(2)
proof (induction "nHeight (h p)" arbitrary: p rule: less_induct)
  case less
  show ?case
  proof (cases "P p")
    case False
    then have "walk_back h P (Some p) = Some (Some p)"
      by (subst walk_back.simps) simp
    moreover have "steps_back h 0 p = Some p" by simp
    ultimately show ?thesis
      using False by (intro exI[of _ "Some p"]) (auto simp del: steps_back.simps)
  next
    case True
    then have step: "walk_back h P (Some p) = walk_back h P (pprev (h p))"
      by (subst walk_back.simps) simp
    show ?thesis
    proof (cases "pprev (h p)")
      case None
      have "P q" if "steps_back h k p = Some q" for k q
        using that True None by (cases k) auto
      moreover have "walk_back h P (Some p) = Some None"
        using step None by (simp add: walk_back.simps[of h P None])
      ultimately show ?thesis by auto
    next
      case (Some t)
      then have t: "t \<in> A" "nHeight (h t) < nHeight (h p)"
        using wf_treeD(2)[OF assms(1) less.prems] by auto
      obtain r where r: "walk_back h P (Some t) = Some r"
        "case r of None \<Rightarrow> \<forall>k q. steps_back h k t = Some q \<longrightarrow> P q
         | Some q \<Rightarrow> \<not> P q \<and> (\<exists>k. steps_back h k t = Some q \<and>
             (\<forall>j q'. steps_back h j t = Some q' \<and> \<not> P q' \<longrightarrow> k \<le> j))"
        using less.hyps[OF t(2,1)] by blast
      have sb: "steps_back h j p = Some q \<longleftrightarrow> (j = 0 \<and> q = p) \<or> (\<exists>i. j = Suc i \<and> steps_back h i t = Some q)" for j q
        using Some by (cases j) auto
      show ?thesis
      proof (cases r)
        case None
        then have "P q" if "steps_back h k p = Some q" for k q
          using that r(2) True sb by auto
        then show ?thesis
          using step Some r(1) None by auto
      next
        case (Some q)
        then obtain k where k: "\<not> P q" "steps_back h k t = Some q"
          "\<And>j q'. steps_back h j t = Some q' \<Longrightarrow> \<not> P q' \<Longrightarrow> k \<le> j"
          using r(2) by auto
        have "\<forall>j q'. steps_back h j p = Some q' \<and> \<not> P q' \<longrightarrow> Suc k \<le> j"
          using k(3) True sb by auto
        then have "\<exists>k. steps_back h k p = Some q \<and> (\<forall>j q'. steps_back h j p = Some q' \<and> \<not> P q' \<longrightarrow> k \<le> j)"
          using k(2) sb by blast
        then show ?thesis
          using step \<open>pprev (h p) = Some t\<close> r(1) Some k(1) by auto
      qed
    qed
  qed
qed


text \<open>
  \<^verbatim>\<open>FindEarliestAtLeast\<close>: \<^verbatim>\<open>std::lower_bound\<close> by halving, over the vector of the active chain, whose entries
  are never null.
\<close>

function lower_bound :: "('a \<Rightarrow> bool) \<Rightarrow> 'a list \<Rightarrow> nat \<Rightarrow> nat \<Rightarrow> nat" where
  "lower_bound is_less v first count =
     (if count = 0 then first
      else let step = count div 2; it = first + step
           in if is_less (v ! it) then lower_bound is_less v (it + 1) (count - (step + 1))
              else lower_bound is_less v first step)"
  by pat_completeness auto
termination
  by (relation "measure (\<lambda>(P, v, f, c). c)") auto

declare lower_bound.simps [simp del]

definition FindEarliestAtLeast :: "block_mem \<Rightarrow> CChain \<Rightarrow> int \<Rightarrow> ptr option" where
  "FindEarliestAtLeast h vChain t =
     (let lower = lower_bound (\<lambda>pBlock. GetBlockTimeMax (h (the pBlock)) < t) vChain 0 (length vChain)
      in if lower = length vChain then None else vChain ! lower)"

lemma lower_bound_value:
  assumes "first + count \<le> length v"
    and "\<And>i j. i \<le> j \<Longrightarrow> j < length v \<Longrightarrow> P (v ! j) \<Longrightarrow> P (v ! i)"
    and "\<forall>i < first. P (v ! i)" and "\<forall>i. first + count \<le> i \<and> i < length v \<longrightarrow> \<not> P (v ! i)"
  shows "(\<forall>i < lower_bound P v first count. P (v ! i)) \<and>
    (\<forall>i. lower_bound P v first count \<le> i \<and> i < length v \<longrightarrow> \<not> P (v ! i)) \<and>
    lower_bound P v first count \<le> length v"
  using assms(1,3,4)
proof (induction count arbitrary: first rule: less_induct)
  case (less count)
  show ?case
  proof (cases "count = 0")
    case True
    then show ?thesis
      using less.prems by (subst (1 2 3) lower_bound.simps) simp
  next
    case False
    let ?it = "first + count div 2"
    have it: "?it < length v" "?it < first + count"
      using False less.prems(1) by linarith+
    show ?thesis
    proof (cases "P (v ! ?it)")
      case True
      have eq: "lower_bound P v first count = lower_bound P v (?it + 1) (count - (count div 2 + 1))"
        using False True by (subst lower_bound.simps) (simp add: Let_def)
      have sum: "?it + 1 + (count - (count div 2 + 1)) = first + count"
        using False by linarith
      show ?thesis
        unfolding eq
      proof (rule less.IH)
        show "\<forall>i < ?it + 1. P (v ! i)"
          using assms(2)[OF _ it(1) True] by (metis Suc_eq_plus1 less_Suc_eq_le)
        show "count - (count div 2 + 1) < count"
          using False by linarith
      qed (use less.prems in \<open>simp_all only: sum\<close>)
    next
      case F: False
      have eq: "lower_bound P v first count = lower_bound P v first (count div 2)"
        using False F by (subst lower_bound.simps) (simp add: Let_def)
      show ?thesis
        unfolding eq
      proof (rule less.IH)
        show "\<forall>i. ?it \<le> i \<and> i < length v \<longrightarrow> \<not> P (v ! i)"
          using F assms(2) by blast
      qed (use False it less.prems in \<open>linarith | blast\<close>)+
    qed
  qed
qed

lemma common_walk_value:
  assumes "wf_tree h A" "a \<in> A" "b \<in> A" "nHeight (h a) = nHeight (h b)"
  shows "(\<exists>k c. steps_back h k a = Some c \<and> steps_back h k b = Some c \<and>
      (\<forall>j < k. steps_back h j a \<noteq> steps_back h j b) \<and>
      common_walk h (Some a) (Some b) = Some (Some c, Some c)) \<or>
    ((\<forall>j \<le> nHeight (h a). steps_back h j a \<noteq> steps_back h j b) \<and>
      common_walk h (Some a) (Some b) = Some (None, None))"
  using assms(2-4)
proof (induction "nHeight (h a)" arbitrary: a b rule: less_induct)
  case less
  show ?case
  proof (cases "a = b")
    case True
    then have "common_walk h (Some a) (Some b) = Some (Some a, Some a)"
      by (subst common_walk.simps) simp
    then show ?thesis
      using True by (intro disjI1 exI[of _ 0] exI[of _ a]) simp
  next
    case False
    then have step: "common_walk h (Some a) (Some b) = common_walk h (pprev (h a)) (pprev (h b))"
      by (subst common_walk.simps) simp
    show ?thesis
    proof (cases "nHeight (h a) = 0")
      case True
      then have "pprev (h a) = None" "pprev (h b) = None"
        using wf_treeD(2)[OF assms(1)] less.prems by (metis nat.distinct(1) not_None_eq)+
      then have "common_walk h (Some a) (Some b) = Some (None, None)"
        using step by (simp add: common_walk.simps[of h None])
      then show ?thesis
        using True False by simp
    next
      case pos: False
      obtain a' where a: "pprev (h a) = Some a'" "a' \<in> A" "nHeight (h a) = Suc (nHeight (h a'))"
        using wf_treeD(1,2)[OF assms(1) less.prems(1)] pos by (cases "pprev (h a)") auto
      obtain b' where b: "pprev (h b) = Some b'" "b' \<in> A" "nHeight (h b) = Suc (nHeight (h b'))"
        using wf_treeD(1,2)[OF assms(1) less.prems(2)] pos less.prems(3) by (cases "pprev (h b)") auto
      have ih: "(\<exists>k c. steps_back h k a' = Some c \<and> steps_back h k b' = Some c \<and>
          (\<forall>j < k. steps_back h j a' \<noteq> steps_back h j b') \<and>
          common_walk h (Some a') (Some b') = Some (Some c, Some c)) \<or>
        ((\<forall>j \<le> nHeight (h a'). steps_back h j a' \<noteq> steps_back h j b') \<and>
          common_walk h (Some a') (Some b') = Some (None, None))"
        using a b less.prems(3) by (intro less.hyps) simp_all
      have sb: "steps_back h (Suc j) a = steps_back h j a'" "steps_back h (Suc j) b = steps_back h j b'" for j
        using a(1) b(1) by simp_all
      from ih show ?thesis
      proof (elim disjE exE conjE)
        fix k c
        assume k: "steps_back h k a' = Some c" "steps_back h k b' = Some c"
          "\<forall>j < k. steps_back h j a' \<noteq> steps_back h j b'"
          "common_walk h (Some a') (Some b') = Some (Some c, Some c)"
        have "\<forall>j < Suc k. steps_back h j a \<noteq> steps_back h j b"
          using k(3) sb False by (auto simp: less_Suc_eq_0_disj)
        then show ?thesis
          using k(1,2,4) sb[of k] step a(1) b(1)
          by (intro disjI1 exI[of _ "Suc k"] exI[of _ c]) (simp del: steps_back.simps)
      next
        assume n: "\<forall>j \<le> nHeight (h a'). steps_back h j a' \<noteq> steps_back h j b'"
          "common_walk h (Some a') (Some b') = Some (None, None)"
        have "steps_back h j a \<noteq> steps_back h j b" if "j \<le> nHeight (h a)" for j
          using that n(1) sb False a(3) by (cases j) (simp_all del: steps_back.simps(2))
        then show ?thesis
          using n(2) step a(1) b(1) by simp
      qed
    qed
  qed
qed


section \<open>Forks and locators\<close>

lemma steps_back_same_height:
  assumes "wf_tree h A" "a \<in> A" "steps_back h i a = Some c" "steps_back h j a = Some d"
    and "nHeight (h c) = nHeight (h d)"
  shows "c = d"
proof -
  note c = back_in[OF assms(1-3)] and d = back_in[OF assms(1,2,4)]
  then have "i = j"
    using assms(5) by simp
  then show ?thesis
    using assms(3,4) by simp
qed

lemma FindFork_value:
  assumes "wf_tree h A" "t \<in> A" "p \<in> A"
  shows "\<exists>r. FindFork h (path_to h t) (Some p) = Some (Inr r) \<and>
    (case r of
       None \<Rightarrow> \<forall>k j q. \<not> (steps_back h k p = Some q \<and> steps_back h j t = Some q)
     | Some f \<Rightarrow> (\<exists>k. steps_back h k p = Some f) \<and> (\<exists>j. steps_back h j t = Some f) \<and>
         (\<forall>k j q. steps_back h k p = Some q \<and> steps_back h j t = Some q \<longrightarrow>
            nHeight (h q) \<le> nHeight (h f)))"
proof -
  let ?v = "path_to h t"
  note C = chain_Contains_path[OF assms(1,2)]
  obtain q k0 where q: "(if int (nHeight (h p)) > chain_Height ?v then GetAncestor h p (chain_Height ?v)
      else Inr (Some p)) = Inr (Some q)" "q \<in> A" "steps_back h k0 p = Some q"
      "nHeight (h q) = min (nHeight (h p)) (nHeight (h t))"
  proof (cases "nHeight (h p) > nHeight (h t)")
    case True
    then have le: "0 \<le> int (nHeight (h t))" "int (nHeight (h t)) \<le> int (nHeight (h p))"
      by simp_all
    from assms(1,3) le obtain q where "GetAncestor h p (int (nHeight (h t))) = Inr (Some q)" "q \<in> A"
      "int (nHeight (h q)) = int (nHeight (h t))" "steps_back h (nHeight (h p) - nat (int (nHeight (h t)))) p = Some q"
      by (rule GetAncestor_in)
    then show ?thesis
      using True by (intro that[of q]) (simp_all add: chain_Height_def)
  next
    case False
    then show ?thesis
      using assms(3) by (intro that[of p 0]) (simp_all add: chain_Height_def)
  qed
  obtain r where r: "walk_back h (\<lambda>r. \<not> chain_Contains h ?v r) (Some q) = Some r"
    "case r of None \<Rightarrow> \<forall>k q'. steps_back h k q = Some q' \<longrightarrow> \<not> chain_Contains h ?v q'
     | Some f \<Rightarrow> \<not> \<not> chain_Contains h ?v f \<and> (\<exists>k. steps_back h k q = Some f \<and>
         (\<forall>j q'. steps_back h j q = Some q' \<and> \<not> \<not> chain_Contains h ?v q' \<longrightarrow> k \<le> j))"
    using walk_back_value[OF assms(1) q(2), of "\<lambda>r. \<not> chain_Contains h ?v r"] by blast
  have below: "\<exists>i. steps_back h i q = Some c" if "steps_back h k p = Some c" "steps_back h j t = Some c" for k j c
  proof -
    have "k0 \<le> k"
      using back_in(2,3)[OF assms(1,3) that(1)] back_in(2,3)[OF assms(1,2) that(2)]
        back_in(2,3)[OF assms(1,3) q(3)] q(4) by linarith
    then show ?thesis
      using steps_back_via[OF q(3)] that(1) by metis
  qed
  have "FindFork h ?v (Some p) = Some (Inr r)"
    unfolding FindFork_def option.case q(1) sum.case r(1) by simp
  moreover have "case r of
       None \<Rightarrow> \<forall>k j q. \<not> (steps_back h k p = Some q \<and> steps_back h j t = Some q)
     | Some f \<Rightarrow> (\<exists>k. steps_back h k p = Some f) \<and> (\<exists>j. steps_back h j t = Some f) \<and>
         (\<forall>k j q. steps_back h k p = Some q \<and> steps_back h j t = Some q \<longrightarrow>
            nHeight (h q) \<le> nHeight (h f))"
  proof (cases r)
    case None
    then have "\<not> chain_Contains h ?v c" if "steps_back h i q = Some c" for i c
      using r(2) that by simp
    then have "\<not> (steps_back h k p = Some c \<and> steps_back h j t = Some c)" for k j c
      using below[of k c j] C by blast
    then show ?thesis
      using None by simp
  next
    case (Some f)
    then obtain k where k: "chain_Contains h ?v f" "steps_back h k q = Some f"
      "\<And>j q'. steps_back h j q = Some q' \<Longrightarrow> chain_Contains h ?v q' \<Longrightarrow> k \<le> j"
      using r(2) by auto
    have "nHeight (h c) \<le> nHeight (h f)" if c: "steps_back h i p = Some c" "steps_back h j t = Some c" for i j c
    proof -
      obtain i' where i': "steps_back h i' q = Some c"
        using below[OF c] by blast
      then have "k \<le> i'"
        using k(3) C c(2) by blast
      then show ?thesis
        using back_in(3)[OF assms(1) q(2) i'] back_in(3)[OF assms(1) q(2) k(2)] by simp
    qed
    moreover have "steps_back h (k0 + k) p = Some f"
      using back_add[of h k0 k p] q(3) k(2) by simp
    ultimately show ?thesis
      using Some k(1) C by auto
  qed
  ultimately show ?thesis by blast
qed

text \<open>Blocks with one root: any two of them have a common ancestor.\<close>

lemma lowered_heights:
  assumes "wf_tree h A" "a \<in> A" "b \<in> A" "nHeight (h b) < nHeight (h a)"
  obtains q where "GetAncestor h a (int (nHeight (h b))) = Inr (Some q)" "q \<in> A"
    "nHeight (h q) = nHeight (h b)" "steps_back h (nHeight (h a) - nHeight (h b)) a = Some q"
proof -
  have "0 \<le> int (nHeight (h b))" "int (nHeight (h b)) \<le> int (nHeight (h a))"
    using assms(4) by simp_all
  from assms(1,2) this show thesis
    by (rule GetAncestor_in) (rule that, simp_all)
qed

lemma common_ancestor_max:
  assumes "wf_tree h A" "a \<in> A" "b \<in> A" "nHeight (h a) = nHeight (h b)"
    and "steps_back h k a = Some c" "\<forall>j < k. steps_back h j a \<noteq> steps_back h j b"
    and "steps_back h i a = Some d" "steps_back h j b = Some d"
  shows "nHeight (h d) \<le> nHeight (h c)"
proof -
  note da = back_in(2,3)[OF assms(1,2,7)] and db = back_in(2,3)[OF assms(1,3,8)]
  have "i = j"
    using da db assms(4) by linarith
  then have "k \<le> i"
    using assms(6-8) by (metis not_le)
  then show ?thesis
    using da back_in(2,3)[OF assms(1,2,5)] by linarith
qed

lemma root_unique_common:
  assumes "wf_tree h A" "a \<in> A" "b \<in> A" "nHeight (h a) = nHeight (h b)"
    and "\<And>x y. x \<in> A \<Longrightarrow> y \<in> A \<Longrightarrow> pprev (h x) = None \<Longrightarrow> pprev (h y) = None \<Longrightarrow> x = y"
  shows "steps_back h (nHeight (h a)) a = steps_back h (nHeight (h a)) b"
proof -
  obtain x where x: "steps_back h (nHeight (h a)) a = Some x" "x \<in> A" "nHeight (h x) = 0"
    using back_height[OF assms(1,2) order_refl] by auto
  obtain y where y: "steps_back h (nHeight (h b)) b = Some y" "y \<in> A" "nHeight (h y) = 0"
    using back_height[OF assms(1,3) order_refl] by auto
  have "pprev (h x) = None" "pprev (h y) = None"
    using wf_treeD(2)[OF assms(1)] x(2,3) y(2,3) by (metis nat.distinct(1) not_None_eq)+
  then show ?thesis
    using assms(4,5) x y by simp
qed


lemma LastCommonAncestor_walk:
  assumes "wf_tree h A" "a \<in> A" "b \<in> A"
  obtains a' b' i j where "LastCommonAncestor h a b = (case common_walk h (Some a') (Some b') of None \<Rightarrow> None
      | Some (x, y) \<Rightarrow> Some (assert_out (x = y) (Inr x)))"
    "a' \<in> A" "b' \<in> A" "nHeight (h a') = nHeight (h b')"
    "steps_back h i a = Some a'" "steps_back h j b = Some b'" "nHeight (h a') = min (nHeight (h a)) (nHeight (h b))"
proof -
  consider "nHeight (h b) < nHeight (h a)" | "nHeight (h a) < nHeight (h b)" | "nHeight (h a) = nHeight (h b)"
    by linarith
  then show thesis
  proof cases
    case 1
    from lowered_heights[OF assms 1] obtain q where "GetAncestor h a (int (nHeight (h b))) = Inr (Some q)" "q \<in> A"
      "nHeight (h q) = nHeight (h b)" "steps_back h (nHeight (h a) - nHeight (h b)) a = Some q" .
    then show thesis
      using 1 assms(3) by (intro that[of q b _ 0]) (simp_all add: LastCommonAncestor_def)
  next
    case 2
    from lowered_heights[OF assms(1,3,2) 2] obtain q where "GetAncestor h b (int (nHeight (h a))) = Inr (Some q)" "q \<in> A"
      "nHeight (h q) = nHeight (h a)" "steps_back h (nHeight (h b) - nHeight (h a)) b = Some q" .
    then show thesis
      using 2 assms(2) by (intro that[of a q 0]) (simp_all add: LastCommonAncestor_def)
  next
    case 3
    then show thesis
      using assms(2,3) by (intro that[of a b 0 0]) (simp_all add: LastCommonAncestor_def)
  qed
qed

lemma LastCommonAncestor_value:
  assumes "wf_tree h A" "a \<in> A" "b \<in> A"
    and root: "\<And>x y. x \<in> A \<Longrightarrow> y \<in> A \<Longrightarrow> pprev (h x) = None \<Longrightarrow> pprev (h y) = None \<Longrightarrow> x = y"
  shows "\<exists>c. LastCommonAncestor h a b = Some (Inr (Some c)) \<and>
    (\<exists>i. steps_back h i a = Some c) \<and> (\<exists>j. steps_back h j b = Some c) \<and>
    (\<forall>i j d. steps_back h i a = Some d \<and> steps_back h j b = Some d \<longrightarrow> nHeight (h d) \<le> nHeight (h c))"
proof -
  from LastCommonAncestor_walk[OF assms(1-3)] obtain a' b' i j where
    w: "LastCommonAncestor h a b = (case common_walk h (Some a') (Some b') of None \<Rightarrow> None
      | Some (x, y) \<Rightarrow> Some (assert_out (x = y) (Inr x)))"
    and in': "a' \<in> A" "b' \<in> A" "nHeight (h a') = nHeight (h b')"
    and sb: "steps_back h i a = Some a'" "steps_back h j b = Some b'"
    and hm: "nHeight (h a') = min (nHeight (h a)) (nHeight (h b))" .
  have "\<not> (\<forall>j \<le> nHeight (h a'). steps_back h j a' \<noteq> steps_back h j b')"
    using root_unique_common[OF assms(1) in' root] by blast
  then obtain k c where c: "steps_back h k a' = Some c" "steps_back h k b' = Some c"
      "\<forall>j < k. steps_back h j a' \<noteq> steps_back h j b'"
      "common_walk h (Some a') (Some b') = Some (Some c, Some c)"
    using common_walk_value[OF assms(1) in'] by blast
  have "nHeight (h d) \<le> nHeight (h c)" if d: "steps_back h m a = Some d" "steps_back h n b = Some d" for m n d
  proof -
    note da = back_in(2,3)[OF assms(1,2) d(1)] and db = back_in(2,3)[OF assms(1,3) d(2)]
    have "i \<le> m" "j \<le> n"
      using da db back_in(2,3)[OF assms(1,2) sb(1)] back_in(2,3)[OF assms(1,3) sb(2)] in'(3) hm by linarith+
    then have "steps_back h (m - i) a' = Some d" "steps_back h (n - j) b' = Some d"
      using steps_back_via[OF sb(1)] steps_back_via[OF sb(2)] d by metis+
    then show ?thesis
      using common_ancestor_max[OF assms(1) in' c(1,3)] by blast
  qed
  moreover have "steps_back h (i + k) a = Some c" "steps_back h (j + k) b = Some c"
    using back_add[of h i k a] back_add[of h j k b] sb c(1,2) by simp_all
  moreover have "LastCommonAncestor h a b = Some (Inr (Some c))"
    using w c(4) by (simp add: assert_out_def)
  ultimately show ?thesis by blast
qed

text \<open>The locator loop visits ancestors of its start, at falling heights, down to the root.\<close>

lemma locator_loop_value:
  assumes "wf_tree h A" "t \<in> A" "p \<in> A" "0 < nStep"
  shows "\<exists>qs. locator_loop h (path_to h t) (Some p) nStep vHave =
      Some (Inr (vHave @ map (\<lambda>q. phashBlock (h q)) (p # qs))) \<and>
    (\<forall>q \<in> set qs. \<exists>k. steps_back h k p = Some q) \<and>
    sorted_wrt (\<lambda>x y. nHeight (h y) < nHeight (h x)) (p # qs) \<and> nHeight (h (last (p # qs))) = 0"
  using assms(3,4)
proof (induction "nHeight (h p)" arbitrary: p nStep vHave rule: less_induct)
  case less
  let ?v = "path_to h t" and ?H = "vHave @ [phashBlock (h p)]"
  show ?case
  proof (cases "nHeight (h p) = 0")
    case True
    then show ?thesis
      by (intro exI[of _ "[]"]) (subst locator_loop.simps, simp)
  next
    case False
    define n where "n = max (int (nHeight (h p)) - int nStep) 0"
    define nStep' where "nStep' = (if length ?H > 10 then nStep * 2 else nStep)"
    have n: "0 \<le> n" "n < int (nHeight (h p))" "n \<le> int (nHeight (h p))" "nat n < nHeight (h p)"
      using False less.prems(2) by (auto simp: n_def max_def)
    from GetAncestor_in[OF assms(1) less.prems(1) n(1,3)] obtain q where
      q: "GetAncestor h p n = Inr (Some q)" "q \<in> A" "int (nHeight (h q)) = n"
        "steps_back h (nHeight (h p) - nat n) p = Some q" .
    have chain: "chain_at ?v n = Some q" if "chain_Contains h ?v p"
    proof -
      have hp: "nHeight (h p) \<le> nHeight (h t)" "?v ! nHeight (h p) = Some p"
        using that by (auto simp: chain_Contains_def chain_at_def split: if_splits)
      have "?v ! nat n = Some q"
        using path_closed[OF assms(1,2) hp, of "nat n"] n(4) q(4) by simp
      then show ?thesis
        using n hp(1) by (simp add: chain_at_def)
    qed
    have step: "locator_loop h ?v (Some p) nStep vHave = locator_loop h ?v (Some q) nStep' ?H"
      using False chain q(1)
      by (subst locator_loop.simps) (simp add: Let_def n_def[symmetric] nStep'_def)
    have lt: "nHeight (h q) < nHeight (h p)" "0 < nStep'"
      using q(3) n(2) less.prems(2) by (simp_all add: nStep'_def)
    obtain qs where qs: "locator_loop h ?v (Some q) nStep' ?H =
        Some (Inr (?H @ map (\<lambda>q. phashBlock (h q)) (q # qs)))"
      "\<forall>x \<in> set qs. \<exists>k. steps_back h k q = Some x"
      "sorted_wrt (\<lambda>x y. nHeight (h y) < nHeight (h x)) (q # qs)" "nHeight (h (last (q # qs))) = 0"
      using less.hyps[OF lt(1) q(2) lt(2), of ?H] by blast
    have "steps_back h (nHeight (h p) - nat n + k) p = steps_back h k q" for k
      using q(4) back_add[of h "nHeight (h p) - nat n" k p] by simp
    then have "\<forall>x \<in> set (q # qs). \<exists>k. steps_back h k p = Some x"
      using qs(2) q(4) by (metis set_ConsD)
    moreover have "sorted_wrt (\<lambda>x y. nHeight (h y) < nHeight (h x)) (p # q # qs)"
      using qs(3) lt(1) by auto
    ultimately show ?thesis
      using step qs(1,4) by (intro exI[of _ "q # qs"]) simp
  qed
qed


section \<open>The work of a block\<close>

lemma not_div_plus_one:
  assumes "0 < (t :: nat)" "t < m"
  shows "(m - 1 - t) div (t + 1) + 1 = m div (t + 1)"
proof -
  have "m = (m - 1 - t) + (t + 1)"
    using assms by simp
  then have "m div (t + 1) = ((m - 1 - t) + (t + 1)) div (t + 1)"
    by simp
  also have "\<dots> = (m - 1 - t) div (t + 1) + 1"
    by (rule div_add_self2) simp
  finally show ?thesis by simp
qed

lemma ucast_u32_0: "(ucast (x :: u32) :: u64) = 0 \<longleftrightarrow> x = 0"
  by (metis unat_ucast_u32 unsigned_0 unsigned_eq_0_iff)

lemma EqualTo_0: "wf_uint a \<Longrightarrow> EqualTo a 0 \<longleftrightarrow> uval a = 0"
proof -
  assume "wf_uint a"
  then have "length a = 8" by (simp add: wf_uint_def WIDTH_def)
  then obtain a0 a1 a2 a3 a4 a5 a6 a7 where "a = [a0, a1, a2, a3, a4, a5, a6, a7]"
    by (auto simp: numeral_eq_Suc length_Suc_conv)
  then show ?thesis
    unfolding uval_0_iff by (simp add: EqualTo_def WIDTH_def upt_rec_numeral ucast_u32_0) blast
qed

lemma even_less_pred: "even (x :: nat) \<Longrightarrow> even m \<Longrightarrow> x < m \<Longrightarrow> x < m - 1"
  by presburger

lemma compact_value_lt:
  assumes "m < 2 ^ 23"
  shows "compact_value sz m mod 2 ^ 256 < 2 ^ 256 - 1"
proof (cases "sz \<le> 3")
  case True
  have "m div 256 ^ (3 - sz) < 2 ^ 23"
    using assms by (rule le_less_trans[OF div_le_dividend])
  then show ?thesis
    using True by (simp add: compact_value_def)
next
  case False
  then have "even (compact_value sz m)"
    by (simp add: compact_value_def)
  then have "even (compact_value sz m mod 2 ^ 256)"
    by (intro dvd_mod) simp_all
  moreover have "even (2 ^ 256 :: nat)"
    by simp
  moreover have "compact_value sz m mod 2 ^ 256 < 2 ^ 256"
    by (rule mod_less_divisor) simp
  ultimately show ?thesis
    by (rule even_less_pred)
qed

lemma GetBlockProof_value:
  assumes "SetCompact (nBits b) = (t, False, False)" "uval t \<noteq> 0"
  shows "\<exists>w. GetBlockProof b = Inr w \<and> wf_uint w \<and> uval w = 2 ^ 256 div (uval t + 1)"
proof -
  have t: "wf_uint t"
    using SetCompact_fst(1)[of "nBits b"] assms(1) by simp
  have lt: "uval t < 2 ^ 256 - 1"
    using SetCompact_fst(2)[of "nBits b"] assms(1) compact_value_lt[of "unat (nBits b) mod 2 ^ 23"]
    by (simp only: fst_conv) (rule compact_value_lt, simp)
  let ?d = "add_uint t (uint_of_u64 1)"
  have d: "wf_uint ?d" "uval ?d = uval t + 1"
    using t lt uval_add[OF t, of "uint_of_u64 1"] by (simp_all only: wf_add wf_of_u64 uval_of_u64 unsigned_1) simp
  obtain q where q: "div_uint (not_uint t) ?d = Inr q" "wf_uint q" "uval q = uval (not_uint t) div uval ?d"
    using div_uint_value[of "not_uint t" ?d] t d by auto
  have m: "uval q + 1 = 2 ^ 256 div (uval t + 1)"
    unfolding q(3) d(2) uval_not_wf[OF t]
    by (rule not_div_plus_one) (use assms(2) uval_wf_less[OF t] in simp_all)
  have "uval q + 1 < 2 ^ 256"
    unfolding m using assms(2) by (intro div_less_dividend) simp_all
  then have "uval (add_uint q (uint_of_u64 1)) = uval q + 1"
    using uval_add[OF q(2) wf_of_u64, of 1] by (simp only: uval_of_u64 unsigned_1 mod_less)
  moreover have "GetBlockProof b = Inr (add_uint q (uint_of_u64 1))"
    using assms(1,2) q(1) EqualTo_0[OF t] by (simp add: GetBlockProof_def)
  ultimately show ?thesis
    using q(2) m by simp
qed


declare walk_back.simps [code] common_walk.simps [code] set_tip_loop.simps [code] locator_loop.simps [code]

section \<open>Properties\<close>

lemma path_nonempty [simp]: "path_to h p \<noteq> []"
  by (metis length_path list.size(3) nat.distinct(1))

text \<open>A tree of seven blocks: a trunk at heights 0 to 4 and a branch of two blocks that leaves it at height 2.\<close>

definition demo_block :: "ptr option \<Rightarrow> ptr option \<Rightarrow> nat \<Rightarrow> CBlockIndex" where
  "demo_block pr sk n = null_index\<lparr>phashBlock := [of_nat n], pprev := pr, pskip := sk, nHeight := n,
     nBits := 0x1d00ffff\<rparr>"

definition demo_mem :: block_mem where
  "demo_mem p = (if p = 0 then demo_block None None 0
     else if p = 1 then demo_block (Some 0) (Some 0) 1
     else if p = 2 then demo_block (Some 1) (Some 0) 2
     else if p = 3 then demo_block (Some 2) (Some 1) 3
     else if p = 4 then demo_block (Some 3) (Some 0) 4
     else if p = 5 then demo_block (Some 2) (Some 1) 3
     else demo_block (Some 5) (Some 0) 4)"

definition demo_ptrs :: "ptr set" where
  "demo_ptrs = {0, 1, 2, 3, 4, 5, 6}"

lemma demo_ptrs_in [simp]: "4 \<in> demo_ptrs" "6 \<in> demo_ptrs"
  by (simp_all add: demo_ptrs_def)

lemma demo_mem_wf: "wf_tree demo_mem demo_ptrs"
  by code_simp

lemma demo_mem_root: "x \<in> demo_ptrs \<Longrightarrow> pprev (demo_mem x) = None \<Longrightarrow> x = 0"
  by (auto simp: demo_ptrs_def demo_mem_def demo_block_def split: if_splits)

text \<open>
  C5. Skip list: on a well-formed block tree \<^verbatim>\<open>GetAncestor\<close> never trips its assertion and agrees with
  following \<open>pprev\<close> one block at a time; inside the range of heights it returns the block of the tree at
  that height, outside it returns null.
\<close>

theorem GetAncestor_refines_walk:
  assumes "wf_tree h A" "p \<in> A"
  shows "GetAncestor h p height =
      Inr (if 0 \<le> height \<and> height \<le> int (nHeight (h p))
           then steps_back h (nHeight (h p) - nat height) p else None) \<and>
    (0 \<le> height \<and> height \<le> int (nHeight (h p)) \<longrightarrow>
      (\<exists>q \<in> A. GetAncestor h p height = Inr (Some q) \<and> int (nHeight (h q)) = height))"
  using GetAncestor_value[OF assms, of height] GetAncestor_in[OF assms, of height] by metis

theorem GetAncestor_refines_walk_witness:
  "wf_tree demo_mem demo_ptrs \<and> GetAncestor demo_mem 6 2 = Inr (Some 2) \<and>
   (\<exists>q \<in> demo_ptrs. GetAncestor demo_mem 6 2 = Inr (Some q) \<and> int (nHeight (demo_mem q)) = 2)"
proof -
  have "GetAncestor demo_mem 6 2 = Inr (Some 2)" "2 \<le> int (nHeight (demo_mem 6))"
    by code_simp+
  then show ?thesis
    using demo_mem_wf GetAncestor_refines_walk[OF demo_mem_wf demo_ptrs_in(2), of 2] by force
qed

text \<open>
  C15. The active chain: \<^verbatim>\<open>SetTip\<close> returns from any chain it built before, without a write out of range,
  and the vector then holds exactly the path from the root to the new tip: its tip is that block, its
  height is that block's height, and it contains precisely that block's ancestors.
\<close>

theorem SetTip_builds_path:
  assumes "wf_tree h A" "wf_chain h A v" "p \<in> A"
  shows "\<exists>w. SetTip h v (Some p) = Some (Inr w) \<and> wf_chain h A w \<and> chain_Tip w = Some p \<and>
    chain_Height w = int (nHeight (h p)) \<and>
    (\<forall>q. chain_Contains h w q \<longleftrightarrow> (\<exists>k. steps_back h k p = Some q)) \<and>
    (\<forall>i \<le> nHeight (h p). chain_at w (int i) = steps_back h (nHeight (h p) - i) p)"
  using SetTip_value[OF assms] assms(3) chain_Contains_path[OF assms(1,3)]
  by (auto simp: wf_chain_def chain_Tip_def chain_Height_def chain_at_def nth_path)

theorem SetTip_builds_path_witness:
  "wf_chain demo_mem demo_ptrs (path_to demo_mem 4) \<and>
   (\<exists>w. SetTip demo_mem (path_to demo_mem 4) (Some 6) = Some (Inr w) \<and> chain_Tip w = Some 6 \<and>
      chain_Contains demo_mem w 5 \<and> \<not> chain_Contains demo_mem w 3)"
proof -
  have c: "wf_chain demo_mem demo_ptrs (path_to demo_mem 4)"
    by (auto simp: wf_chain_def)
  have "SetTip demo_mem (path_to demo_mem 4) (Some 6) = Some (Inr (map Some [0, 1, 2, 5, 6]))"
    by code_simp
  moreover have "chain_Contains demo_mem (map Some [0, 1, 2, 5, 6]) 5"
    "\<not> chain_Contains demo_mem (map Some [0, 1, 2, 5, 6]) 3"
    by code_simp+
  ultimately show ?thesis
    using c SetTip_builds_path[OF demo_mem_wf c, of 6] by auto
qed

text \<open>
  C16. Forks: \<^verbatim>\<open>FindFork\<close> on the active chain that ends in \<open>t\<close> returns; a block it returns is an
  ancestor of the argument, lies on the chain and is the highest such block, and it returns null only
  when the argument has no ancestor on the chain.
\<close>

theorem FindFork_highest_common:
  assumes "wf_tree h A" "t \<in> A" "p \<in> A"
  shows "\<exists>r. FindFork h (path_to h t) (Some p) = Some (Inr r) \<and>
    (case r of
       None \<Rightarrow> \<forall>k q. steps_back h k p = Some q \<longrightarrow> \<not> chain_Contains h (path_to h t) q
     | Some f \<Rightarrow> (\<exists>k. steps_back h k p = Some f) \<and> chain_Contains h (path_to h t) f \<and>
         (\<forall>k q. steps_back h k p = Some q \<and> chain_Contains h (path_to h t) q \<longrightarrow>
            nHeight (h q) \<le> nHeight (h f)))"
  using FindFork_value[OF assms] unfolding chain_Contains_path[OF assms(1,2)]
  by (elim ex_forward conj_forward) (auto split: option.splits)

theorem FindFork_highest_common_witness:
  "FindFork demo_mem (path_to demo_mem 4) (Some 6) = Some (Inr (Some 2)) \<and>
   chain_Contains demo_mem (path_to demo_mem 4) 2"
proof -
  have "FindFork demo_mem (path_to demo_mem 4) (Some 6) = Some (Inr (Some 2))"
    by code_simp
  then show ?thesis
    using FindFork_highest_common[OF demo_mem_wf, of 4 6] by auto
qed

text \<open>
  C17. Last common ancestor: in a well-formed tree with one root \<^verbatim>\<open>LastCommonAncestor\<close> returns a block
  (the assertion that the two walks meet holds) that is an ancestor of both arguments, and no common
  ancestor is higher.
\<close>

theorem LastCommonAncestor_highest:
  assumes "wf_tree h A" "a \<in> A" "b \<in> A"
    and "\<And>x y. x \<in> A \<Longrightarrow> y \<in> A \<Longrightarrow> pprev (h x) = None \<Longrightarrow> pprev (h y) = None \<Longrightarrow> x = y"
  shows "\<exists>c. LastCommonAncestor h a b = Some (Inr (Some c)) \<and>
    (\<exists>i. steps_back h i a = Some c) \<and> (\<exists>j. steps_back h j b = Some c) \<and>
    (\<forall>i j d. steps_back h i a = Some d \<and> steps_back h j b = Some d \<longrightarrow> nHeight (h d) \<le> nHeight (h c))"
  using assms(1-3) by (rule LastCommonAncestor_value) (rule assms(4))

theorem LastCommonAncestor_highest_witness:
  "LastCommonAncestor demo_mem 4 6 = Some (Inr (Some 2)) \<and> (\<exists>i. steps_back demo_mem i 4 = Some 2)"
proof -
  have "LastCommonAncestor demo_mem 4 6 = Some (Inr (Some 2))"
    by code_simp
  moreover have "x = y" if "x \<in> demo_ptrs" "y \<in> demo_ptrs"
      "pprev (demo_mem x) = None" "pprev (demo_mem y) = None" for x y
    using demo_mem_root[OF that(1,3)] demo_mem_root[OF that(2,4)] by simp
  ultimately show ?thesis
    using LastCommonAncestor_highest[OF demo_mem_wf, of 4 6] by fastforce
qed

text \<open>
  C18. Locators: for a chain that ends in \<open>t\<close>, \<^verbatim>\<open>GetLocator\<close> returns the hashes of the block asked for
  (the tip when none is given) and of some of its ancestors, at strictly falling heights and ending at
  height 0, whether it moves along the chain's vector or along the skip list.
\<close>

theorem GetLocator_reaches_genesis:
  assumes "wf_tree h A" "t \<in> A" "p \<in> A"
  shows "\<exists>qs. GetLocator h (path_to h t) (Some p) = Some (Inr (map (\<lambda>q. phashBlock (h q)) (p # qs))) \<and>
    (\<forall>q \<in> set qs. \<exists>k. steps_back h k p = Some q) \<and>
    sorted_wrt (\<lambda>x y. nHeight (h y) < nHeight (h x)) (p # qs) \<and> nHeight (h (last (p # qs))) = 0 \<and>
    GetLocator h (path_to h t) None = GetLocator h (path_to h t) (Some t)"
proof -
  have "chain_Tip (path_to h t) = Some t"
    by (simp add: chain_Tip_def nth_path)
  then show ?thesis
    using locator_loop_value[OF assms zero_less_one, of "[]"] by (simp add: GetLocator_def)
qed

theorem GetLocator_reaches_genesis_witness:
  "GetLocator demo_mem (path_to demo_mem 4) (Some 6) = Some (Inr [[4], [3], [2], [1], [0]]) \<and>
   GetLocator demo_mem (path_to demo_mem 4) None = GetLocator demo_mem (path_to demo_mem 4) (Some 4)"
proof -
  have "GetLocator demo_mem (path_to demo_mem 4) (Some 6) = Some (Inr [[4], [3], [2], [1], [0]])"
    by code_simp
  then show ?thesis
    using GetLocator_reaches_genesis[OF demo_mem_wf, of 4 6] by auto
qed

text \<open>
  C19. Work: for a target that is neither negative nor zero nor too large, \<^verbatim>\<open>GetBlockProof\<close> is the
  expected number of hashes \<open>2 ^ 256 div (target + 1)\<close> although \<open>2 ^ 256\<close> does not fit its type; for any
  other target it is zero. It never divides by zero.
\<close>

theorem GetBlockProof_expected_hashes:
  assumes "SetCompact (nBits b) = (t, neg, ovf)"
  shows "\<exists>w. GetBlockProof b = Inr w \<and> wf_uint w \<and>
    uval w = (if neg \<or> ovf \<or> uval t = 0 then 0 else 2 ^ 256 div (uval t + 1))"
proof (cases "neg \<or> ovf \<or> uval t = 0")
  case True
  have "wf_uint t"
    using SetCompact_fst(1)[of "nBits b"] assms by simp
  then have "GetBlockProof b = Inr (uint_of_u64 0)"
    using True assms EqualTo_0 by (auto simp: GetBlockProof_def)
  then show ?thesis
    using True by (simp add: uval_of_u64)
next
  case False
  then show ?thesis
    using GetBlockProof_value[of b t] assms by (simp only: if_False) blast
qed

theorem GetBlockProof_expected_hashes_witness:
  "SetCompact (nBits (demo_mem 3)) = ([0, 0, 0, 0, 0, 0, 0xffff0000, 0], False, False) \<and>
   (\<exists>w. GetBlockProof (demo_mem 3) = Inr w \<and> uval w = 4295032833)"
proof -
  have c: "SetCompact (nBits (demo_mem 3)) = ([0, 0, 0, 0, 0, 0, 0xffff0000, 0], False, False)"
    by code_simp
  then show ?thesis
    using GetBlockProof_expected_hashes[OF c] by auto
qed

text \<open>
  C20. Search by time: when the running maximum of the block times does not fall along the chain,
  the binary search of \<^verbatim>\<open>FindEarliestAtLeast\<close> returns the first block whose \<open>nTimeMax\<close> reaches the
  given time, and null exactly when there is none.
\<close>

theorem FindEarliestAtLeast_first:
  assumes "\<And>i j. i \<le> j \<Longrightarrow> j < length v \<Longrightarrow>
      GetBlockTimeMax (h (the (v ! i))) \<le> GetBlockTimeMax (h (the (v ! j)))"
  shows "(FindEarliestAtLeast h v t = None \<and> (\<forall>i < length v. GetBlockTimeMax (h (the (v ! i))) < t)) \<or>
    (\<exists>i < length v. FindEarliestAtLeast h v t = v ! i \<and> t \<le> GetBlockTimeMax (h (the (v ! i))) \<and>
       (\<forall>j < i. GetBlockTimeMax (h (the (v ! j))) < t))"
proof -
  let ?P = "\<lambda>b. GetBlockTimeMax (h (the b)) < t"
  let ?l = "lower_bound ?P v 0 (length v)"
  have mono: "?P (v ! i)" if "i \<le> j" "j < length v" "?P (v ! j)" for i j
    using assms[OF that(1,2)] that(3) by linarith
  have "(\<forall>i < ?l. ?P (v ! i)) \<and> (\<forall>i. ?l \<le> i \<and> i < length v \<longrightarrow> \<not> ?P (v ! i)) \<and> ?l \<le> length v"
    by (rule lower_bound_value[where P = ?P]) (simp, erule (2) mono, simp_all)
  then have l: "\<forall>i < ?l. ?P (v ! i)" "\<forall>i. ?l \<le> i \<and> i < length v \<longrightarrow> \<not> ?P (v ! i)" "?l \<le> length v"
    by blast+
  show ?thesis
  proof (cases "?l = length v")
    case True
    then show ?thesis
      using l(1) by (simp add: FindEarliestAtLeast_def)
  next
    case False
    then have "?l < length v" "\<not> ?P (v ! ?l)"
      using l(2,3) by auto
    then show ?thesis
      using l(1) False by (intro disjI2 exI[of _ ?l]) (auto simp: FindEarliestAtLeast_def)
  qed
qed

theorem FindEarliestAtLeast_first_witness:
  "FindEarliestAtLeast (\<lambda>p. null_index\<lparr>nTimeMax := of_nat (10 * p)\<rparr>) [Some 0, Some 1, Some 2] 15 = Some 2 \<and>
   15 \<le> GetBlockTimeMax (null_index\<lparr>nTimeMax := of_nat (10 * 2)\<rparr>)"
proof -
  let ?h = "\<lambda>p. null_index\<lparr>nTimeMax := of_nat (10 * p)\<rparr>" and ?v = "[Some 0, Some 1, Some 2]"
  have f: "FindEarliestAtLeast ?h ?v 15 = Some 2"
    by code_simp
  have "\<forall>j < length ?v. \<forall>i \<le> j. GetBlockTimeMax (?h (the (?v ! i))) \<le> GetBlockTimeMax (?h (the (?v ! j)))"
    by code_simp
  then have "GetBlockTimeMax (?h (the (?v ! i))) \<le> GetBlockTimeMax (?h (the (?v ! j)))"
      if "i \<le> j" "j < length ?v" for i j
    using that by blast
  from FindEarliestAtLeast_first[of ?v ?h 15, OF this] show ?thesis
    using f by auto
qed

end
