(* ===== verification/Uint256.thy ===== *)
theory Uint256
  imports Prelude
begin

unbundle bit_operations_syntax

text \<open>
  Opaque blobs and their hexadecimal text (src/src/uint256.h, uint256.cpp and the hex functions of
  utilstrencodings). A blob is its list of bytes; text is a list of characters, read as the C string
  that ends at its end.
\<close>

section \<open>Characters\<close>

definition char_code :: "char \<Rightarrow> int" where
  "char_code c = of_char c"

definition isspace :: "char \<Rightarrow> bool" where
  "isspace c \<longleftrightarrow> c = CHR '' '' \<or> (9 \<le> char_code c \<and> char_code c \<le> 13)"

definition isdigit :: "char \<Rightarrow> bool" where
  "isdigit c \<longleftrightarrow> 48 \<le> char_code c \<and> char_code c \<le> 57"

definition tolower :: "char \<Rightarrow> char" where
  "tolower c = (if 65 \<le> char_code c \<and> char_code c \<le> 90 then char_of (of_char c + 32 :: nat) else c)"

section \<open>Hexadecimal digits\<close>

text \<open>The table \<^verbatim>\<open>p_util_hexdigit\<close> by its ranges.\<close>

definition HexDigit :: "char \<Rightarrow> int" where
  "HexDigit c = (let v = char_code c in
     if 48 \<le> v \<and> v \<le> 57 then v - 48
     else if 65 \<le> v \<and> v \<le> 70 then v - 55
     else if 97 \<le> v \<and> v \<le> 102 then v - 87
     else - 1)"

definition IsHex :: "string \<Rightarrow> bool" where
  "IsHex s \<longleftrightarrow> list_all (\<lambda>c. HexDigit c \<ge> 0) s \<and> length s > 0 \<and> length s mod 2 = 0"

definition IsHexNumber :: "string \<Rightarrow> bool" where
  "IsHexNumber s =
     (let starting_location = (if length s > 2 \<and> s ! 0 = CHR ''0'' \<and> s ! 1 = CHR ''x'' then 2 else 0)
      in list_all (\<lambda>c. HexDigit c \<ge> 0) (drop starting_location s) \<and> length s > starting_location)"

definition hexmap :: string where "hexmap = ''0123456789abcdef''"

definition hex_byte :: "u8 \<Rightarrow> string" where
  "hex_byte v = [hexmap ! unat (drop_bit 4 v), hexmap ! unat (v AND 15)]"

text \<open>\<^verbatim>\<open>HexStr\<close> with \<^verbatim>\<open>fSpaces\<close> at its default, false: no spaces between the bytes.\<close>

definition HexStr :: "bytes \<Rightarrow> string" where
  "HexStr v = concat (map hex_byte v)"

text \<open>
  \<^verbatim>\<open>ParseHex\<close>: a pair of digits gives a byte; spaces are skipped before a pair, not inside one, and any
  other character ends the parse.
\<close>

lemma dropWhile_shorter: "dropWhile P xs = ys \<Longrightarrow> length ys \<le> length xs"
  using length_dropWhile_le[of P xs] by simp

function ParseHex :: "string \<Rightarrow> bytes" where
  "ParseHex psz = (case dropWhile isspace psz of
     c1 # c2 # rest \<Rightarrow>
       if HexDigit c1 = - 1 then []
       else if HexDigit c2 = - 1 then []
       else (push_bit 4 (of_int (HexDigit c1)) OR of_int (HexDigit c2)) # ParseHex rest
   | _ \<Rightarrow> [])"
  by pat_completeness auto
termination
  by (relation "measure length") (auto dest!: dropWhile_shorter)

declare ParseHex.simps [simp del]

section \<open>Blobs\<close>

type_synonym base_blob = bytes

definition blob_IsNull :: "base_blob \<Rightarrow> bool" where
  "blob_IsNull b \<longleftrightarrow> list_all (\<lambda>x. x = 0) b"

text \<open>\<^verbatim>\<open>memcmp\<close>: the difference of the first bytes that differ.\<close>

fun blob_Compare :: "base_blob \<Rightarrow> base_blob \<Rightarrow> int" where
  "blob_Compare (x # xs) (y # ys) = (if x = y then blob_Compare xs ys else uint x - uint y)"
| "blob_Compare _ _ = 0"

definition GetHex :: "base_blob \<Rightarrow> string" where
  "GetHex b = HexStr (rev b)"

text \<open>The filling loop of \<^verbatim>\<open>SetHex\<close>: the digits from the last to the first, two for a byte.\<close>

fun hex_fill :: "nat \<Rightarrow> string \<Rightarrow> base_blob" where
  "hex_fill 0 ds = []"
| "hex_fill (Suc n) [] = 0 # hex_fill n []"
| "hex_fill (Suc n) [d] = of_int (HexDigit d) # hex_fill n []"
| "hex_fill (Suc n) (d # e # ds) =
     (of_int (HexDigit d) OR push_bit 4 (of_int (HexDigit e))) # hex_fill n ds"

definition SetHex :: "nat \<Rightarrow> string \<Rightarrow> base_blob" where
  "SetHex width psz =
     (let psz = dropWhile isspace psz;
          psz = (case psz of c0 # c1 # rest \<Rightarrow> if c0 = CHR ''0'' \<and> tolower c1 = CHR ''x'' then rest else psz
                 | _ \<Rightarrow> psz);
          digits = takeWhile (\<lambda>c. HexDigit c \<noteq> - 1) psz
      in hex_fill width (rev digits))"

definition uint256S :: "string \<Rightarrow> base_blob" where
  "uint256S str = SetHex 32 str"

definition ReadLE64 :: "bytes \<Rightarrow> u64" where
  "ReadLE64 b = (\<Sum>i<8. push_bit (8 * i) (ucast (b ! i)))"

definition GetUint64 :: "base_blob \<Rightarrow> nat \<Rightarrow> u64" where
  "GetUint64 b pos = (let q = drop (pos * 8) b in
     ucast (q ! 0) OR push_bit 8 (ucast (q ! 1)) OR push_bit 16 (ucast (q ! 2)) OR
     push_bit 24 (ucast (q ! 3)) OR push_bit 32 (ucast (q ! 4)) OR push_bit 40 (ucast (q ! 5)) OR
     push_bit 48 (ucast (q ! 6)) OR push_bit 56 (ucast (q ! 7)))"

definition GetCheapHash :: "base_blob \<Rightarrow> u64" where
  "GetCheapHash b = ReadLE64 b"

definition GetNibble :: "base_blob \<Rightarrow> nat \<Rightarrow> u8" where
  "GetNibble b index = (let index = 63 - index in
     if index mod 2 = 1 then drop_bit 4 (b ! (index div 2)) else b ! (index div 2) AND 0x0F)"


section \<open>Round trips\<close>

lemma nibble_less: "unat (drop_bit 4 (v :: u8)) < 16" "unat (v AND 15) < 16"
proof -
  have "unat v < 2 ^ 8"
    using unsigned_less[of v] by simp
  then show "unat (drop_bit 4 v) < 16"
    unfolding unat_drop_bit_div by simp
  have "v AND 15 \<le> 15"
    by (rule word_and_le1)
  then show "unat (v AND 15) < 16"
    by (simp add: word_le_nat_alt)
qed

lemma nibbles_join: "push_bit 4 (drop_bit 4 v) OR (v AND 15) = (v :: u8)"
proof -
  have "v AND 15 = take_bit 4 v"
    by (simp add: take_bit_eq_mask mask_eq_exp_minus_1)
  then show ?thesis
    by (simp only:) (intro bit_eqI, auto simp: bit_simps)
qed

lemma hexmap_digit:
  assumes "n < 16"
  shows "HexDigit (hexmap ! n) = int n" "\<not> isspace (hexmap ! n)" "tolower (hexmap ! n) \<noteq> CHR ''x''"
    "HexDigit (hexmap ! n) \<noteq> - 1" "0 \<le> HexDigit (hexmap ! n)"
proof -
  have "\<forall>n < 16. HexDigit (hexmap ! n) = int n \<and> \<not> isspace (hexmap ! n) \<and> tolower (hexmap ! n) \<noteq> CHR ''x''"
    by code_simp
  then show d: "HexDigit (hexmap ! n) = int n" "\<not> isspace (hexmap ! n)" "tolower (hexmap ! n) \<noteq> CHR ''x''"
    using assms by blast+
  show "HexDigit (hexmap ! n) \<noteq> - 1" "0 \<le> HexDigit (hexmap ! n)"
    unfolding d(1) by simp_all
qed

lemmas hex_digits = hexmap_digit[OF nibble_less(1)] hexmap_digit[OF nibble_less(2)]

lemma ParseHex_HexStr: "ParseHex (HexStr v) = v"
proof (induction v)
  case Nil
  then show ?case by (simp add: HexStr_def ParseHex.simps)
next
  case (Cons x v)
  have "ParseHex (HexStr (x # v)) =
      (push_bit 4 (of_int (HexDigit (hexmap ! unat (drop_bit 4 x)))) OR
       of_int (HexDigit (hexmap ! unat (x AND 15)))) # ParseHex (HexStr v)"
    by (subst ParseHex.simps) (simp add: HexStr_def hex_byte_def hex_digits(2-5,7-10))
  then show ?case
    using Cons by (simp add: hex_digits nibbles_join)
qed

lemma hex_fill_digits:
  "hex_fill (length b) (concat (map (\<lambda>x. rev (hex_byte x)) b)) = b"
proof (induction b)
  case (Cons x b)
  then show ?case
    by (simp add: hex_byte_def hex_digits or.commute[of "_ AND 15"] nibbles_join)
qed simp

lemma HexStr_digit: "c \<in> set (HexStr v) \<Longrightarrow> HexDigit c \<noteq> - 1 \<and> \<not> isspace c \<and> tolower c \<noteq> CHR ''x''"
  by (auto simp: HexStr_def hex_byte_def hex_digits(2-5,7-10))

lemma SetHex_GetHex: "SetHex (length b) (GetHex b) = b"
proof -
  let ?s = "GetHex b"
  have d: "c \<in> set ?s \<Longrightarrow> HexDigit c \<noteq> - 1 \<and> \<not> isspace c \<and> tolower c \<noteq> CHR ''x''" for c
    using HexStr_digit by (simp add: GetHex_def)
  then have "dropWhile isspace ?s = ?s"
    by (cases ?s) auto
  moreover have "(case ?s of c0 # c1 # rest \<Rightarrow> if c0 = CHR ''0'' \<and> tolower c1 = CHR ''x'' then rest else ?s
      | _ \<Rightarrow> ?s) = ?s"
    using d by (auto split: list.splits)
  moreover have "takeWhile (\<lambda>c. HexDigit c \<noteq> - 1) ?s = ?s"
    using d by (simp add: takeWhile_eq_all_conv)
  moreover have "rev ?s = concat (map (\<lambda>x. rev (hex_byte x)) b)"
    by (simp add: GetHex_def HexStr_def rev_concat rev_map comp_def)
  ultimately show ?thesis
    using hex_fill_digits[of b] by (simp only: SetHex_def Let_def)
qed

lemma IsHex_HexStr: "v \<noteq> [] \<Longrightarrow> IsHex (HexStr v)"
proof -
  have "HexDigit c \<ge> 0" if "c \<in> set (HexStr v)" for c
    using that by (auto simp: HexStr_def hex_byte_def hex_digits(2-5,7-10))
  moreover have "length (HexStr v) = 2 * length v"
    by (induction v) (simp_all add: HexStr_def hex_byte_def)
  ultimately show "v \<noteq> [] \<Longrightarrow> IsHex (HexStr v)"
    by (simp add: IsHex_def list_all_iff)
qed

lemma blob_Compare_0: "length a = length b \<Longrightarrow> blob_Compare a b = 0 \<longleftrightarrow> a = b"
  by (induction a b rule: blob_Compare.induct) (auto simp: word_uint_eq_iff)

text \<open>
  C32. Hexadecimal text: \<^verbatim>\<open>HexStr\<close> always gives text that \<^verbatim>\<open>IsHex\<close> accepts (when there is a byte at all)
  and that \<^verbatim>\<open>ParseHex\<close> reads back; \<^verbatim>\<open>SetHex\<close> reads back what \<^verbatim>\<open>GetHex\<close> prints for a blob of any width.
\<close>

theorem hex_roundtrip:
  "ParseHex (HexStr v) = v \<and> (IsHex (HexStr v) \<longleftrightarrow> v \<noteq> []) \<and> SetHex (length b) (GetHex b) = b"
proof -
  have "\<not> IsHex (HexStr [])"
    by (simp add: IsHex_def HexStr_def)
  then show ?thesis
    using ParseHex_HexStr IsHex_HexStr SetHex_GetHex by blast
qed

end
