(* ===== verification/Params.thy ===== *)
theory Params
  imports Uint256
begin

text \<open>
  Consensus parameters and the main network's values (src/src/consensus/params.h, chainparams.h,
  chainparams.cpp, amount.h). \<^verbatim>\<open>Params\<close> and \<^verbatim>\<open>BIP9Deployment\<close> keep the fields of their structs;
  \<^verbatim>\<open>CChainParams\<close> keeps the fields the modelled code reads.
\<close>

section \<open>Consensus parameters\<close>

datatype DeploymentPos =
    DEPLOYMENT_TESTDUMMY
  | DEPLOYMENT_ASSETS
  | DEPLOYMENT_MSG_REST_ASSETS
  | DEPLOYMENT_TRANSFER_SCRIPT_SIZE
  | DEPLOYMENT_ENFORCE_VALUE
  | DEPLOYMENT_COINBASE_ASSETS

definition all_deployments :: "DeploymentPos list" where
  "all_deployments = [DEPLOYMENT_TESTDUMMY, DEPLOYMENT_ASSETS, DEPLOYMENT_MSG_REST_ASSETS,
     DEPLOYMENT_TRANSFER_SCRIPT_SIZE, DEPLOYMENT_ENFORCE_VALUE, DEPLOYMENT_COINBASE_ASSETS]"

lemma all_deployments_complete: "set all_deployments = UNIV"
proof -
  have "d \<in> set all_deployments" for d
    by (cases d) (simp_all add: all_deployments_def)
  then show ?thesis by blast
qed

record BIP9Deployment =
  deploy_bit :: nat
  nStartTime :: int
  nTimeout :: int
  nOverrideMinerConfirmationWindow :: u32
  nOverrideRuleChangeActivationThreshold :: u32

record Params =
  hashGenesisBlock :: bytes
  nSubsidyHalvingInterval :: int
  nBIP34Enabled :: bool
  nBIP65Enabled :: bool
  nBIP66Enabled :: bool
  BIP34LockedIn :: int
  nRuleChangeActivationThreshold :: u32
  nMinerConfirmationWindow :: u32
  vDeployments :: "DeploymentPos \<Rightarrow> BIP9Deployment"
  powLimit :: bytes
  kawpowLimit :: bytes
  nHeightHeaderCheckActivation :: int
  fPowAllowMinDifficultyBlocks :: bool
  fPowNoRetargeting :: bool
  nPowTargetSpacing :: int
  nPowTargetTimespan :: int
  nMinimumChainWork :: bytes
  defaultAssumeValid :: bytes
  nSegwitEnabled :: bool
  nCSVEnabled :: bool

definition DifficultyAdjustmentInterval :: "Params \<Rightarrow> int" where
  "DifficultyAdjustmentInterval p = c_div (nPowTargetTimespan p) (nPowTargetSpacing p)"

section \<open>Amounts\<close>

type_synonym CAmount = int

definition COIN :: CAmount where "COIN = 100000000"
definition CENT :: CAmount where "CENT = 1000000"
definition MAX_MONEY :: CAmount where "MAX_MONEY = 175000000 * COIN"

definition MoneyRange :: "CAmount \<Rightarrow> bool" where
  "MoneyRange nValue \<longleftrightarrow> nValue \<ge> 0 \<and> nValue \<le> MAX_MONEY"

section \<open>Chain parameters\<close>

record CChainParams =
  consensus :: Params
  strNetworkID :: string
  nPruneAfterHeight :: nat
  nIssueAssetBurnAmount :: CAmount
  nReissueAssetBurnAmount :: CAmount
  nIssueSubAssetBurnAmount :: CAmount
  nIssueUniqueAssetBurnAmount :: CAmount
  nIssueMsgChannelAssetBurnAmount :: CAmount
  nIssueQualifierAssetBurnAmount :: CAmount
  nIssueSubQualifierAssetBurnAmount :: CAmount
  nIssueRestrictedAssetBurnAmount :: CAmount
  nAddNullQualifierTagBurnAmount :: CAmount
  nCommunityAutonomousAmount :: CAmount
  strIssueAssetBurnAddress :: string
  strReissueAssetBurnAddress :: string
  strIssueSubAssetBurnAddress :: string
  strIssueUniqueAssetBurnAddress :: string
  strIssueMsgChannelAssetBurnAddress :: string
  strIssueQualifierAssetBurnAddress :: string
  strIssueSubQualifierAssetBurnAddress :: string
  strIssueRestrictedAssetBurnAddress :: string
  strAddNullQualifierTagBurnAddress :: string
  strGlobalBurnAddress :: string
  strCommunityAutonomousAddress :: string
  nDGWActivationBlock :: nat
  nMessagingActivationBlock :: nat
  nRestrictedActivationBlock :: nat
  nMaxReorganizationDepth :: int
  nMinReorganizationPeers :: int
  nMinReorganizationAge :: int
  nAssetActivationHeight :: int
  nKAAAWWWPOWActivationTime :: u32

definition IsBurnAddress :: "CChainParams \<Rightarrow> string \<Rightarrow> bool" where
  "IsBurnAddress p p_address \<longleftrightarrow>
     p_address = strIssueAssetBurnAddress p \<or> p_address = strReissueAssetBurnAddress p \<or>
     p_address = strIssueSubAssetBurnAddress p \<or> p_address = strIssueUniqueAssetBurnAddress p \<or>
     p_address = strIssueMsgChannelAssetBurnAddress p \<or> p_address = strIssueQualifierAssetBurnAddress p \<or>
     p_address = strIssueSubQualifierAssetBurnAddress p \<or> p_address = strIssueRestrictedAssetBurnAddress p \<or>
     p_address = strAddNullQualifierTagBurnAddress p \<or> p_address = strGlobalBurnAddress p \<or>
     p_address = strCommunityAutonomousAddress p"

definition TurnOffBIP34 :: "CChainParams \<Rightarrow> CChainParams" where
  "TurnOffBIP34 p = p\<lparr>consensus := (consensus p)\<lparr>nBIP34Enabled := False\<rparr>\<rparr>"

definition TurnOffBIP65 :: "CChainParams \<Rightarrow> CChainParams" where
  "TurnOffBIP65 p = p\<lparr>consensus := (consensus p)\<lparr>nBIP65Enabled := False\<rparr>\<rparr>"

definition TurnOffBIP66 :: "CChainParams \<Rightarrow> CChainParams" where
  "TurnOffBIP66 p = p\<lparr>consensus := (consensus p)\<lparr>nBIP66Enabled := False\<rparr>\<rparr>"

definition BIP34 :: "CChainParams \<Rightarrow> bool" where "BIP34 p = nBIP34Enabled (consensus p)"
definition BIP65 :: "CChainParams \<Rightarrow> bool" where "BIP65 p = nBIP34Enabled (consensus p)"
definition BIP66 :: "CChainParams \<Rightarrow> bool" where "BIP66 p = nBIP34Enabled (consensus p)"

section \<open>The main network\<close>

definition main_deployment :: "nat \<Rightarrow> u32 \<Rightarrow> BIP9Deployment" where
  "main_deployment b threshold = \<lparr>deploy_bit = b, nStartTime = 1653004800, nTimeout = 1653264000,
     nOverrideMinerConfirmationWindow = 2016, nOverrideRuleChangeActivationThreshold = threshold\<rparr>"

primrec main_deployments :: "DeploymentPos \<Rightarrow> BIP9Deployment" where
  "main_deployments DEPLOYMENT_TESTDUMMY = main_deployment 28 1814"
| "main_deployments DEPLOYMENT_ASSETS = main_deployment 6 1814"
| "main_deployments DEPLOYMENT_MSG_REST_ASSETS = main_deployment 7 1714"
| "main_deployments DEPLOYMENT_TRANSFER_SCRIPT_SIZE = main_deployment 8 1714"
| "main_deployments DEPLOYMENT_ENFORCE_VALUE = main_deployment 9 1411"
| "main_deployments DEPLOYMENT_COINBASE_ASSETS = main_deployment 10 1411"

text \<open>The genesis hash is the value the constructor asserts.\<close>

definition main_consensus :: Params where
  "main_consensus = \<lparr>
     hashGenesisBlock = uint256S ''0x000000fcdb664de8b9cb710ef45ac5111d0061e5cc623d8e6582399ccb2df242'',
     nSubsidyHalvingInterval = 0,
     nBIP34Enabled = True, nBIP65Enabled = True, nBIP66Enabled = True,
     BIP34LockedIn = 6048,
     nRuleChangeActivationThreshold = 7, nMinerConfirmationWindow = 20,
     vDeployments = main_deployments,
     powLimit = uint256S ''00ffffffffffffffffffffffffffffffffffffffffffffffffffffffffffffff'',
     kawpowLimit = uint256S ''0000000fffffffffffffffffffffffffffffffffffffffffffffffffffffffff'',
     nHeightHeaderCheckActivation = 181153,
     fPowAllowMinDifficultyBlocks = True, fPowNoRetargeting = False,
     nPowTargetSpacing = 1 * 60, nPowTargetTimespan = 20 * 60,
     nMinimumChainWork = uint256S ''00000000000000000000000000000000000000000000000002fae4f8246a202b'',
     defaultAssumeValid = uint256S ''00000000000c634cd20a63603886e97e35e3d7eeca67ef5bb4437f7d45ad3f95'',
     nSegwitEnabled = True, nCSVEnabled = True\<rparr>"

definition main_genesis_time :: u32 where "main_genesis_time = 1710112797"

definition CMainParams :: CChainParams where
  "CMainParams = \<lparr>consensus = main_consensus, strNetworkID = ''main'', nPruneAfterHeight = 100000,
     nIssueAssetBurnAmount = 50 * COIN, nReissueAssetBurnAmount = 10 * COIN,
     nIssueSubAssetBurnAmount = 10 * COIN, nIssueUniqueAssetBurnAmount = COIN div 2,
     nIssueMsgChannelAssetBurnAmount = 10 * COIN, nIssueQualifierAssetBurnAmount = 100 * COIN,
     nIssueSubQualifierAssetBurnAmount = 10 * COIN, nIssueRestrictedAssetBurnAmount = 150 * COIN,
     nAddNullQualifierTagBurnAmount = COIN div 100, nCommunityAutonomousAmount = 10,
     strIssueAssetBurnAddress = ''CcmKXqWrFrbDnywuY8F3orEnNR5L1g2mZQ'',
     strReissueAssetBurnAddress = ''CX61EFYjZdXKWAY5UsBt5sLxHkWaqjBL59'',
     strIssueSubAssetBurnAddress = ''CNgg3bLoGocLD9iU2W1gw3McHipzfZ8R13'',
     strIssueUniqueAssetBurnAddress = ''CKXyGTyzibPLhPpTpvqqBK3SJBz8gp7Kfa'',
     strIssueMsgChannelAssetBurnAddress = ''CMm13zRL8eGjZxYXfiCN1zCJFHiL5HkMYa'',
     strIssueQualifierAssetBurnAddress = ''CZW36RFFgRWcCQ3cN1qWJGC6z4EAqgt7M6'',
     strIssueSubQualifierAssetBurnAddress = ''CcDdxyK7JCuQfg83SxFHRpD8QHFivbdYjZ'',
     strIssueRestrictedAssetBurnAddress = ''CcDdxyK7JCuQfg83SxFHRpD8QHFivbdYjZ'',
     strAddNullQualifierTagBurnAddress = ''CTfS34Z3CrzXSPEmGx9xpjw7PShUC93YFi'',
     strGlobalBurnAddress = ''CeNvn7GXr1aLqhDx9HG9aYWnPA5qoRsz9X'',
     strCommunityAutonomousAddress = ''CXy8ovMfgSMG5SYHa2nNAJZXkwEYxMa5xV'',
     nDGWActivationBlock = 1, nMessagingActivationBlock = 1, nRestrictedActivationBlock = 1,
     nMaxReorganizationDepth = 60, nMinReorganizationPeers = 4, nMinReorganizationAge = 60 * 60 * 12,
     nAssetActivationHeight = 1, nKAAAWWWPOWActivationTime = 1710119893\<rparr>"

section \<open>Issuance\<close>

definition GetBlockSubsidy :: "int \<Rightarrow> Params \<Rightarrow> CAmount" where
  "GetBlockSubsidy height consensusParams =
     (if height \<le> 200000 then 300 * COIN
      else if height \<le> 400000 then 200 * COIN
      else if height \<le> 600000 then 150 * COIN
      else if height \<le> 800000 then 100 * COIN
      else if height \<le> 1000000 then 75 * COIN
      else if height \<le> 1200000 then 50 * COIN
      else 0 * COIN)"

lemma sum_block_const:
  assumes "a \<le> b" "\<And>h. a < h \<Longrightarrow> h \<le> b \<Longrightarrow> f h = c"
  shows "(\<Sum>h \<in> {a<..b :: nat}. f h) = int (b - a) * (c :: int)"
proof -
  have "(\<Sum>h \<in> {a<..b}. f h) = (\<Sum>h \<in> {a<..b}. c)"
    using assms(2) by (intro sum.cong) auto
  then show ?thesis by simp
qed

lemma sum_split_at:
  "a \<le> b \<Longrightarrow> b \<le> c \<Longrightarrow> (\<Sum>h \<in> {a<..c :: nat}. f h :: int) = (\<Sum>h \<in> {a<..b}. f h) + (\<Sum>h \<in> {b<..c}. f h)"
  by (subst sum.union_disjoint[symmetric]) (auto simp: ivl_disj_un)

lemma supply_upto_1200000:
  "(\<Sum>h \<in> {0<..1200000}. GetBlockSubsidy (int h) p) = MAX_MONEY"
proof -
  let ?f = "\<lambda>h :: nat. GetBlockSubsidy (int h) p"
  have "(\<Sum>h \<in> {0<..200000}. ?f h) = int (200000 - 0) * (300 * COIN)"
    "(\<Sum>h \<in> {200000<..400000}. ?f h) = int (400000 - 200000) * (200 * COIN)"
    "(\<Sum>h \<in> {400000<..600000}. ?f h) = int (600000 - 400000) * (150 * COIN)"
    "(\<Sum>h \<in> {600000<..800000}. ?f h) = int (800000 - 600000) * (100 * COIN)"
    "(\<Sum>h \<in> {800000<..1000000}. ?f h) = int (1000000 - 800000) * (75 * COIN)"
    "(\<Sum>h \<in> {1000000<..1200000}. ?f h) = int (1200000 - 1000000) * (50 * COIN)"
    by (rule sum_block_const; simp add: GetBlockSubsidy_def)+
  moreover have "(\<Sum>h \<in> {0<..1200000}. ?f h) =
      (\<Sum>h \<in> {0<..200000}. ?f h) + (\<Sum>h \<in> {200000<..400000}. ?f h) + (\<Sum>h \<in> {400000<..600000}. ?f h) +
      (\<Sum>h \<in> {600000<..800000}. ?f h) + (\<Sum>h \<in> {800000<..1000000}. ?f h) + (\<Sum>h \<in> {1000000<..1200000}. ?f h)"
    by (simp add: sum_split_at[of 0 200000 1200000] sum_split_at[of 200000 400000 1200000]
        sum_split_at[of 400000 600000 1200000] sum_split_at[of 600000 800000 1200000]
        sum_split_at[of 800000 1000000 1200000])
  ultimately show ?thesis
    by (simp add: MAX_MONEY_def COIN_def)
qed

lemma subsidy_nonneg: "0 \<le> GetBlockSubsidy h p"
  by (simp add: GetBlockSubsidy_def COIN_def)

lemma supply_from_1200000: "(\<Sum>h \<in> {0<..1200000 + n}. GetBlockSubsidy (int h) p) = MAX_MONEY"
proof -
  have "(\<Sum>h \<in> {1200000<..1200000 + n}. GetBlockSubsidy (int h) p) = int (1200000 + n - 1200000) * 0"
    by (rule sum_block_const) (simp_all add: GetBlockSubsidy_def)
  then show ?thesis
    using supply_upto_1200000[of p] sum_split_at[of 0 1200000 "1200000 + n"] by simp
qed

lemma supply_mono: "m \<le> n \<Longrightarrow>
  (\<Sum>h \<in> {0<..m}. GetBlockSubsidy (int h) p) \<le> (\<Sum>h \<in> {0<..n}. GetBlockSubsidy (int h) p)"
  by (rule sum_mono2) (auto simp: subsidy_nonneg)

text \<open>
  C31. Issuance: the subsidy never rises with the height and every subsidy is in range; the subsidies of
  the blocks above the genesis block sum to at most \<open>MAX_MONEY\<close> at every height, and to exactly
  \<open>MAX_MONEY\<close> from height 1200000 on. (The unit tests \<^verbatim>\<open>block_subsidy_test\<close> and \<^verbatim>\<open>subsidy_limit_test\<close> of
  src/src/test/main_tests.cpp expect another schedule, 500 coins halved every interval, which the code
  does not have.)
\<close>

theorem block_subsidy_supply:
  "GetBlockSubsidy (a + int k) p \<le> GetBlockSubsidy a p \<and> MoneyRange (GetBlockSubsidy a p) \<and>
   (\<Sum>h \<in> {0<..m}. GetBlockSubsidy (int h) p) \<le> MAX_MONEY \<and>
   (\<Sum>h \<in> {0<..1200000 + n}. GetBlockSubsidy (int h) p) = MAX_MONEY"
proof -
  have "GetBlockSubsidy (a + int k) p \<le> GetBlockSubsidy a p" "MoneyRange (GetBlockSubsidy a p)"
    by (auto simp: GetBlockSubsidy_def MoneyRange_def MAX_MONEY_def COIN_def)
  moreover have "(\<Sum>h \<in> {0<..m}. GetBlockSubsidy (int h) p) \<le> MAX_MONEY"
    using supply_mono[of m "1200000 + m"] supply_from_1200000[where n = m] by simp
  ultimately show ?thesis
    using supply_from_1200000 by blast
qed

end
