(* ===== verification/VersionBits.thy ===== *)
theory VersionBits
  imports Chain Params
begin

unbundle bit_operations_syntax

text \<open>
  Soft-fork deployments by miner signalling (src/src/versionbits.h, versionbits.cpp and
  \<^verbatim>\<open>ComputeBlockVersion\<close> of validation.cpp). The abstract class of checkers is a record of its virtual
  functions; the cache maps the last block of a period (or null) to the state of the next period.
\<close>

section \<open>Threshold states\<close>

datatype ThresholdState =
    THRESHOLD_DEFINED
  | THRESHOLD_STARTED
  | THRESHOLD_LOCKED_IN
  | THRESHOLD_ACTIVE
  | THRESHOLD_FAILED

type_synonym ThresholdConditionCache = "ptr option \<Rightarrow> ThresholdState option"

record ThresholdChecker =
  Condition :: "CBlockIndex \<Rightarrow> bool"
  BeginTime :: int
  EndTime :: int
  Period :: int
  Threshold :: int

text \<open>The counting loop of the state \<open>STARTED\<close>; it reads through a null pointer past the root.\<close>

fun count_period :: "block_mem \<Rightarrow> (CBlockIndex \<Rightarrow> bool) \<Rightarrow> nat \<Rightarrow> ptr option \<Rightarrow> int \<Rightarrow> int outcome" where
  "count_period h C 0 pindexCount count = Inr count"
| "count_period h C (Suc n) None count = Inl NullDeref"
| "count_period h C (Suc n) (Some p) count =
     count_period h C n (pprev (h p)) (if C (h p) then count + 1 else count)"

definition state_next ::
  "block_mem \<Rightarrow> ThresholdChecker \<Rightarrow> ptr \<Rightarrow> ThresholdState \<Rightarrow> ThresholdState outcome" where
  "state_next h chk p state =
     (case state of
        THRESHOLD_DEFINED \<Rightarrow>
          Inr (if GetMedianTimePast h p \<ge> EndTime chk then THRESHOLD_FAILED
               else if GetMedianTimePast h p \<ge> BeginTime chk then THRESHOLD_STARTED
               else THRESHOLD_DEFINED)
      | THRESHOLD_STARTED \<Rightarrow>
          if GetMedianTimePast h p \<ge> EndTime chk then Inr THRESHOLD_FAILED
          else bind_out (count_period h (Condition chk) (nat (Period chk)) (Some p) 0)
            (\<lambda>count. Inr (if count \<ge> Threshold chk then THRESHOLD_LOCKED_IN else THRESHOLD_STARTED))
      | THRESHOLD_LOCKED_IN \<Rightarrow> Inr THRESHOLD_ACTIVE
      | THRESHOLD_FAILED \<Rightarrow> Inr THRESHOLD_FAILED
      | THRESHOLD_ACTIVE \<Rightarrow> Inr THRESHOLD_ACTIVE)"

text \<open>The backward loop; the last block pushed is the head of \<open>vToCompute\<close>.\<close>

partial_function (option) state_back ::
  "block_mem \<Rightarrow> ThresholdChecker \<Rightarrow> ptr option \<Rightarrow> ThresholdConditionCache \<Rightarrow> ptr list \<Rightarrow>
     (ptr option \<times> ThresholdConditionCache \<times> ptr list) run" where
  "state_back h chk pindexPrev cache vToCompute =
     (if cache pindexPrev \<noteq> None then Some (Inr (pindexPrev, cache, vToCompute))
      else case pindexPrev of
        None \<Rightarrow> Some (Inr (None, cache(None \<mapsto> THRESHOLD_DEFINED), vToCompute))
      | Some p \<Rightarrow>
          if GetMedianTimePast h p < BeginTime chk
          then Some (Inr (Some p, cache(Some p \<mapsto> THRESHOLD_DEFINED), vToCompute))
          else (case GetAncestor h p (int (nHeight (h p)) - Period chk) of
                  Inl e \<Rightarrow> Some (Inl e)
                | Inr q \<Rightarrow> state_back h chk q cache (p # vToCompute)))"

declare state_back.simps [code]

text \<open>The forward loop, popping \<open>vToCompute\<close>.\<close>

fun state_forward ::
  "block_mem \<Rightarrow> ThresholdChecker \<Rightarrow> ptr list \<Rightarrow> ThresholdState \<Rightarrow> ThresholdConditionCache \<Rightarrow>
     (ThresholdState \<times> ThresholdConditionCache) outcome" where
  "state_forward h chk [] state cache = Inr (state, cache)"
| "state_forward h chk (p # v) state cache =
     bind_out (state_next h chk p state) (\<lambda>s. state_forward h chk v s (cache(Some p \<mapsto> s)))"

definition period_end :: "block_mem \<Rightarrow> int \<Rightarrow> ptr \<Rightarrow> ptr option outcome" where
  "period_end h nPeriod p = bind_out (mod_out (int (nHeight (h p)) + 1) nPeriod)
     (\<lambda>m. GetAncestor h p (int (nHeight (h p)) - m))"

definition GetStateFor ::
  "block_mem \<Rightarrow> ThresholdChecker \<Rightarrow> ptr option \<Rightarrow> ThresholdConditionCache \<Rightarrow>
     (ThresholdState \<times> ThresholdConditionCache) run" where
  "GetStateFor h chk pindexPrev cache =
     bind_run (case pindexPrev of None \<Rightarrow> Some (Inr None) | Some p \<Rightarrow> Some (period_end h (Period chk) p))
       (\<lambda>q. bind_run (state_back h chk q cache [])
          (\<lambda>(q, cache, vToCompute).
             case cache q of None \<Rightarrow> Some (Inl AssertFail)
             | Some state \<Rightarrow> Some (state_forward h chk vToCompute state cache)))"

section \<open>Statistics and heights\<close>

record BIP9Stats =
  stats_period :: int
  stats_threshold :: int
  stats_elapsed :: int
  stats_count :: int
  stats_possible :: bool

partial_function (option) count_back ::
  "block_mem \<Rightarrow> (CBlockIndex \<Rightarrow> bool) \<Rightarrow> nat \<Rightarrow> ptr option \<Rightarrow> int \<Rightarrow> int run" where
  "count_back h C endHeight currentIndex count =
     (case currentIndex of None \<Rightarrow> Some (Inl NullDeref)
      | Some p \<Rightarrow> if endHeight \<noteq> nHeight (h p)
          then count_back h C endHeight (pprev (h p)) (if C (h p) then count + 1 else count)
          else Some (Inr count))"

declare count_back.simps [code]

definition GetStateStatisticsFor :: "block_mem \<Rightarrow> ThresholdChecker \<Rightarrow> ptr option \<Rightarrow> BIP9Stats run" where
  "GetStateStatisticsFor h chk pindex =
     (case pindex of
        None \<Rightarrow> Some (Inr \<lparr>stats_period = Period chk, stats_threshold = Threshold chk, stats_elapsed = 0,
                  stats_count = 0, stats_possible = False\<rparr>)
      | Some p \<Rightarrow> bind_run (Some (period_end h (Period chk) p)) (\<lambda>q.
          case q of None \<Rightarrow> Some (Inl NullDeref)
          | Some e \<Rightarrow>
              (let elapsed = int (nHeight (h p)) - int (nHeight (h e))
               in bind_run (count_back h (Condition chk) (nHeight (h e)) (Some p) 0) (\<lambda>count.
                  Some (Inr \<lparr>stats_period = Period chk, stats_threshold = Threshold chk,
                    stats_elapsed = elapsed, stats_count = count,
                    stats_possible = (Period chk - Threshold chk \<ge> elapsed - count)\<rparr>)))))"

partial_function (option) since_loop ::
  "block_mem \<Rightarrow> ThresholdChecker \<Rightarrow> ThresholdState \<Rightarrow> ptr \<Rightarrow> ptr option \<Rightarrow> ThresholdConditionCache \<Rightarrow>
     (ptr \<times> ThresholdConditionCache) run" where
  "since_loop h chk initialState pindexPrev previousPeriodParent cache =
     (case previousPeriodParent of None \<Rightarrow> Some (Inr (pindexPrev, cache))
      | Some q \<Rightarrow>
          (case GetStateFor h chk (Some q) cache of
             None \<Rightarrow> None
           | Some (Inl e) \<Rightarrow> Some (Inl e)
           | Some (Inr (state, cache')) \<Rightarrow>
               if state = initialState
               then (case GetAncestor h q (int (nHeight (h q)) - Period chk) of
                       Inl e \<Rightarrow> Some (Inl e)
                     | Inr r \<Rightarrow> since_loop h chk initialState q r cache')
               else Some (Inr (pindexPrev, cache'))))"

declare since_loop.simps [code]

definition GetStateSinceHeightFor ::
  "block_mem \<Rightarrow> ThresholdChecker \<Rightarrow> ptr option \<Rightarrow> ThresholdConditionCache \<Rightarrow>
     (int \<times> ThresholdConditionCache) run" where
  "GetStateSinceHeightFor h chk pindexPrev cache =
     bind_run (GetStateFor h chk pindexPrev cache) (\<lambda>(initialState, cache).
       if initialState = THRESHOLD_DEFINED then Some (Inr (0, cache))
       else case pindexPrev of None \<Rightarrow> Some (Inl NullDeref)
       | Some p0 \<Rightarrow> bind_run (Some (period_end h (Period chk) p0)) (\<lambda>q.
           case q of None \<Rightarrow> Some (Inl NullDeref)
           | Some p \<Rightarrow> bind_run (Some (GetAncestor h p (int (nHeight (h p)) - Period chk))) (\<lambda>r.
               bind_run (since_loop h chk initialState p r cache) (\<lambda>(e, cache).
                 Some (Inr (int (nHeight (h e)) + 1, cache))))))"

section \<open>Version bits\<close>

definition VERSIONBITS_LAST_OLD_BLOCK_VERSION :: u32 where "VERSIONBITS_LAST_OLD_BLOCK_VERSION = 5"
definition VERSIONBITS_TOP_BITS :: u32 where "VERSIONBITS_TOP_BITS = 0x20000000"
definition VERSIONBITS_TOP_BITS_ASSETS :: u32 where "VERSIONBITS_TOP_BITS_ASSETS = 0x30000000"
definition VERSIONBITS_TOP_MASK :: u32 where "VERSIONBITS_TOP_MASK = 0xE0000000"

definition VersionBitsMask :: "Params \<Rightarrow> DeploymentPos \<Rightarrow> u32" where
  "VersionBitsMask params pos = push_bit (deploy_bit (vDeployments params pos)) 1"

definition VersionBitsConditionChecker :: "Params \<Rightarrow> DeploymentPos \<Rightarrow> ThresholdChecker" where
  "VersionBitsConditionChecker params pos =
     (let d = vDeployments params pos in
      \<lparr>Condition = (\<lambda>pindex. nVersion pindex AND VersionBitsMask params pos \<noteq> 0),
       BeginTime = nStartTime d, EndTime = nTimeout d,
       Period = (if nOverrideMinerConfirmationWindow d > 0
                 then sint (nOverrideMinerConfirmationWindow d)
                 else sint (nMinerConfirmationWindow params)),
       Threshold = (if nOverrideRuleChangeActivationThreshold d > 0
                    then sint (nOverrideRuleChangeActivationThreshold d)
                    else sint (nRuleChangeActivationThreshold params))\<rparr>)"

type_synonym VersionBitsCache = "DeploymentPos \<Rightarrow> ThresholdConditionCache"

definition VersionBitsCache_Clear :: "VersionBitsCache \<Rightarrow> VersionBitsCache" where
  "VersionBitsCache_Clear caches = (\<lambda>d k. None)"

definition VersionBitsState ::
  "block_mem \<Rightarrow> ptr option \<Rightarrow> Params \<Rightarrow> DeploymentPos \<Rightarrow> VersionBitsCache \<Rightarrow>
     (ThresholdState \<times> VersionBitsCache) run" where
  "VersionBitsState h pindexPrev params pos caches =
     bind_run (GetStateFor h (VersionBitsConditionChecker params pos) pindexPrev (caches pos))
       (\<lambda>(s, cache). Some (Inr (s, caches(pos := cache))))"

definition VersionBitsStatistics ::
  "block_mem \<Rightarrow> ptr option \<Rightarrow> Params \<Rightarrow> DeploymentPos \<Rightarrow> BIP9Stats run" where
  "VersionBitsStatistics h pindexPrev params pos =
     GetStateStatisticsFor h (VersionBitsConditionChecker params pos) pindexPrev"

definition VersionBitsStateSinceHeight ::
  "block_mem \<Rightarrow> ptr option \<Rightarrow> Params \<Rightarrow> DeploymentPos \<Rightarrow> VersionBitsCache \<Rightarrow>
     (int \<times> VersionBitsCache) run" where
  "VersionBitsStateSinceHeight h pindexPrev params pos caches =
     bind_run (GetStateSinceHeightFor h (VersionBitsConditionChecker params pos) pindexPrev (caches pos))
       (\<lambda>(n, cache). Some (Inr (n, caches(pos := cache))))"

text \<open>The loop of \<^verbatim>\<open>ComputeBlockVersion\<close> over the deployments.\<close>

fun version_loop ::
  "block_mem \<Rightarrow> ptr option \<Rightarrow> Params \<Rightarrow> DeploymentPos list \<Rightarrow> u32 \<Rightarrow> VersionBitsCache \<Rightarrow>
     (u32 \<times> VersionBitsCache) run" where
  "version_loop h pindexPrev params [] version caches = Some (Inr (version, caches))"
| "version_loop h pindexPrev params (d # ds) version caches =
     bind_run (VersionBitsState h pindexPrev params d caches) (\<lambda>(state, caches).
       version_loop h pindexPrev params ds
         (if state = THRESHOLD_LOCKED_IN \<or> state = THRESHOLD_STARTED
          then version OR VersionBitsMask params d else version) caches)"

definition ComputeBlockVersion ::
  "bool \<Rightarrow> block_mem \<Rightarrow> ptr option \<Rightarrow> Params \<Rightarrow> VersionBitsCache \<Rightarrow> (u32 \<times> VersionBitsCache) run" where
  "ComputeBlockVersion fAssetsDeployed h pindexPrev params caches =
     version_loop h pindexPrev params all_deployments
       (if fAssetsDeployed then VERSIONBITS_TOP_BITS_ASSETS else VERSIONBITS_TOP_BITS) caches"

section \<open>Reference states\<close>

text \<open>
  The state of the period after \<open>k\<close> periods on the path to \<open>p\<close>, by recursion on \<open>k\<close>, without a cache
  and without shortcuts.
\<close>

definition signalled :: "block_mem \<Rightarrow> (CBlockIndex \<Rightarrow> bool) \<Rightarrow> nat \<Rightarrow> ptr \<Rightarrow> int" where
  "signalled h C n p = int (length (filter (\<lambda>i. C (h (the (steps_back h i p)))) [0..<n]))"

definition bip9_next :: "block_mem \<Rightarrow> ThresholdChecker \<Rightarrow> ptr \<Rightarrow> ThresholdState \<Rightarrow> ThresholdState" where
  "bip9_next h chk p state =
     (let mtp = GetMedianTimePast h p in
      case state of
        THRESHOLD_DEFINED \<Rightarrow> if mtp \<ge> EndTime chk then THRESHOLD_FAILED
          else if mtp \<ge> BeginTime chk then THRESHOLD_STARTED else THRESHOLD_DEFINED
      | THRESHOLD_STARTED \<Rightarrow> if mtp \<ge> EndTime chk then THRESHOLD_FAILED
          else if signalled h (Condition chk) (nat (Period chk)) p \<ge> Threshold chk then THRESHOLD_LOCKED_IN
          else THRESHOLD_STARTED
      | THRESHOLD_LOCKED_IN \<Rightarrow> THRESHOLD_ACTIVE
      | _ \<Rightarrow> state)"

fun bip9_state :: "block_mem \<Rightarrow> ThresholdChecker \<Rightarrow> ptr \<Rightarrow> nat \<Rightarrow> ThresholdState" where
  "bip9_state h chk p 0 = THRESHOLD_DEFINED"
| "bip9_state h chk p (Suc k) =
     bip9_next h chk (the (steps_back h (nHeight (h p) + 1 - Suc k * nat (Period chk)) p)) (bip9_state h chk p k)"

definition state_of :: "block_mem \<Rightarrow> ThresholdChecker \<Rightarrow> ptr option \<Rightarrow> ThresholdState" where
  "state_of h chk pindexPrev =
     (case pindexPrev of None \<Rightarrow> THRESHOLD_DEFINED
      | Some p \<Rightarrow> bip9_state h chk p ((nHeight (h p) + 1) div nat (Period chk)))"

definition cache_ok :: "block_mem \<Rightarrow> ptr set \<Rightarrow> ThresholdChecker \<Rightarrow> ThresholdConditionCache \<Rightarrow> bool" where
  "cache_ok h A chk cache \<longleftrightarrow>
     (\<forall>k s. cache k = Some s \<longrightarrow> s = state_of h chk k \<and>
        (\<forall>p. k = Some p \<longrightarrow> p \<in> A \<and> (nHeight (h p) + 1) mod nat (Period chk) = 0))"

text \<open>What \<^verbatim>\<open>ContextualCheckBlockHeader\<close> makes of block times: each is above the parent's median time past.\<close>

definition times_ok :: "block_mem \<Rightarrow> ptr set \<Rightarrow> bool" where
  "times_ok h A \<longleftrightarrow> (\<forall>p \<in> A. case pprev (h p) of None \<Rightarrow> True
     | Some q \<Rightarrow> GetMedianTimePast h q < GetBlockTime (h p))"

section \<open>Median time past\<close>

lemma sorted_count_less:
  assumes "sorted s" "i < length s"
  shows "length (filter (\<lambda>x. x < m) s) \<le> i \<longleftrightarrow> m \<le> (s ! i :: int)"
proof -
  have split: "length (filter (\<lambda>x. x < m) s) =
      length (filter (\<lambda>x. x < m) (take k s)) + length (filter (\<lambda>x. x < m) (drop k s))" for k
    by (metis append_take_drop_id filter_append length_append)
  show ?thesis
  proof
    assume le: "length (filter (\<lambda>x. x < m) s) \<le> i"
    show "m \<le> s ! i"
    proof (rule ccontr)
      assume "\<not> m \<le> s ! i"
      then have "x < m" if "x \<in> set (take (Suc i) s)" for x
        using that assms by (auto simp: in_set_conv_nth less_Suc_eq_le dest: sorted_nth_mono intro: le_less_trans)
      then have "filter (\<lambda>x. x < m) (take (Suc i) s) = take (Suc i) s"
        by simp
      then show False
        using le split[of "Suc i"] assms(2) by simp
    qed
  next
    assume m: "m \<le> s ! i"
    have "\<not> x < m" if x: "x \<in> set (drop i s)" for x
    proof -
      obtain j where "j < length s - i" "x = s ! (i + j)"
        using x assms(2) by (auto simp: in_set_conv_nth)
      then show ?thesis
        using m sorted_nth_mono[OF assms(1), of i "i + j"] by linarith
    qed
    then have "filter (\<lambda>x. x < m) (drop i s) = []"
      by (simp add: filter_empty_conv)
    moreover have "length (filter (\<lambda>x. x < m) (take i s)) \<le> i"
      by (metis length_filter_le length_take min.bounded_iff le_trans min.cobounded2)
    ultimately show "length (filter (\<lambda>x. x < m) s) \<le> i"
      using split[of i] by simp
  qed
qed

lemma sort_count_less:
  assumes "i < length (xs :: int list)"
  shows "length (filter (\<lambda>x. x < m) xs) \<le> i \<longleftrightarrow> m \<le> sort xs ! i"
proof -
  have "length (filter (\<lambda>x. x < m) (sort xs)) = length (filter (\<lambda>x. x < m) xs)"
    by (simp add: filter_sort)
  then show ?thesis
    using sorted_count_less[of "sort xs" i m] assms by simp
qed

lemma past_times_Suc:
  "past_times h (Suc n) pindex = past_times h n pindex \<or>
   (\<exists>x. past_times h (Suc n) pindex = x # past_times h n pindex)"
proof (induction n arbitrary: pindex)
  case 0
  then show ?case by (cases pindex) auto
next
  case (Suc n)
  then show ?case by (cases pindex) auto
qed

lemma median_append:
  assumes "old = L \<or> (\<exists>x. old = x # L)" "old \<noteq> []" "sort old ! (length old div 2) < (t :: int)"
  shows "sort old ! (length old div 2) \<le> sort (L @ [t]) ! (length (L @ [t]) div 2)"
proof -
  let ?m = "sort old ! (length old div 2)"
  have "length (filter (\<lambda>x. x < ?m) old) \<le> length old div 2"
    using assms(2) by (subst sort_count_less) simp_all
  moreover have "length (filter (\<lambda>x. x < ?m) L) \<le> length (filter (\<lambda>x. x < ?m) old)"
    using assms(1) by auto
  moreover have "length old div 2 \<le> length (L @ [t]) div 2"
    using assms(1) by (auto intro: div_le_mono)
  moreover have "filter (\<lambda>x. x < ?m) (L @ [t]) = filter (\<lambda>x. x < ?m) L"
    using assms(3) by simp
  ultimately have "length (filter (\<lambda>x. x < ?m) (L @ [t])) \<le> length (L @ [t]) div 2"
    by (simp only:)
  then show ?thesis
    by (subst (asm) sort_count_less) simp_all
qed

lemma median_step:
  assumes "pprev (h p) = Some q" "GetMedianTimePast h q < GetBlockTime (h p)"
  shows "GetMedianTimePast h q \<le> GetMedianTimePast h p"
proof -
  have n: "nMedianTimeSpan = Suc 10"
    by (simp add: nMedianTimeSpan_def)
  have p: "past_times h nMedianTimeSpan (Some p) = past_times h 10 (Some q) @ [GetBlockTime (h p)]"
    unfolding n past_times.simps assms(1) ..
  have "past_times h nMedianTimeSpan (Some q) \<noteq> []"
    unfolding n past_times.simps by simp
  moreover have "past_times h nMedianTimeSpan (Some q) = past_times h 10 (Some q) \<or>
      (\<exists>x. past_times h nMedianTimeSpan (Some q) = x # past_times h 10 (Some q))"
    unfolding n by (rule past_times_Suc)
  moreover have "sort (past_times h nMedianTimeSpan (Some q)) ! (length (past_times h nMedianTimeSpan (Some q)) div 2)
      < GetBlockTime (h p)"
    using assms(2) by (simp add: GetMedianTimePast_def Let_def)
  ultimately show ?thesis
    using median_append[of "past_times h nMedianTimeSpan (Some q)" "past_times h 10 (Some q)" "GetBlockTime (h p)"]
    unfolding GetMedianTimePast_def Let_def p by simp
qed

lemma median_mono:
  assumes "wf_tree h A" "times_ok h A" "p \<in> A" "steps_back h k p = Some q"
  shows "GetMedianTimePast h q \<le> GetMedianTimePast h p"
  using assms(3,4)
proof (induction k arbitrary: p)
  case (Suc k)
  then obtain r where r: "pprev (h p) = Some r" "steps_back h k r = Some q"
    by (auto split: option.splits)
  have "r \<in> A"
    using wf_treeD(2)[OF assms(1) Suc.prems(1) r(1)] by blast
  moreover have "GetMedianTimePast h r \<le> GetMedianTimePast h p"
    using assms(2) Suc.prems(1) r(1) by (intro median_step) (auto simp: times_ok_def split: option.splits)
  ultimately show ?case
    using Suc.IH[OF _ r(2)] by fastforce
qed simp

section \<open>The cached walk computes the reference states\<close>

lemma count_period_value:
  assumes "wf_tree h A" "p \<in> A" "n \<le> nHeight (h p) + 1"
  shows "count_period h C n (Some p) count = Inr (count + signalled h C n p)"
  using assms(2,3)
proof (induction n arbitrary: p count)
  case 0
  then show ?case by (simp add: signalled_def)
next
  case (Suc n)
  let ?c = "if C (h p) then 1 else 0 :: int"
  show ?case
  proof (cases "pprev (h p)")
    case None
    then have "n = 0"
      using wf_treeD(1)[OF assms(1) Suc.prems(1)] Suc.prems(2) by simp
    then show ?thesis by (simp add: signalled_def)
  next
    case (Some q)
    then have q: "q \<in> A" "n \<le> nHeight (h q) + 1"
      using wf_treeD(2)[OF assms(1) Suc.prems(1)] Suc.prems(2) by auto
    have "[0..<Suc n] = 0 # map Suc [0..<n]"
      by (simp add: map_Suc_upt upt_conv_Cons del: upt_Suc)
    then have "signalled h C (Suc n) p = ?c + signalled h C n q"
      using Some by (simp add: signalled_def filter_map comp_def del: upt_Suc)
    then show ?thesis
      using Suc.IH[OF q, of "count + ?c"] Some by (simp split: if_splits)
  qed
qed

lemma state_next_value:
  assumes "wf_tree h A" "p \<in> A" "nat (Period chk) \<le> nHeight (h p) + 1"
  shows "state_next h chk p s = Inr (bip9_next h chk p s)"
  using count_period_value[OF assms, of "Condition chk" 0]
  by (cases s) (simp_all add: state_next_def bip9_next_def Let_def)

lemma bip9_state_ancestor:
  assumes "wf_tree h A" "p \<in> A" "steps_back h j p = Some r"
    and "k * nat (Period chk) \<le> nHeight (h r) + 1"
  shows "bip9_state h chk p k = bip9_state h chk r k"
  using assms(4)
proof (induction k)
  case (Suc k)
  note r = back_in[OF assms(1-3)]
  let ?P = "nat (Period chk)"
  have k: "Suc k * ?P \<le> nHeight (h r) + 1"
    using Suc.prems .
  have "nHeight (h p) + 1 - Suc k * ?P - j = nHeight (h r) + 1 - Suc k * ?P"
    using r(2,3) by linarith
  moreover have "j \<le> nHeight (h p) + 1 - Suc k * ?P"
    using r(2,3) k by linarith
  ultimately have "steps_back h (nHeight (h p) + 1 - Suc k * ?P) p = steps_back h (nHeight (h r) + 1 - Suc k * ?P) r"
    using steps_back_via[OF assms(3)] by metis
  moreover have "bip9_state h chk p k = bip9_state h chk r k"
    using Suc by simp
  ultimately show ?case
    by (simp only: bip9_state.simps)
qed simp

text \<open>The last block of the period before the one that \<open>p\<close> ends.\<close>

lemma previous_boundary:
  assumes "wf_tree h A" "p \<in> A" "0 < Period chk" "(nHeight (h p) + 1) mod nat (Period chk) = 0"
  obtains r where "GetAncestor h p (int (nHeight (h p)) - Period chk) = Inr r"
    "state_of h chk (Some p) = bip9_next h chk p (state_of h chk r)"
    "\<forall>q. r = Some q \<longrightarrow> q \<in> A \<and> (nHeight (h q) + 1) mod nat (Period chk) = 0 \<and>
       nHeight (h q) + nat (Period chk) = nHeight (h p) \<and> (\<exists>k. steps_back h k p = Some q)"
    "nat (Period chk) \<le> nHeight (h p) + 1"
proof -
  define P where "P = nat (Period chk)"
  have P: "0 < P" "Period chk = int P"
    using assms(3) by (simp_all add: P_def)
  obtain m where m: "nHeight (h p) + 1 = P * m"
    using assms(4) unfolding P_def[symmetric] mod_eq_0_iff_dvd by (rule dvdE)
  then obtain k where "m = Suc k"
    by (cases m) simp_all
  then have k: "nHeight (h p) + 1 = Suc k * P"
    using m by (simp only: mult.commute)
  have div: "(nHeight (h p) + 1) div P = Suc k"
    using k P(1) by simp
  have here: "nHeight (h p) + 1 - Suc k * P = 0"
    using k by simp
  have st: "state_of h chk (Some p) = bip9_next h chk p (bip9_state h chk p k)"
    using div here by (simp add: state_of_def P_def[symmetric] del: mult_Suc)
  have le: "P \<le> nHeight (h p) + 1"
    using k by simp
  show thesis
  proof (cases "k = 0")
    case True
    then have "int (nHeight (h p)) - Period chk = - 1"
      using k P(2) by simp
    then have "GetAncestor h p (int (nHeight (h p)) - Period chk) = Inr None"
      by (simp add: GetAncestor_def)
    then show thesis
      using st True le by (intro that[of None]) (simp_all add: state_of_def P_def)
  next
    case False
    then have ge: "P \<le> nHeight (h p)"
      using k P(1) by (cases k) auto
    then have range: "0 \<le> int (nHeight (h p)) - Period chk" "int (nHeight (h p)) - Period chk \<le> int (nHeight (h p))"
      using P(2) by simp_all
    from GetAncestor_in[OF assms(1,2) range] obtain q where
      q: "GetAncestor h p (int (nHeight (h p)) - Period chk) = Inr (Some q)" "q \<in> A"
        "int (nHeight (h q)) = int (nHeight (h p)) - Period chk"
        "steps_back h (nHeight (h p) - nat (int (nHeight (h p)) - Period chk)) p = Some q" .
    have hq: "nHeight (h q) + P = nHeight (h p)" "nHeight (h q) + 1 = k * P"
      using q(3) P(2) k by simp_all
    have "bip9_state h chk p k = bip9_state h chk q k"
      using bip9_state_ancestor[OF assms(1,2) q(4), of k chk] hq(2) by (simp add: P_def)
    then have "state_of h chk (Some p) = bip9_next h chk p (state_of h chk (Some q))"
      using st hq(2) P(1) by (simp add: state_of_def P_def[symmetric])
    then show thesis
      using q hq le by (intro that[of "Some q"]) (auto simp: P_def)
  qed
qed

lemma before_start_defined:
  assumes "wf_tree h A" "times_ok h A" "p \<in> A" "BeginTime chk \<le> EndTime chk" "0 < Period chk"
    and "GetMedianTimePast h p < BeginTime chk" "(nHeight (h p) + 1) mod nat (Period chk) = 0"
  shows "state_of h chk (Some p) = THRESHOLD_DEFINED"
  using assms(3,6,7)
proof (induction "nHeight (h p)" arbitrary: p rule: less_induct)
  case less
  from previous_boundary[OF assms(1) less.prems(1) assms(5) less.prems(3)] obtain r where
    "GetAncestor h p (int (nHeight (h p)) - Period chk) = Inr r"
    and r: "state_of h chk (Some p) = bip9_next h chk p (state_of h chk r)"
      "\<forall>q. r = Some q \<longrightarrow> q \<in> A \<and> (nHeight (h q) + 1) mod nat (Period chk) = 0 \<and>
         nHeight (h q) + nat (Period chk) = nHeight (h p) \<and> (\<exists>k. steps_back h k p = Some q)"
    and "nat (Period chk) \<le> nHeight (h p) + 1" .
  have "state_of h chk r = THRESHOLD_DEFINED"
  proof (cases r)
    case None
    then show ?thesis by (simp add: state_of_def)
  next
    case (Some q)
    then obtain k where q: "q \<in> A" "(nHeight (h q) + 1) mod nat (Period chk) = 0"
      "nHeight (h q) + nat (Period chk) = nHeight (h p)" "steps_back h k p = Some q"
      using r(2)[rule_format, OF Some] by (elim conjE exE)
    have m: "GetMedianTimePast h q < BeginTime chk"
      using median_mono[OF assms(1,2) less.prems(1) q(4)] less.prems(2) by linarith
    have "nHeight (h q) < nHeight (h p)"
      using q(3) assms(5) by linarith
    then have "state_of h chk (Some q) = THRESHOLD_DEFINED"
      by (rule less.hyps) (rule q(1) m q(2))+
    then show ?thesis
      using Some by (simp only:)
  qed
  then show ?case
    using r(1) less.prems(2) assms(4) by (simp add: bip9_next_def Let_def)
qed

definition bip9_ok :: "block_mem \<Rightarrow> ptr set \<Rightarrow> ThresholdChecker \<Rightarrow> bool" where
  "bip9_ok h A chk \<longleftrightarrow> wf_tree h A \<and> times_ok h A \<and> 0 < Period chk \<and> BeginTime chk \<le> EndTime chk"

definition boundary :: "block_mem \<Rightarrow> ptr set \<Rightarrow> ThresholdChecker \<Rightarrow> ptr option \<Rightarrow> bool" where
  "boundary h A chk q \<longleftrightarrow> (\<forall>p. q = Some p \<longrightarrow> p \<in> A \<and> (nHeight (h p) + 1) mod nat (Period chk) = 0)"

lemma cache_ok_update:
  "cache_ok h A chk cache \<Longrightarrow> boundary h A chk q \<Longrightarrow> cache_ok h A chk (cache(q \<mapsto> state_of h chk q))"
  by (auto simp: cache_ok_def boundary_def)

lemma cache_ok_hit: "cache_ok h A chk cache \<Longrightarrow> cache q = Some s \<Longrightarrow> s = state_of h chk q"
  by (simp add: cache_ok_def)

lemma period_end_value:
  assumes "wf_tree h A" "p \<in> A" "0 < Period chk"
  shows "\<exists>q. period_end h (Period chk) p = Inr q \<and> boundary h A chk q \<and> state_of h chk q = state_of h chk (Some p) \<and>
    (q = None \<longleftrightarrow> nHeight (h p) + 1 < nat (Period chk)) \<and>
    (\<forall>e. q = Some e \<longrightarrow> nHeight (h e) = nHeight (h p) - (nHeight (h p) + 1) mod nat (Period chk) \<and>
       steps_back h ((nHeight (h p) + 1) mod nat (Period chk)) p = Some e)"
proof -
  define P where "P = nat (Period chk)"
  have P: "0 < P" "Period chk = int P"
    using assms(3) by (simp_all add: P_def)
  define m where "m = (nHeight (h p) + 1) mod P"
  have pe: "period_end h (Period chk) p = GetAncestor h p (int (nHeight (h p)) - int m)"
    using P by (simp add: period_end_def mod_out_def m_def zmod_int add.commute)
  show ?thesis
  proof (cases "nHeight (h p) + 1 < P")
    case True
    then have "period_end h (Period chk) p = Inr None"
      unfolding pe m_def by (simp add: GetAncestor_def)
    moreover have "state_of h chk (Some p) = state_of h chk None"
      using True by (simp add: state_of_def P_def)
    ultimately show ?thesis
      using True by (simp add: boundary_def P_def)
  next
    case False
    then have mle: "m \<le> nHeight (h p)"
      unfolding m_def using P(1) mod_less_divisor[OF P(1), of "nHeight (h p) + 1"] by linarith
    then have range: "0 \<le> int (nHeight (h p)) - int m" "int (nHeight (h p)) - int m \<le> int (nHeight (h p))"
      by simp_all
    from GetAncestor_in[OF assms(1,2) range] obtain q where
      q: "GetAncestor h p (int (nHeight (h p)) - int m) = Inr (Some q)" "q \<in> A"
        "int (nHeight (h q)) = int (nHeight (h p)) - int m"
        "steps_back h (nHeight (h p) - nat (int (nHeight (h p)) - int m)) p = Some q" .
    have hq: "nHeight (h q) = nHeight (h p) - m" "steps_back h m p = Some q"
      using q(3,4) mle by (simp_all add: nat_minus_as_int)
    have e: "nHeight (h q) + 1 = (nHeight (h p) + 1) - m"
      using hq(1) mle by simp
    then have bq: "(nHeight (h q) + 1) mod P = 0"
      unfolding m_def by (simp add: minus_mod_eq_mult_div)
    have dq: "(nHeight (h q) + 1) div P = (nHeight (h p) + 1) div P"
      unfolding e m_def using P(1) by (simp add: minus_mod_eq_mult_div)
    have "(nHeight (h p) + 1) div P * nat (Period chk) \<le> nHeight (h q) + 1"
      unfolding e m_def P_def[symmetric] by (simp add: minus_mod_eq_div_mult)
    then have "state_of h chk (Some q) = state_of h chk (Some p)"
      using bip9_state_ancestor[OF assms(1,2) hq(2), of "(nHeight (h p) + 1) div P" chk] dq
      by (simp add: state_of_def P_def[symmetric])
    then show ?thesis
      using False bq hq q(1,2) unfolding pe
      by (intro exI[of _ "Some q"]) (auto simp: boundary_def P_def m_def)
  qed
qed

lemma state_back_value:
  assumes "bip9_ok h A chk" "cache_ok h A chk cache" "boundary h A chk q"
  shows "\<exists>q' cache' v'. state_back h chk q cache v = Some (Inr (q', cache', v' @ v)) \<and>
    cache_ok h A chk cache' \<and> cache' q' = Some (state_of h chk q') \<and>
    (\<forall>cx. cache_ok h A chk cx \<longrightarrow> (\<exists>cy. cache_ok h A chk cy \<and>
       state_forward h chk (v' @ v) (state_of h chk q') cx = state_forward h chk v (state_of h chk q) cy))"
  using assms(3)
proof (induction "case q of None \<Rightarrow> 0 | Some p \<Rightarrow> Suc (nHeight (h p))" arbitrary: q v rule: less_induct)
  case less
  note ok = assms(1)[unfolded bip9_ok_def]
  let ?goal = "\<lambda>cache' q' v'. state_back h chk q cache v = Some (Inr (q', cache', v' @ v)) \<and>
    cache_ok h A chk cache' \<and> cache' q' = Some (state_of h chk q') \<and>
    (\<forall>cx. cache_ok h A chk cx \<longrightarrow> (\<exists>cy. cache_ok h A chk cy \<and>
       state_forward h chk (v' @ v) (state_of h chk q') cx = state_forward h chk v (state_of h chk q) cy))"
  have stop: "?goal cache' q []" if "state_back h chk q cache v = Some (Inr (q, cache', v))"
      "cache_ok h A chk cache'" "cache' q = Some (state_of h chk q)" for cache'
    using that by auto
  consider s where "cache q = Some s" | "cache q = None" "q = None"
    | p where "cache q = None" "q = Some p" "GetMedianTimePast h p < BeginTime chk"
    | p where "cache q = None" "q = Some p" "\<not> GetMedianTimePast h p < BeginTime chk"
    by (cases "cache q"; cases q) auto
  then show ?case
  proof cases
    case 1
    then have "?goal cache q []"
      using cache_ok_hit[OF assms(2)] assms(2) by (intro stop) (simp_all add: state_back.simps[of h chk q])
    then show ?thesis by blast
  next
    case 2
    let ?c = "cache(q \<mapsto> state_of h chk q)"
    have "state_back h chk q cache v = Some (Inr (q, ?c, v))"
      using 2 by (subst state_back.simps) (simp add: state_of_def)
    then have "?goal ?c q []"
      using cache_ok_update[OF assms(2) less.prems] by (intro stop) simp_all
    then show ?thesis by blast
  next
    case 3
    let ?c = "cache(q \<mapsto> state_of h chk q)"
    have "state_of h chk (Some p) = THRESHOLD_DEFINED"
      using ok less.prems 3 by (intro before_start_defined) (auto simp: boundary_def)
    then have "state_back h chk q cache v = Some (Inr (q, ?c, v))"
      using 3 by (subst state_back.simps) simp
    then have "?goal ?c q []"
      using cache_ok_update[OF assms(2) less.prems] by (intro stop) simp_all
    then show ?thesis by blast
  next
    case 4
    have p: "p \<in> A" "(nHeight (h p) + 1) mod nat (Period chk) = 0"
      using less.prems 4(2) by (simp_all add: boundary_def)
    have wf: "wf_tree h A" "0 < Period chk"
      using ok by simp_all
    from previous_boundary[OF wf(1) p(1) wf(2) p(2)] obtain r where
      r: "GetAncestor h p (int (nHeight (h p)) - Period chk) = Inr r"
        "state_of h chk (Some p) = bip9_next h chk p (state_of h chk r)"
        "\<forall>q. r = Some q \<longrightarrow> q \<in> A \<and> (nHeight (h q) + 1) mod nat (Period chk) = 0 \<and>
           nHeight (h q) + nat (Period chk) = nHeight (h p) \<and> (\<exists>k. steps_back h k p = Some q)"
        "nat (Period chk) \<le> nHeight (h p) + 1" .
    have br: "boundary h A chk r"
      using r(3) by (simp add: boundary_def)
    have lt: "(case r of None \<Rightarrow> 0 | Some p \<Rightarrow> Suc (nHeight (h p))) < (case q of None \<Rightarrow> 0 | Some p \<Rightarrow> Suc (nHeight (h p)))"
      using r(3) 4(2) wf(2) by (cases r) auto
    have step: "state_back h chk q cache v = state_back h chk r cache (p # v)"
      using 4 r(1) by (subst state_back.simps) simp
    have next': "state_next h chk p s = Inr (bip9_next h chk p s)" for s
      by (rule state_next_value[OF wf(1) p(1) r(4)])
    from less.hyps[OF lt br, of "p # v"] obtain q' c' v' where
      ih: "state_back h chk r cache (p # v) = Some (Inr (q', c', v' @ p # v))" "cache_ok h A chk c'"
        "c' q' = Some (state_of h chk q')"
        "\<And>cx. cache_ok h A chk cx \<Longrightarrow> \<exists>cy. cache_ok h A chk cy \<and>
           state_forward h chk (v' @ p # v) (state_of h chk q') cx = state_forward h chk (p # v) (state_of h chk r) cy"
      by blast
    have "\<exists>cy. cache_ok h A chk cy \<and>
        state_forward h chk ((v' @ [p]) @ v) (state_of h chk q') cx = state_forward h chk v (state_of h chk q) cy"
      if cx: "cache_ok h A chk cx" for cx
    proof -
      obtain cy where cy: "cache_ok h A chk cy"
        "state_forward h chk (v' @ p # v) (state_of h chk q') cx = state_forward h chk (p # v) (state_of h chk r) cy"
        using ih(4)[OF cx] by blast
      have "state_forward h chk (p # v) (state_of h chk r) cy =
          state_forward h chk v (state_of h chk q) (cy(q \<mapsto> state_of h chk q))"
        using next' r(2) 4(2) by simp
      then show ?thesis
        using cy cache_ok_update[OF cy(1) less.prems] by auto
    qed
    then have "?goal c' q' (v' @ [p])"
      using step ih by simp
    then show ?thesis by blast
  qed
qed

lemma GetStateFor_value:
  assumes "bip9_ok h A chk" "cache_ok h A chk cache" "\<And>p. pindexPrev = Some p \<Longrightarrow> p \<in> A"
  shows "\<exists>cache'. GetStateFor h chk pindexPrev cache = Some (Inr (state_of h chk pindexPrev, cache')) \<and>
    cache_ok h A chk cache'"
proof -
  have wf: "wf_tree h A" "0 < Period chk"
    using assms(1) by (simp_all add: bip9_ok_def)
  obtain q where q: "(case pindexPrev of None \<Rightarrow> Some (Inr None) | Some p \<Rightarrow> Some (period_end h (Period chk) p)) = Some (Inr q)"
    "boundary h A chk q" "state_of h chk q = state_of h chk pindexPrev"
  proof (cases pindexPrev)
    case None
    then show thesis
      by (intro that[of None]) (simp_all add: boundary_def)
  next
    case (Some p)
    then show thesis
      using period_end_value[OF wf(1) assms(3)[OF Some] wf(2)] that by auto
  qed
  obtain q' c' v' where b: "state_back h chk q cache [] = Some (Inr (q', c', v'))" "cache_ok h A chk c'"
      "c' q' = Some (state_of h chk q')"
      "\<exists>cy. cache_ok h A chk cy \<and>
         state_forward h chk v' (state_of h chk q') c' = state_forward h chk [] (state_of h chk q) cy"
    using state_back_value[OF assms(1,2) q(2), of "[]"] by fastforce
  then show ?thesis
    using q by (auto simp: GetStateFor_def)
qed


section \<open>Transitions\<close>

lemma state_of_ancestor:
  assumes "wf_tree h A" "p \<in> A" "0 < Period chk" "steps_back h j p = Some r"
  shows "state_of h chk (Some r) = bip9_state h chk p ((nHeight (h r) + 1) div nat (Period chk))"
  using bip9_state_ancestor[OF assms(1,2,4), of "(nHeight (h r) + 1) div nat (Period chk)" chk]
  by (simp add: state_of_def)

lemma bip9_state_terminal:
  assumes "bip9_state h chk p k = s" "s = THRESHOLD_ACTIVE \<or> s = THRESHOLD_FAILED"
  shows "bip9_state h chk p (k + d) = s"
  using assms by (induction d) (auto simp: bip9_next_def)

lemma state_of_terminal:
  assumes "wf_tree h A" "p \<in> A" "0 < Period chk" "steps_back h j p = Some r"
    and "state_of h chk (Some r) = s" "s = THRESHOLD_ACTIVE \<or> s = THRESHOLD_FAILED"
  shows "state_of h chk (Some p) = s"
proof -
  let ?P = "nat (Period chk)"
  have "(nHeight (h r) + 1) div ?P \<le> (nHeight (h p) + 1) div ?P"
    using back_in(3)[OF assms(1,2,4)] by (intro div_le_mono) simp
  then obtain d where "(nHeight (h p) + 1) div ?P = (nHeight (h r) + 1) div ?P + d"
    using le_Suc_ex by blast
  then show ?thesis
    using bip9_state_terminal[OF _ assms(6)] state_of_ancestor[OF assms(1-4)] assms(5)
    by (simp add: state_of_def)
qed

lemma since_loop_value:
  assumes "bip9_ok h A chk" "p0 \<in> A" "s \<noteq> THRESHOLD_DEFINED"
    and "cache_ok h A chk cache" "steps_back h i p0 = Some p" "nHeight (h p) + 1 = Suc k * nat (Period chk)"
    and "GetAncestor h p (int (nHeight (h p)) - Period chk) = Inr r" "bip9_state h chk p0 (Suc k) = s"
  shows "\<exists>e cache' j. since_loop h chk s p r cache = Some (Inr (e, cache')) \<and> cache_ok h A chk cache' \<and>
    j \<le> k \<and> nHeight (h e) + 1 = Suc j * nat (Period chk) \<and>
    (\<forall>l \<in> {Suc j..Suc k}. bip9_state h chk p0 l = s) \<and> bip9_state h chk p0 j \<noteq> s"
  using assms(4-8)
proof (induction k arbitrary: p r cache i)
  case 0
  have "int (nHeight (h p)) - Period chk < 0"
    using 0(3) assms(1) by (simp add: bip9_ok_def)
  then have "r = None"
    using 0(4) by (simp add: GetAncestor_def)
  then show ?case
    using 0 assms(3) by (subst since_loop.simps) auto
next
  case (Suc k)
  let ?P = "nat (Period chk)"
  have wf: "wf_tree h A" "0 < Period chk"
    using assms(1) by (simp_all add: bip9_ok_def)
  note p = back_in[OF wf(1) assms(2) Suc.prems(2)]
  have P: "Period chk = int ?P" "0 < ?P"
    using wf(2) by simp_all
  have pos: "1 \<le> Suc k * ?P"
    using P(2) by simp
  have ge: "int (nHeight (h p)) - Period chk = int (Suc k * ?P) - 1"
    using Suc.prems(3) P(1) by (simp only: mult_Suc of_nat_add)
  then have range: "0 \<le> int (nHeight (h p)) - Period chk" "int (nHeight (h p)) - Period chk \<le> int (nHeight (h p))"
    using pos P(1) by linarith+
  from GetAncestor_in[OF wf(1) p(1) range] obtain q where
    q: "GetAncestor h p (int (nHeight (h p)) - Period chk) = Inr (Some q)" "q \<in> A"
      "int (nHeight (h q)) = int (nHeight (h p)) - Period chk"
      "steps_back h (nHeight (h p) - nat (int (nHeight (h p)) - Period chk)) p = Some q" .
  have r: "r = Some q"
    using q(1) Suc.prems(4) by simp
  have hq: "nHeight (h q) + 1 = Suc k * ?P"
    using q(3) ge by linarith
  have q0: "steps_back h (i + (nHeight (h p) - nat (int (nHeight (h p)) - Period chk))) p0 = Some q"
    using back_add[of h i _ p0] Suc.prems(2) q(4) by simp
  have st: "state_of h chk (Some q) = bip9_state h chk p0 (Suc k)"
    using state_of_ancestor[OF wf(1) assms(2) wf(2) q0] hq P(2) by (simp del: mult_Suc)
  obtain c' where c': "GetStateFor h chk (Some q) cache = Some (Inr (bip9_state h chk p0 (Suc k), c'))" "cache_ok h A chk c'"
    using GetStateFor_value[OF assms(1) Suc.prems(1), of "Some q"] q(2) st by auto
  show ?case
  proof (cases "bip9_state h chk p0 (Suc k) = s")
    case False
    then have "since_loop h chk s p r cache = Some (Inr (p, c'))"
      using c'(1) r by (subst since_loop.simps) simp
    then show ?thesis
      using c'(2) False Suc.prems(3,5)
      by (intro exI[of _ p] exI[of _ c'] exI[of _ "Suc k"]) (auto simp del: bip9_state.simps mult_Suc)
  next
    case True
    have "\<exists>r'. GetAncestor h q (int (nHeight (h q)) - Period chk) = Inr r'"
      using GetAncestor_value[OF wf(1) q(2), of "int (nHeight (h q)) - Period chk"] by blast
    then obtain r' where r': "GetAncestor h q (int (nHeight (h q)) - Period chk) = Inr r'" by blast
    then have step: "since_loop h chk s p r cache = since_loop h chk s q r' c'"
      using c'(1) r True by (subst since_loop.simps) simp
    from Suc.IH[OF c'(2) q0 hq r' True] obtain e cache' j where
      e: "since_loop h chk s q r' c' = Some (Inr (e, cache'))" "cache_ok h A chk cache'" "j \<le> k"
        "nHeight (h e) + 1 = Suc j * ?P" "\<forall>l \<in> {Suc j..Suc k}. bip9_state h chk p0 l = s" "bip9_state h chk p0 j \<noteq> s"
      by blast
    have "\<forall>l \<in> {Suc j..Suc (Suc k)}. bip9_state h chk p0 l = s"
      using e(5) Suc.prems(5) by (auto simp: le_Suc_eq simp del: bip9_state.simps)
    then show ?thesis
      using e step by (intro exI[of _ e] exI[of _ cache'] exI[of _ j]) (simp del: bip9_state.simps mult_Suc)
  qed
qed


section \<open>Properties\<close>

text \<open>A chain without forks: block \<open>n\<close> has height \<open>n\<close>, comes \<open>n\<close> seconds after \<open>base\<close> and has the version \<open>ver n\<close>.\<close>

definition line_mem :: "u32 \<Rightarrow> (nat \<Rightarrow> u32) \<Rightarrow> block_mem" where
  "line_mem base ver p = null_index\<lparr>pprev := (if p = 0 then None else Some (p - 1)), nHeight := p,
     nTime := base + of_nat p, nVersion := ver p\<rparr>"

lemma line_mem_simps [simp]:
  "pprev (line_mem base ver p) = (if p = 0 then None else Some (p - 1))" "nHeight (line_mem base ver p) = p"
  "pskip (line_mem base ver p) = None" "nVersion (line_mem base ver p) = ver p"
  "nTime (line_mem base ver p) = base + of_nat p"
  by (simp_all add: line_mem_def null_index_def)

lemma line_mem_wf: "wf_tree (line_mem base ver) {..<n}"
  by (auto simp: wf_tree_def wf_entry_def)

lemma line_mem_time: "unat base + p < 2 ^ 32 \<Longrightarrow> GetBlockTime (line_mem base ver p) = int (unat base + p)"
proof -
  assume a: "unat base + p < 2 ^ 32"
  then have "p < 2 ^ 32"
    by simp
  then have "unat (of_nat p :: u32) = p"
    by (simp add: unsigned_of_nat take_bit_nat_eq_self)
  then have "unat (base + of_nat p :: u32) = unat base + p"
    using a by (subst unat_add_lem[THEN iffD1]) simp_all
  then have "uint (base + of_nat p) = int (unat base + p)"
    by (metis uint_nat)
  then show ?thesis
    by (simp only: GetBlockTime_def line_mem_simps)
qed

lemma line_mem_past:
  assumes "unat base + n < 2 ^ 32" "case q of None \<Rightarrow> True | Some p \<Rightarrow> p \<le> n"
  shows "\<forall>t \<in> set (past_times (line_mem base ver) k q). t \<le> int (unat base + n)"
  using assms(2)
proof (induction k arbitrary: q)
  case (Suc k)
  show ?case
  proof (cases q)
    case (Some p)
    then have "p \<le> n" using Suc.prems by simp
    moreover have "\<forall>t \<in> set (past_times (line_mem base ver) k (if p = 0 then None else Some (p - 1))). t \<le> int (unat base + n)"
      using \<open>p \<le> n\<close> by (intro Suc.IH) auto
    ultimately show ?thesis
      using Some assms(1) line_mem_time[of base p ver] by auto
  qed simp
qed simp

lemma line_mem_times_ok:
  assumes "unat base + n < 2 ^ 32"
  shows "times_ok (line_mem base ver) {..<n}"
proof -
  have "GetMedianTimePast (line_mem base ver) (p - 1) < GetBlockTime (line_mem base ver p)" if "p < n" "p \<noteq> 0" for p
  proof -
    let ?ts = "past_times (line_mem base ver) nMedianTimeSpan (Some (p - 1))"
    have "?ts \<noteq> []"
      by (simp add: nMedianTimeSpan_def numeral_eq_Suc)
    then have "sort ?ts ! (length ?ts div 2) \<in> set ?ts"
      by (metis div_less_dividend length_greater_0_conv length_sort nth_mem one_less_numeral_iff semiring_norm(76) set_sort)
    moreover have "\<forall>t \<in> set ?ts. t \<le> int (unat base + (p - 1))"
      using that assms by (intro line_mem_past) simp_all
    ultimately have "GetMedianTimePast (line_mem base ver) (p - 1) \<le> int (unat base + (p - 1))"
      by (simp add: GetMedianTimePast_def Let_def)
    then show ?thesis
      using that assms line_mem_time[of base p ver] by simp
  qed
  then show ?thesis
    by (auto simp: times_ok_def)
qed

definition line_checker :: ThresholdChecker where
  "line_checker = \<lparr>Condition = (\<lambda>b. nVersion b AND 1 \<noteq> 0), BeginTime = 102, EndTime = 200, Period = 2, Threshold = 2\<rparr>"

lemma line_ok: "bip9_ok (line_mem 100 ver) {..<12} line_checker"
  using line_mem_wf[of 100 ver 12] line_mem_times_ok[of 100 12 ver] by (simp add: bip9_ok_def line_checker_def)

lemma empty_cache_ok: "cache_ok h A chk (\<lambda>k. None)"
  by (simp add: cache_ok_def)

text \<open>
  C10. Deployment states: on a well-formed block tree whose block times pass the median-time rule,
  \<^verbatim>\<open>GetStateFor\<close> returns, without a failed assertion or a null read, the state that the uncached
  recursion over all periods gives, whatever a consistent cache holds, and leaves the cache consistent;
  the empty cache is consistent. So neither the cache nor the early exit before the start time changes
  the result.
\<close>

theorem GetStateFor_refines_bip9:
  assumes "bip9_ok h A chk" "cache_ok h A chk cache" "case pindexPrev of None \<Rightarrow> True | Some p \<Rightarrow> p \<in> A"
  shows "\<exists>cache'. GetStateFor h chk pindexPrev cache = Some (Inr (state_of h chk pindexPrev, cache')) \<and>
    cache_ok h A chk cache' \<and> cache_ok h A chk (\<lambda>k. None)"
  using GetStateFor_value[OF assms(1,2), of pindexPrev] assms(3) empty_cache_ok by (cases pindexPrev) auto

theorem GetStateFor_refines_bip9_witness:
  "(\<exists>cache'. GetStateFor (line_mem 100 (\<lambda>n. 1)) line_checker (Some 7) (\<lambda>k. None) = Some (Inr (THRESHOLD_ACTIVE, cache'))) \<and>
   (\<exists>cache'. GetStateFor (line_mem 100 (\<lambda>n. 0)) line_checker (Some 7) (\<lambda>k. None) = Some (Inr (THRESHOLD_STARTED, cache')))"
proof -
  have "state_of (line_mem 100 (\<lambda>n. 1)) line_checker (Some 7) = THRESHOLD_ACTIVE"
    "state_of (line_mem 100 (\<lambda>n. 0)) line_checker (Some 7) = THRESHOLD_STARTED"
    by code_simp+
  then show ?thesis
    using GetStateFor_refines_bip9[OF line_ok empty_cache_ok, of "Some 7" "\<lambda>n. 1"]
      GetStateFor_refines_bip9[OF line_ok empty_cache_ok, of "Some 7" "\<lambda>n. 0"] by auto
qed

text \<open>
  C24. Terminal states: once a deployment is active (or has failed) for the child of a block, it is
  active (failed) for the child of every descendant of that block, whatever caches the two calls use.
\<close>

theorem deployment_terminal:
  assumes "bip9_ok h A chk" "p \<in> A" "steps_back h j p = Some r"
    and "cache_ok h A chk c1" "cache_ok h A chk c2"
    and "GetStateFor h chk (Some r) c1 = Some (Inr (s, c1'))" "s \<in> {THRESHOLD_ACTIVE, THRESHOLD_FAILED}"
  shows "\<exists>c2'. GetStateFor h chk (Some p) c2 = Some (Inr (s, c2'))"
proof -
  have wf: "wf_tree h A" "0 < Period chk"
    using assms(1) by (simp_all add: bip9_ok_def)
  have "r \<in> A"
    by (rule back_in(1)[OF wf(1) assms(2,3)])
  then have "state_of h chk (Some r) = s"
    using GetStateFor_value[OF assms(1,4), of "Some r"] assms(6) by auto
  then have "state_of h chk (Some p) = s"
    using state_of_terminal[OF wf(1) assms(2) wf(2) assms(3)] assms(7) by auto
  then show ?thesis
    using GetStateFor_value[OF assms(1,5), of "Some p"] assms(2) by auto
qed

theorem deployment_terminal_witness:
  "\<exists>c c'. GetStateFor (line_mem 100 (\<lambda>n. 1)) line_checker (Some 7) (\<lambda>k. None) = Some (Inr (THRESHOLD_ACTIVE, c)) \<and>
     GetStateFor (line_mem 100 (\<lambda>n. 1)) line_checker (Some 11) (\<lambda>k. None) = Some (Inr (THRESHOLD_ACTIVE, c'))"
proof -
  let ?h = "line_mem 100 (\<lambda>n. 1)"
  have "state_of ?h line_checker (Some 7) = THRESHOLD_ACTIVE" "steps_back ?h 4 11 = Some 7"
    by code_simp+
  moreover from this obtain c where
    "GetStateFor ?h line_checker (Some 7) (\<lambda>k. None) = Some (Inr (THRESHOLD_ACTIVE, c))"
    using GetStateFor_value[OF line_ok empty_cache_ok, of "Some 7" "\<lambda>n. 1"] by auto
  ultimately show ?thesis
    using deployment_terminal[OF line_ok _ _ empty_cache_ok empty_cache_ok, of 11 "\<lambda>n. 1" 4 7 THRESHOLD_ACTIVE c]
    by auto
qed

lemma GetStateSinceHeight_value:
  assumes "bip9_ok h A chk" "cache_ok h A chk cache" "p \<in> A" "state_of h chk (Some p) \<noteq> THRESHOLD_DEFINED"
  shows "\<exists>j cache'. GetStateSinceHeightFor h chk (Some p) cache = Some (Inr (int (Suc j * nat (Period chk)), cache')) \<and>
    cache_ok h A chk cache' \<and> Suc j \<le> (nHeight (h p) + 1) div nat (Period chk) \<and>
    (\<forall>l \<in> {Suc j..(nHeight (h p) + 1) div nat (Period chk)}. bip9_state h chk p l = state_of h chk (Some p)) \<and>
    bip9_state h chk p j \<noteq> state_of h chk (Some p)"
proof -
  let ?s = "state_of h chk (Some p)" and ?P = "nat (Period chk)"
  have wf: "wf_tree h A" "0 < Period chk" "0 < ?P"
    using assms(1) by (simp_all add: bip9_ok_def)
  obtain c' where c': "GetStateFor h chk (Some p) cache = Some (Inr (?s, c'))" "cache_ok h A chk c'"
    using GetStateFor_value[OF assms(1,2), of "Some p"] assms(3) by auto
  from period_end_value[OF wf(1) assms(3) wf(2)] obtain e0 where
    e0: "period_end h (Period chk) p = Inr e0" "boundary h A chk e0" "state_of h chk e0 = ?s"
      "\<forall>e. e0 = Some e \<longrightarrow> nHeight (h e) = nHeight (h p) - (nHeight (h p) + 1) mod ?P \<and>
         steps_back h ((nHeight (h p) + 1) mod ?P) p = Some e" by blast
  obtain e where e: "e0 = Some e" "e \<in> A"
    using e0(2,3) assms(4) by (cases e0) (auto simp: boundary_def state_of_def)
  have se: "steps_back h ((nHeight (h p) + 1) mod ?P) p = Some e"
    using e0(4) e(1) by blast
  have he: "nHeight (h e) + 1 = (nHeight (h p) + 1) div ?P * ?P"
    using e0(4) e(1) back_in(2)[OF wf(1) assms(3) se] by (auto simp: minus_mod_eq_div_mult[symmetric])
  then obtain k where k: "(nHeight (h p) + 1) div ?P = Suc k"
    by (cases "(nHeight (h p) + 1) div ?P") simp_all
  have sk: "bip9_state h chk p (Suc k) = ?s"
    unfolding k[symmetric] by (simp add: state_of_def)
  obtain r where r: "GetAncestor h e (int (nHeight (h e)) - Period chk) = Inr r"
    using GetAncestor_value[OF wf(1) e(2)] by blast
  from since_loop_value[OF assms(1,3,4) c'(2) se he[unfolded k] r sk] obtain f cf j where
    f: "since_loop h chk ?s e r c' = Some (Inr (f, cf))" "cache_ok h A chk cf" "j \<le> k"
      "nHeight (h f) + 1 = Suc j * ?P" "\<forall>l \<in> {Suc j..Suc k}. bip9_state h chk p l = ?s" "bip9_state h chk p j \<noteq> ?s"
    by blast
  have "GetStateSinceHeightFor h chk (Some p) cache = Some (Inr (int (nHeight (h f) + 1), cf))"
    using c'(1) assms(4) e0(1) e(1) r f(1) by (simp add: GetStateSinceHeightFor_def)
  then show ?thesis
    using f k by (intro exI[of _ j] exI[of _ cf]) (simp only: Suc_le_mono, blast)
qed

text \<open>
  C25. Start of a state: for a state other than \<open>DEFINED\<close>, \<^verbatim>\<open>GetStateSinceHeightFor\<close> returns the height
  from which on the chain has been in this state without interruption: the block at that height and all
  later ones have it, the block just below does not; for \<open>DEFINED\<close> it returns 0.
\<close>

theorem GetStateSinceHeight_first:
  assumes "bip9_ok h A chk" "cache_ok h A chk cache" "p \<in> A"
  shows "\<exists>n cache'. GetStateSinceHeightFor h chk (Some p) cache = Some (Inr (int n, cache')) \<and>
    cache_ok h A chk cache' \<and> n \<le> nHeight (h p) + 1 \<and>
    (state_of h chk (Some p) = THRESHOLD_DEFINED \<longrightarrow> n = 0) \<and>
    (state_of h chk (Some p) \<noteq> THRESHOLD_DEFINED \<longrightarrow>
      (\<forall>j q. steps_back h j p = Some q \<and> n \<le> nHeight (h q) + 1 \<longrightarrow>
         state_of h chk (Some q) = state_of h chk (Some p)) \<and>
      (\<forall>j q. steps_back h j p = Some q \<and> nHeight (h q) + 2 = n \<longrightarrow>
         state_of h chk (Some q) \<noteq> state_of h chk (Some p)))"
proof -
  let ?s = "state_of h chk (Some p)" and ?P = "nat (Period chk)"
  have wf: "wf_tree h A" "0 < Period chk" "0 < ?P"
    using assms(1) by (simp_all add: bip9_ok_def)
  obtain c' where c': "GetStateFor h chk (Some p) cache = Some (Inr (?s, c'))" "cache_ok h A chk c'"
    using GetStateFor_value[OF assms(1,2), of "Some p"] assms(3) by auto
  show ?thesis
  proof (cases "?s = THRESHOLD_DEFINED")
    case True
    then show ?thesis
      using c' by (intro exI[of _ 0] exI[of _ c']) (simp add: GetStateSinceHeightFor_def)
  next
    case False
    from GetStateSinceHeight_value[OF assms False] obtain j cf where
      f: "GetStateSinceHeightFor h chk (Some p) cache = Some (Inr (int (Suc j * ?P), cf))" "cache_ok h A chk cf"
        "Suc j \<le> (nHeight (h p) + 1) div ?P"
        "\<forall>l \<in> {Suc j..(nHeight (h p) + 1) div ?P}. bip9_state h chk p l = ?s" "bip9_state h chk p j \<noteq> ?s"
      by blast
    let ?n = "Suc j * ?P"
    have le: "?n \<le> nHeight (h p) + 1"
      using f(3) by (metis div_times_less_eq_dividend le_trans mult_le_mono1)
    have "state_of h chk (Some q) = ?s" if q: "steps_back h i p = Some q" "?n \<le> nHeight (h q) + 1" for i q
    proof -
      have "Suc j \<le> (nHeight (h q) + 1) div ?P"
        using q(2) wf(3) by (metis div_le_mono nonzero_mult_div_cancel_right not_gr_zero)
      moreover have "(nHeight (h q) + 1) div ?P \<le> (nHeight (h p) + 1) div ?P"
        using back_in(3)[OF wf(1) assms(3) q(1)] by (intro div_le_mono) simp
      ultimately show ?thesis
        using f(4) state_of_ancestor[OF wf(1) assms(3) wf(2) q(1)] by simp
    qed
    moreover have "state_of h chk (Some q) \<noteq> ?s" if q: "steps_back h i p = Some q" "nHeight (h q) + 2 = ?n" for i q
    proof -
      have "(nHeight (h q) + 1) div ?P = j"
        using q(2) wf(3) by (intro div_nat_eqI) (simp_all add: algebra_simps)
      then show ?thesis
        using f(5) state_of_ancestor[OF wf(1) assms(3) wf(2) q(1)] by simp
    qed
    ultimately show ?thesis
      using f(1,2) le False by (intro exI[of _ ?n] exI[of _ cf]) blast
  qed
qed

theorem GetStateSinceHeight_first_witness:
  "\<exists>n cache'. GetStateSinceHeightFor (line_mem 100 (\<lambda>n. 1)) line_checker (Some 11) (\<lambda>k. None) = Some (Inr (int n, cache')) \<and>
     n \<le> 12 \<and> cache_ok (line_mem 100 (\<lambda>n. 1)) {..<12} line_checker cache'"
  using GetStateSinceHeight_first[OF line_ok empty_cache_ok, of 11 "\<lambda>n. 1"] by auto


lemma signalled_Suc:
  "pprev (h p) = Some q \<Longrightarrow> signalled h C (Suc n) p = (if C (h p) then 1 else 0) + signalled h C n q"
proof -
  assume q: "pprev (h p) = Some q"
  have "[0..<Suc n] = 0 # map Suc [0..<n]"
    by (simp add: map_Suc_upt upt_conv_Cons del: upt_Suc)
  then show ?thesis
    using q by (simp add: signalled_def filter_map comp_def del: upt_Suc)
qed

lemma count_back_value:
  assumes "wf_tree h A" "p \<in> A" "n \<le> nHeight (h p)"
  shows "count_back h C (nHeight (h p) - n) (Some p) count = Some (Inr (count + signalled h C n p))"
  using assms(2,3)
proof (induction n arbitrary: p count)
  case 0
  then show ?case by (subst count_back.simps) (simp add: signalled_def)
next
  case (Suc n)
  obtain q where q: "pprev (h p) = Some q" "q \<in> A" "nHeight (h p) = Suc (nHeight (h q))"
    using wf_treeD(1,2)[OF assms(1) Suc.prems(1)] Suc.prems(2) by (cases "pprev (h p)") auto
  have "count_back h C (nHeight (h p) - Suc n) (Some p) count =
      count_back h C (nHeight (h q) - n) (Some q) (if C (h p) then count + 1 else count)"
    using q Suc.prems(2) by (subst count_back.simps) auto
  also have "\<dots> = Some (Inr ((if C (h p) then count + 1 else count) + signalled h C n q))"
    using q Suc.prems(2) by (intro Suc.IH) simp_all
  finally show ?case
    using signalled_Suc[of h p q C n] q(1) by simp
qed

text \<open>
  C26. Signalling statistics: past the first period \<^verbatim>\<open>GetStateStatisticsFor\<close> returns the number of blocks
  of the running period up to the given block, how many of them signal, and whether the threshold can
  still be met; inside the first period it reads through a null pointer, as the end of the previous
  period does not exist.
\<close>

theorem GetStateStatistics_counts:
  assumes "wf_tree h A" "p \<in> A" "0 < Period chk"
  shows "GetStateStatisticsFor h chk (Some p) =
    (let n = (nHeight (h p) + 1) mod nat (Period chk); c = signalled h (Condition chk) n p in
     if nHeight (h p) + 1 < nat (Period chk) then Some (Inl NullDeref)
     else Some (Inr \<lparr>stats_period = Period chk, stats_threshold = Threshold chk, stats_elapsed = int n,
       stats_count = c, stats_possible = (Threshold chk \<le> c + (Period chk - int n))\<rparr>))"
proof -
  let ?P = "nat (Period chk)" and ?n = "(nHeight (h p) + 1) mod nat (Period chk)"
  from period_end_value[OF assms] obtain e0 where
    e0: "period_end h (Period chk) p = Inr e0" "e0 = None \<longleftrightarrow> nHeight (h p) + 1 < ?P"
      "\<forall>e. e0 = Some e \<longrightarrow> nHeight (h e) = nHeight (h p) - ?n \<and> steps_back h ?n p = Some e" by blast
  show ?thesis
  proof (cases e0)
    case None
    then show ?thesis
      using e0(1,2) by (simp add: GetStateStatisticsFor_def)
  next
    case (Some e)
    have le: "?n \<le> nHeight (h p)"
      using e0(3) Some back_in(2)[OF assms(1,2)] by blast
    have he: "nHeight (h e) = nHeight (h p) - ?n"
      using e0(3) Some by blast
    have c: "count_back h (Condition chk) (nHeight (h e)) (Some p) 0 = Some (Inr (signalled h (Condition chk) ?n p))"
      unfolding he using count_back_value[OF assms(1,2) le, of "Condition chk" 0] by simp
    have el: "int (nHeight (h p)) - int (nHeight (h e)) = int ?n"
      using he le by simp
    have "\<not> nHeight (h p) + 1 < ?P"
      using e0(2) Some by simp
    then show ?thesis
      using e0(1) Some c el unfolding GetStateStatisticsFor_def Let_def by (auto simp: Let_def)
  qed
qed

theorem GetStateStatistics_counts_witness:
  "GetStateStatisticsFor (line_mem 100 (\<lambda>n. 1)) line_checker (Some 10) =
     Some (Inr \<lparr>stats_period = 2, stats_threshold = 2, stats_elapsed = 1, stats_count = 1, stats_possible = True\<rparr>)"
proof -
  have p: "0 < Period line_checker" "10 \<in> {..<12 :: nat}"
    by (simp_all add: line_checker_def)
  have "signalled (line_mem 100 (\<lambda>n. 1)) (Condition line_checker) 1 10 = 1"
    by code_simp
  then show ?thesis
    unfolding GetStateStatistics_counts[OF line_mem_wf p(2,1)] by (simp add: line_checker_def)
qed

lemma main_checker:
  "Period (VersionBitsConditionChecker main_consensus pos) = 2016"
  "BeginTime (VersionBitsConditionChecker main_consensus pos) = 1653004800"
  "EndTime (VersionBitsConditionChecker main_consensus pos) = 1653264000"
  by (cases pos; simp add: VersionBitsConditionChecker_def main_consensus_def main_deployment_def)+

lemma root_median: "pprev (h p) = None \<Longrightarrow> GetMedianTimePast h p = GetBlockTime (h p)"
proof -
  assume "pprev (h p) = None"
  then have "past_times h nMedianTimeSpan (Some p) = [GetBlockTime (h p)]"
    by (simp add: nMedianTimeSpan_def numeral_eq_Suc)
  then show ?thesis
    by (simp add: GetMedianTimePast_def)
qed

lemma median_ge_root:
  assumes "wf_tree h A" "times_ok h A" "p \<in> A"
    and root: "\<And>q. q \<in> A \<Longrightarrow> pprev (h q) = None \<Longrightarrow> t \<le> GetBlockTime (h q)"
  shows "t \<le> GetMedianTimePast h p"
proof -
  obtain r where r: "steps_back h (nHeight (h p)) p = Some r" "r \<in> A" "nHeight (h r) = 0"
    using back_height[OF assms(1,3) order_refl] by auto
  then have "pprev (h r) = None"
    using wf_treeD(2)[OF assms(1) r(2)] by (cases "pprev (h r)") auto
  then show ?thesis
    using median_mono[OF assms(1-3) r(1)] root[OF r(2)] root_median by fastforce
qed

lemma late_chain_fails:
  assumes "wf_tree h A" "times_ok h A" "p \<in> A" "0 < Period chk"
    and root: "\<And>q. q \<in> A \<Longrightarrow> pprev (h q) = None \<Longrightarrow> EndTime chk \<le> GetBlockTime (h q)"
    and "Suc k * nat (Period chk) \<le> nHeight (h p) + 1"
  shows "bip9_state h chk p (Suc k) = THRESHOLD_FAILED"
  using assms(6)
proof (induction k)
  case 0
  let ?n = "nHeight (h p) + 1 - nat (Period chk)"
  have "?n \<le> nHeight (h p)"
    using assms(4) by linarith
  then obtain q where q: "steps_back h ?n p = Some q" "q \<in> A"
    using back_height[OF assms(1,3), of ?n] by blast
  then show ?case
    using median_ge_root[OF assms(1,2) q(2) root] by (simp add: bip9_next_def Let_def)
next
  case (Suc k)
  then show ?case
    by (simp add: bip9_next_def Let_def)
qed

text \<open>
  C27. The main network's deployments cannot activate by signalling: the timeouts of all six lie before
  the time of the genesis block, so on any valid chain the state is \<open>DEFINED\<close> in the first period of 2016
  blocks and \<open>FAILED\<close> ever after, whatever the miners signal.
\<close>

theorem main_deployments_fail:
  assumes "wf_tree h A" "times_ok h A" "p \<in> A"
    and "\<And>q. q \<in> A \<Longrightarrow> pprev (h q) = None \<Longrightarrow> nTime (h q) = main_genesis_time"
    and "cache_ok h A (VersionBitsConditionChecker main_consensus pos) (caches pos)"
  shows "\<exists>caches'. VersionBitsState h (Some p) main_consensus pos caches =
    Some (Inr (if nHeight (h p) + 1 < 2016 then THRESHOLD_DEFINED else THRESHOLD_FAILED, caches'))"
proof -
  let ?c = "VersionBitsConditionChecker main_consensus pos"
  have ok: "bip9_ok h A ?c"
    using assms(1,2) by (simp add: bip9_ok_def main_checker)
  have root: "EndTime ?c \<le> GetBlockTime (h q)" if "q \<in> A" "pprev (h q) = None" for q
    using assms(4)[OF that] by (simp add: GetBlockTime_def main_genesis_time_def main_checker)
  have "state_of h ?c (Some p) = (if nHeight (h p) + 1 < 2016 then THRESHOLD_DEFINED else THRESHOLD_FAILED)"
  proof (cases "(nHeight (h p) + 1) div 2016")
    case 0
    then show ?thesis
      by (simp add: state_of_def main_checker div_eq_0_iff)
  next
    case (Suc k)
    then have k: "Suc k * 2016 \<le> nHeight (h p) + 1"
      by (metis div_times_less_eq_dividend)
    then have "bip9_state h ?c p (Suc k) = THRESHOLD_FAILED"
      using assms(1-3) root by (intro late_chain_fails) (simp_all add: main_checker)
    then show ?thesis
      using Suc k by (simp add: state_of_def main_checker del: bip9_state.simps)
  qed
  then show ?thesis
    using GetStateFor_value[OF ok assms(5), of "Some p"] assms(3) by (auto simp: VersionBitsState_def)
qed

theorem main_deployments_fail_witness:
  "\<exists>caches'. VersionBitsState (line_mem main_genesis_time (\<lambda>n. 0xffffffff)) (Some 2500) main_consensus
     DEPLOYMENT_ASSETS (\<lambda>d k. None) = Some (Inr (THRESHOLD_FAILED, caches'))"
proof -
  let ?h = "line_mem main_genesis_time (\<lambda>n. 0xffffffff)"
  have "times_ok ?h {..<3000}"
    by (rule line_mem_times_ok) (simp add: main_genesis_time_def)
  moreover have "nTime (?h q) = main_genesis_time" if "pprev (?h q) = None" for q
    using that by (simp split: if_splits)
  ultimately show ?thesis
    using main_deployments_fail[OF line_mem_wf, of main_genesis_time "\<lambda>n. 0xffffffff" 3000 2500 DEPLOYMENT_ASSETS "\<lambda>d k. None"]
      empty_cache_ok by simp
qed

end
