(* ===== verification/Pow.thy ===== *)
theory Pow
  imports VersionBits
begin

unbundle bit_operations_syntax

text \<open>
  Proof of work (src/src/pow.cpp and the header checks of validation.cpp). A block's target is kept in
  compact form; \<^verbatim>\<open>DarkGravityWave\<close> averages the targets of ten blocks and rescales by the time they took.
  Time spans and parameters are integers (the products of the source are far below \<open>2 ^ 63\<close> for any
  configuration); targets are the 256-bit integers of theory \<^verbatim>\<open>Arith256\<close>, with their wrap-around. The
  multiplication by a time span uses the 32-bit overload of the source, so the span is cut to 32 bits.
\<close>

section \<open>Headers\<close>

record CBlockHeader =
  hdr_nVersion :: u32
  hdr_hashPrevBlock :: bytes
  hdr_hashMerkleRoot :: bytes
  hdr_nTime :: u32
  hdr_nBits :: u32
  hdr_nNonce :: u32
  hdr_nHeight :: u32
  hdr_nNonce64 :: u64
  hdr_mix_hash :: bytes

definition null_header :: CBlockHeader where
  "null_header = \<lparr>hdr_nVersion = 0, hdr_hashPrevBlock = uint256_null, hdr_hashMerkleRoot = uint256_null,
     hdr_nTime = 0, hdr_nBits = 0, hdr_nNonce = 0, hdr_nHeight = 0, hdr_nNonce64 = 0,
     hdr_mix_hash = uint256_null\<rparr>"

definition hdr_GetBlockTime :: "CBlockHeader \<Rightarrow> int" where
  "hdr_GetBlockTime b = uint (hdr_nTime b)"

section \<open>Retargeting\<close>

text \<open>
  \<^verbatim>\<open>while (pindex->pprev && pindex->nHeight % interval != 0 && pindex->nBits == limit) pindex = pindex->pprev;\<close>
\<close>

partial_function (option) min_difficulty_walk ::
  "block_mem \<Rightarrow> int \<Rightarrow> u32 \<Rightarrow> ptr \<Rightarrow> ptr run" where
  "min_difficulty_walk h interval limit p =
     (case pprev (h p) of None \<Rightarrow> Some (Inr p)
      | Some q \<Rightarrow> (case mod_out (int (nHeight (h p))) interval of
          Inl e \<Rightarrow> Some (Inl e)
        | Inr m \<Rightarrow> if m \<noteq> 0 \<and> nBits (h p) = limit then min_difficulty_walk h interval limit q
                   else Some (Inr p)))"

declare min_difficulty_walk.simps [code]

definition nPastBlocks :: nat where "nPastBlocks = 10"

text \<open>The averaging loop: \<open>k\<close> rounds left, \<open>n\<close> is \<^verbatim>\<open>nCountBlocks\<close>.\<close>

fun dgw_loop ::
  "block_mem \<Rightarrow> u32 \<Rightarrow> nat \<Rightarrow> nat \<Rightarrow> ptr \<Rightarrow> base_uint \<Rightarrow> nat \<Rightarrow> (ptr \<times> base_uint \<times> nat) outcome" where
  "dgw_loop h act 0 n p avg found = Inr (p, avg, found)"
| "dgw_loop h act (Suc k) n p avg found =
     (let bnTarget = fst (SetCompact (nBits (h p))) in
      bind_out (if n = 1 then Inr bnTarget
                else div_uint (add_uint (mul32_uint avg (of_nat n)) bnTarget) (uint_of_u64 (of_nat n + 1)))
        (\<lambda>avg.
           let found = (if nTime (h p) \<ge> act then found + 1 else found) in
           if n \<noteq> nPastBlocks
           then (case pprev (h p) of None \<Rightarrow> Inl AssertFail
                 | Some q \<Rightarrow> dgw_loop h act k (n + 1) q avg found)
           else dgw_loop h act k (n + 1) p avg found))"

definition clamp :: "int \<Rightarrow> int \<Rightarrow> int \<Rightarrow> int" where
  "clamp lo hi x = (let x = (if x < lo then lo else x) in if x > hi then hi else x)"

definition scale_target :: "base_uint \<Rightarrow> int \<Rightarrow> int \<Rightarrow> base_uint \<Rightarrow> u32 outcome" where
  "scale_target bn actual target bnPowLimit =
     bind_out (div_uint (mul32_uint bn (of_int actual)) (uint_of_u64 (of_int target)))
       (\<lambda>bnNew. GetCompact (if CompareTo bnNew bnPowLimit > 0 then bnPowLimit else bnNew) False)"

definition DarkGravityWave ::
  "u32 \<Rightarrow> block_mem \<Rightarrow> ptr \<Rightarrow> CBlockHeader \<Rightarrow> Params \<Rightarrow> u32 run" where
  "DarkGravityWave act h pindexLast pblock params =
     (let bnPowLimit = UintToArith256 (powLimit params) in
      bind_run (Some (GetCompact bnPowLimit False)) (\<lambda>nProofOfWorkLimit.
      if nHeight (h pindexLast) < nPastBlocks then Some (GetCompact bnPowLimit False)
      else if fPowAllowMinDifficultyBlocks params \<and> fPowNoRetargeting params then
        if hdr_GetBlockTime pblock > GetBlockTime (h pindexLast) + nPowTargetSpacing params * 2
        then Some (Inr nProofOfWorkLimit)
        else bind_run (min_difficulty_walk h (DifficultyAdjustmentInterval params) nProofOfWorkLimit pindexLast)
          (\<lambda>p. Some (Inr (nBits (h p))))
      else bind_run (Some (dgw_loop h act nPastBlocks 1 pindexLast zero_uint 0)) (\<lambda>(pindex, avg, found).
        if hdr_nTime pblock \<ge> act \<and> found \<noteq> nPastBlocks
        then Some (GetCompact (UintToArith256 (kawpowLimit params)) False)
        else let nTargetTimespan = int nPastBlocks * nPowTargetSpacing params;
                 nActualTimespan = clamp (c_div nTargetTimespan 3) (nTargetTimespan * 3)
                   (GetBlockTime (h pindexLast) - GetBlockTime (h pindex))
             in Some (scale_target avg nActualTimespan nTargetTimespan bnPowLimit))))"

definition CalculateNextWorkRequired ::
  "block_mem \<Rightarrow> ptr \<Rightarrow> int \<Rightarrow> Params \<Rightarrow> u32 outcome" where
  "CalculateNextWorkRequired h pindexLast nFirstBlockTime params =
     (if fPowNoRetargeting params then Inr (nBits (h pindexLast))
      else let nActualTimespan = clamp (c_div (nPowTargetTimespan params) 4) (nPowTargetTimespan params * 4)
                 (GetBlockTime (h pindexLast) - nFirstBlockTime)
           in scale_target (fst (SetCompact (nBits (h pindexLast)))) nActualTimespan
                (nPowTargetTimespan params) (UintToArith256 (powLimit params)))"

definition GetNextWorkRequiredBTC :: "block_mem \<Rightarrow> ptr \<Rightarrow> CBlockHeader \<Rightarrow> Params \<Rightarrow> u32 run" where
  "GetNextWorkRequiredBTC h pindexLast pblock params =
     (let interval = DifficultyAdjustmentInterval params in
      bind_run (Some (GetCompact (UintToArith256 (powLimit params)) False)) (\<lambda>nProofOfWorkLimit.
      bind_run (Some (mod_out (int (nHeight (h pindexLast)) + 1) interval)) (\<lambda>m.
      if m \<noteq> 0 then
        if fPowAllowMinDifficultyBlocks params then
          if hdr_GetBlockTime pblock > GetBlockTime (h pindexLast) + nPowTargetSpacing params * 2
          then Some (Inr nProofOfWorkLimit)
          else bind_run (min_difficulty_walk h interval nProofOfWorkLimit pindexLast)
            (\<lambda>p. Some (Inr (nBits (h p))))
        else Some (Inr (nBits (h pindexLast)))
      else let nHeightFirst = int (nHeight (h pindexLast)) - (interval - 1) in
           if nHeightFirst < 0 then Some (Inl AssertFail)
           else bind_run (Some (GetAncestor h pindexLast nHeightFirst)) (\<lambda>r.
             case r of None \<Rightarrow> Some (Inl AssertFail)
             | Some f \<Rightarrow> Some (CalculateNextWorkRequired h pindexLast (GetBlockTime (h f)) params)))))"

definition IsDGWActive :: "CChainParams \<Rightarrow> nat \<Rightarrow> bool" where
  "IsDGWActive p nBlockNumber \<longleftrightarrow> nBlockNumber \<ge> nDGWActivationBlock p"

definition GetNextWorkRequired ::
  "CChainParams \<Rightarrow> block_mem \<Rightarrow> ptr \<Rightarrow> CBlockHeader \<Rightarrow> Params \<Rightarrow> u32 run" where
  "GetNextWorkRequired cp h pindexLast pblock params =
     (if IsDGWActive cp (nHeight (h pindexLast) + 1)
      then DarkGravityWave (nKAAAWWWPOWActivationTime cp) h pindexLast pblock params
      else GetNextWorkRequiredBTC h pindexLast pblock params)"

section \<open>Checking a header\<close>

definition CheckProofOfWork :: "bytes \<Rightarrow> u32 \<Rightarrow> Params \<Rightarrow> bool" where
  "CheckProofOfWork blockhash bits params =
     (case SetCompact bits of (bnTarget, fNegative, fOverflow) \<Rightarrow>
        if fNegative \<or> EqualTo bnTarget 0 \<or> fOverflow \<or> CompareTo bnTarget (UintToArith256 (powLimit params)) > 0
        then False
        else if CompareTo (UintToArith256 blockhash) bnTarget > 0 then False
        else True)"

text \<open>A validation result: \<open>None\<close> when the check passes, otherwise the reject reason of \<^verbatim>\<open>state.DoS\<close>.\<close>

type_synonym reject = "(int \<times> string) option"

definition CheckKAWPOWHeaderHeight :: "u32 \<Rightarrow> CBlockHeader \<Rightarrow> int \<Rightarrow> Params \<Rightarrow> reject" where
  "CheckKAWPOWHeaderHeight act block expectedHeight params =
     (if hdr_nTime block < act \<or> expectedHeight < nHeightHeaderCheckActivation params \<or>
         hdr_nHeight block = of_int expectedHeight
      then None else Some (100, ''bad-blk-height''))"

text \<open>
  \<open>GetHash\<close> and \<open>GetHashFull\<close> (with the mix hash it computes) are the block hashes; \<open>pcheckpoint\<close> is the
  height of the last checkpoint in the block index.
\<close>

definition CheckBlockHeader ::
  "u32 \<Rightarrow> (CBlockHeader \<Rightarrow> bytes) \<Rightarrow> (CBlockHeader \<Rightarrow> bytes \<times> bytes) \<Rightarrow> int option \<Rightarrow>
     CBlockHeader \<Rightarrow> Params \<Rightarrow> bool \<Rightarrow> int option \<Rightarrow> reject" where
  "CheckBlockHeader act GetHash GetHashFull pcheckpoint block params fCheckPOW prevHeight =
     (let fKAWPOW = (hdr_nTime block \<ge> act);
          height = (case prevHeight of None \<Rightarrow> - 1 | Some n \<Rightarrow> n + 1);
          badHeight = (if fCheckPOW \<and> fKAWPOW \<and> prevHeight \<noteq> None
                       then CheckKAWPOWHeaderHeight act block height params else None);
          fBelowCheckpoint = (case pcheckpoint of None \<Rightarrow> False
            | Some c \<Rightarrow> (prevHeight \<noteq> None \<and> height \<le> c) \<or> (prevHeight = None \<and> hdr_nHeight block \<le> of_int c))
      in if badHeight \<noteq> None then badHeight
         else if fCheckPOW \<and> fKAWPOW \<and> fBelowCheckpoint then
           (if \<not> CheckProofOfWork (GetHash block) (hdr_nBits block) params then Some (50, ''high-hash'') else None)
         else (case GetHashFull block of (fullhash, mix) \<Rightarrow>
           if fCheckPOW \<and> \<not> CheckProofOfWork fullhash (hdr_nBits block) params then Some (50, ''high-hash'')
           else if fCheckPOW \<and> fKAWPOW \<and> mix \<noteq> hdr_mix_hash block then Some (50, ''invalid-mix-hash'')
           else None))"


section \<open>Blobs as numbers\<close>

fun le_val :: "bytes \<Rightarrow> nat" where
  "le_val [] = 0"
| "le_val (b # bs) = unat b + 256 * le_val bs"

lemma le_val_append: "le_val (xs @ ys) = le_val xs + 256 ^ length xs * le_val ys"
  by (induction xs) (simp_all add: algebra_simps)

lemma unat_byte_less: "unat (b :: u8) < 256"
  using unsigned_less[of b] by simp

lemma unat_ucast_byte [simp]: "unat (ucast (b :: u8) :: u32) = unat b"
  using unat_byte_less[of b] by (simp add: unsigned_ucast_eq take_bit_nat_eq_self)

lemma unat_or_byte:
  fixes y :: u32
  assumes "unat y < 2 ^ n" "n + 8 \<le> 32"
  shows "unat (y OR push_bit n (ucast (b :: u8))) = unat y + unat b * 2 ^ n"
    and "unat (y OR push_bit n (ucast (b :: u8))) < 2 ^ (n + 8)"
proof -
  have ub: "unat (ucast b :: u32) = unat b"
    by simp
  have le: "unat y + unat b * 2 ^ n < 2 ^ (n + 8)"
  proof -
    have "unat y + unat b * 2 ^ n < 2 ^ n + unat b * 2 ^ n"
      using assms(1) by simp
    also have "\<dots> = (unat b + 1) * 2 ^ n"
      by simp
    also have "\<dots> \<le> 256 * 2 ^ n"
      using unat_byte_less[of b] by (intro mult_le_mono1) simp
    finally show ?thesis
      by (simp add: power_add mult.commute)
  qed
  moreover have "(2 :: nat) ^ (n + 8) \<le> 2 ^ 32"
    using assms(2) by (rule power_increasing) simp
  ultimately have lt: "unat y + unat b * 2 ^ n < 2 ^ 32"
    by linarith
  have p: "unat (push_bit n (ucast b) :: u32) = unat b * 2 ^ n"
    unfolding unat_push_bit_u32 ub using lt by (intro mod_less) simp
  have "unat (y OR push_bit n (ucast b)) = unat (push_bit n (ucast b) + y)"
    using or_eq_add_disjoint[OF assms(1)] by (simp only: or.commute[of y])
  also have "\<dots> = unat (push_bit n (ucast b) :: u32) + unat y"
    using lt p by (subst unat_add_lem[THEN iffD1]) simp_all
  finally show "unat (y OR push_bit n (ucast b)) = unat y + unat b * 2 ^ n"
    using p by simp
  with le show "unat (y OR push_bit n (ucast (b :: u8))) < 2 ^ (n + 8)"
    by simp
qed

lemma ReadLE32_value: "unat (ReadLE32 [b0, b1, b2, b3]) = le_val [b0, b1, b2, b3]"
proof -
  have u0: "unat (ucast b0 :: u32) = unat b0" "unat (ucast b0 :: u32) < 2 ^ 8"
    using unat_byte_less[of b0] by simp_all
  note s1 = unat_or_byte[OF u0(2), of b1]
  have l1: "unat (ucast b0 OR push_bit 8 (ucast b1) :: u32) < 2 ^ 16"
    using s1(2) by simp
  note s2 = unat_or_byte[OF l1, of b2]
  have l2: "unat ((ucast b0 OR push_bit 8 (ucast b1)) OR push_bit 16 (ucast b2) :: u32) < 2 ^ 24"
    using s2(2) by simp
  note s3 = unat_or_byte[OF l2, of b3]
  show ?thesis
    using s1(1) s2(1) s3(1) u0(1) by (simp add: ReadLE32_def or.assoc)
qed

lemma UintToArith256_value:
  assumes "length b = 32"
  shows "wf_uint (UintToArith256 b)" and "uval (UintToArith256 b) = le_val b"
proof -
  show "wf_uint (UintToArith256 b)"
    by (simp add: UintToArith256_def wf_uint_def)
  have take4: "\<exists>b0 b1 b2 b3. take 4 (drop k b) = [b0, b1, b2, b3]" if "k + 4 \<le> 32" for k
  proof -
    have "length (take 4 (drop k b)) = Suc (Suc (Suc (Suc 0)))"
      using that assms by simp
    then show ?thesis
      by (auto simp: length_Suc_conv simp del: length_take)
  qed
  have chunk: "unat (ReadLE32 (take 4 (drop k b))) = le_val (take 4 (drop k b))" if "k + 4 \<le> 32" for k
    using take4[OF that] ReadLE32_value by auto
  have "uval (map (\<lambda>x. ReadLE32 (take 4 (drop (x * 4) b))) [0..<n]) = le_val (take (n * 4) b)" if "n \<le> 8" for n
    using that
  proof (induction n)
    case (Suc n)
    have "take (Suc n * 4) b = take (n * 4) b @ take 4 (drop (n * 4) b)"
      using take_add[of "n * 4" 4 b] by (simp add: add.commute)
    then have "le_val (take (Suc n * 4) b) = le_val (take (n * 4) b) + 256 ^ (n * 4) * le_val (take 4 (drop (n * 4) b))"
      using Suc.prems assms by (simp add: le_val_append min_def)
    moreover have "uval (map (\<lambda>x. ReadLE32 (take 4 (drop (x * 4) b))) [0..<Suc n]) =
        uval (map (\<lambda>x. ReadLE32 (take 4 (drop (x * 4) b))) [0..<n]) + 2 ^ (32 * n) * le_val (take 4 (drop (n * 4) b))"
      using Suc.prems chunk[of "n * 4"] by (simp add: uval_append)
    moreover have "(256 :: nat) ^ (n * 4) = 2 ^ (32 * n)"
      by (simp add: pow256 mult.commute mult.assoc)
    ultimately show ?case
      using Suc by simp
  qed simp
  from this[of 8] show "uval (UintToArith256 b) = le_val b"
    using assms by (simp add: UintToArith256_def WIDTH_def)
qed

text \<open>
  C28. Proof of work: \<^verbatim>\<open>CheckProofOfWork\<close> accepts exactly when the compact target is neither negative nor
  overflowing, lies between 1 and the limit, and the hash, read as a little-endian number, does not
  exceed it.
\<close>

theorem CheckProofOfWork_iff:
  assumes "length blockhash = 32" "length (powLimit params) = 32" "SetCompact bits = (t, neg, ovf)"
  shows "CheckProofOfWork blockhash bits params \<longleftrightarrow>
    \<not> neg \<and> \<not> ovf \<and> 0 < uval t \<and> uval t \<le> le_val (powLimit params) \<and> le_val blockhash \<le> uval t"
proof -
  have t: "wf_uint t"
    using SetCompact_fst(1)[of bits] assms(3) by simp
  note l = UintToArith256_value[OF assms(2)] and b = UintToArith256_value[OF assms(1)]
  have "CompareTo t (UintToArith256 (powLimit params)) > 0 \<longleftrightarrow> uval t > le_val (powLimit params)"
    "CompareTo (UintToArith256 blockhash) t > 0 \<longleftrightarrow> le_val blockhash > uval t"
    using CompareTo_gt t l b by simp_all
  then show ?thesis
    using EqualTo_0[OF t] assms(3) by (auto simp: CheckProofOfWork_def)
qed

lemma main_powLimit: "powLimit main_consensus = replicate 31 0xff @ [0]"
  by code_simp

lemma le_val_replicate_ff: "le_val (replicate n 0xff) + 1 = 256 ^ n"
  by (induction n) simp_all

lemma le_val_replicate_0: "le_val (replicate n 0) = 0"
  by (induction n) simp_all

lemma main_powLimit_value: "le_val (powLimit main_consensus) = 256 ^ 31 - 1"
  using le_val_replicate_ff[of 31] by (simp add: main_powLimit le_val_append)

theorem CheckProofOfWork_iff_witness:
  "CheckProofOfWork (replicate 26 0xff @ replicate 6 0) 0x1c00ffff main_consensus"
proof -
  have c: "SetCompact 0x1c00ffff = ([0, 0, 0, 0, 0, 0, 0xffff00, 0], False, False)"
    by code_simp
  have l: "length (replicate 26 0xff @ replicate 6 0 :: bytes) = 32" "length (powLimit main_consensus) = 32"
    by (simp_all add: main_powLimit)
  have "le_val (replicate 26 0xff @ replicate 6 0) = 256 ^ 26 - 1"
    using le_val_replicate_ff[of 26] le_val_replicate_0[of 6] by (simp add: le_val_append)
  then show ?thesis
    unfolding CheckProofOfWork_iff[OF l c] main_powLimit_value by simp
qed


section \<open>Retargeting as arithmetic\<close>

lemma scale_target_value:
  assumes "wf_uint bn" "wf_uint lim" "0 \<le> actual" "actual < 2 ^ 32" "0 < target" "target < 2 ^ 32"
  shows "\<exists>r c. scale_target bn actual target lim = Inr c \<and> GetCompact r False = Inr c \<and> wf_uint r \<and>
    uval r = min (uval lim) (uval bn * nat actual mod 2 ^ 256 div nat target)"
proof -
  have a: "unat (of_int actual :: u32) = nat actual"
    using assms(3,4) by (simp add: unsigned_of_int take_bit_int_eq_self)
  have t: "unat (of_int target :: u64) = nat target"
    using assms(5,6) by (simp add: unsigned_of_int take_bit_int_eq_self)
  note m = uval_mul32[OF assms(1), of "of_int actual"]
  obtain q where q: "div_uint (mul32_uint bn (of_int actual)) (uint_of_u64 (of_int target)) = Inr q" "wf_uint q"
      "uval q = uval (mul32_uint bn (of_int actual)) div uval (uint_of_u64 (of_int target))"
    using div_uint_value[OF m(1) wf_of_u64, of "of_int target"] t assms(5) by (auto simp: uval_of_u64)
  have qv: "uval q = uval bn * nat actual mod 2 ^ 256 div nat target"
    unfolding q(3) m(2) uval_of_u64 a t ..
  let ?r = "if CompareTo q lim > 0 then lim else q"
  have r: "wf_uint ?r" "uval ?r = min (uval lim) (uval q)"
    using CompareTo_gt[OF q(2) assms(2)] q(2) assms(2) by (auto simp: min_def)
  obtain c where "GetCompact ?r False = Inr c"
    using GetCompact_value[OF r(1)] by blast
  then show ?thesis
    using q(1) r qv by (intro exI[of _ ?r] exI[of _ c]) (simp add: scale_target_def)
qed

definition target_of :: "CBlockIndex \<Rightarrow> nat" where
  "target_of b = uval (fst (SetCompact (nBits b)))"

text \<open>The running average of the loop, with the wrap-around of 256 bits.\<close>

fun dgw_avg :: "block_mem \<Rightarrow> nat \<Rightarrow> nat \<Rightarrow> ptr \<Rightarrow> nat \<Rightarrow> nat" where
  "dgw_avg h 0 n p a = a"
| "dgw_avg h (Suc k) n p a =
     dgw_avg h k (n + 1) (case pprev (h p) of None \<Rightarrow> p | Some q \<Rightarrow> q)
       (if n = 1 then target_of (h p) else (a * n + target_of (h p)) mod 2 ^ 256 div (n + 1))"

definition recent_blocks :: "block_mem \<Rightarrow> nat \<Rightarrow> ptr \<Rightarrow> ptr list" where
  "recent_blocks h k p = map (\<lambda>i. the (steps_back h i p)) [0..<k]"

lemma recent_blocks_Suc:
  "pprev (h p) = Some q \<Longrightarrow> recent_blocks h (Suc k) p = p # recent_blocks h k q"
proof -
  assume "pprev (h p) = Some q"
  moreover have "[0..<Suc k] = 0 # map Suc [0..<k]"
    by (simp add: map_Suc_upt upt_conv_Cons del: upt_Suc)
  ultimately show ?thesis
    by (simp add: recent_blocks_def comp_def del: upt_Suc)
qed

lemma recent_blocks_1: "recent_blocks h (Suc 0) p = [p]"
  by (simp add: recent_blocks_def)

lemma dgw_round:
  assumes "wf_uint avg" "1 \<le> n" "n \<le> 10"
  shows "\<exists>r. (if n = 1 then Inr (fst (SetCompact (nBits b)))
      else div_uint (add_uint (mul32_uint avg (of_nat n)) (fst (SetCompact (nBits b)))) (uint_of_u64 (of_nat n + 1))) = Inr r \<and>
    wf_uint r \<and> uval r = (if n = 1 then target_of b else (uval avg * n + target_of b) mod 2 ^ 256 div (n + 1))"
proof (cases "n = 1")
  case True
  then show ?thesis
    using SetCompact_fst(1)[of "nBits b"] by (simp add: target_of_def)
next
  case False
  let ?t = "fst (SetCompact (nBits b))" and ?m = "mul32_uint avg (of_nat n)"
  have t: "wf_uint ?t" by (rule SetCompact_fst(1))
  have n32: "unat (of_nat n :: u32) = n"
    using assms(3) by (simp add: unsigned_of_nat take_bit_nat_eq_self)
  have "unat (of_nat (n + 1) :: u64) = n + 1"
    using assms(3) by (simp add: unsigned_of_nat take_bit_nat_eq_self del: of_nat_add of_nat_Suc)
  then have n64: "unat (of_nat n + 1 :: u64) = n + 1"
    by (simp add: add.commute)
  note m = uval_mul32[OF assms(1), of "of_nat n"]
  have s: "wf_uint (add_uint ?m ?t)" "uval (add_uint ?m ?t) = (uval avg * n + target_of b) mod 2 ^ 256"
    using m t uval_add[OF m(1) t] by (simp_all only: wf_add n32 target_of_def mod_add_left_eq)
  have "uval (uint_of_u64 (of_nat n + 1)) \<noteq> 0"
    by (simp only: uval_of_u64 n64)
  from div_uint_value[OF s(1) wf_of_u64 this] show ?thesis
    using False s(2) by (simp only: uval_of_u64 n64 if_False)
qed

lemma dgw_loop_value:
  assumes "wf_tree h A" "p \<in> A" "k + n = 11" "1 \<le> n" "1 \<le> k" "k \<le> nHeight (h p) + 1" "wf_uint avg"
  shows "\<exists>r. dgw_loop h act k n p avg found =
      Inr (last (recent_blocks h k p), r, found + length (filter (\<lambda>q. nTime (h q) \<ge> act) (recent_blocks h k p))) \<and>
    wf_uint r \<and> uval r = dgw_avg h k n p (uval avg)"
  using assms(2-7)
proof (induction k arbitrary: n p avg found)
  case (Suc k)
  have n10: "n \<le> 10" using Suc.prems(2) by simp
  let ?f = "if nTime (h p) \<ge> act then found + 1 else found"
  from dgw_round[OF Suc.prems(6,3) n10, of "h p"] obtain a where
    a: "(if n = 1 then Inr (fst (SetCompact (nBits (h p))))
      else div_uint (add_uint (mul32_uint avg (of_nat n)) (fst (SetCompact (nBits (h p))))) (uint_of_u64 (of_nat n + 1))) = Inr a"
      "wf_uint a" "uval a = (if n = 1 then target_of (h p) else (uval avg * n + target_of (h p)) mod 2 ^ 256 div (n + 1))"
    by blast
  show ?case
  proof (cases "k = 0")
    case True
    then have "n = nPastBlocks"
      using Suc.prems(2) by (simp add: nPastBlocks_def)
    then have "dgw_loop h act (Suc k) n p avg found = Inr (p, a, ?f)"
      unfolding dgw_loop.simps Let_def a(1) using True by simp
    moreover have "dgw_avg h (Suc k) n p (uval avg) = uval a"
      unfolding True dgw_avg.simps a(3) ..
    ultimately show ?thesis
      using True a(2) by (simp add: recent_blocks_1)
  next
    case False
    then have n: "n \<noteq> nPastBlocks"
      using Suc.prems(2) by (simp add: nPastBlocks_def)
    obtain q where q: "pprev (h p) = Some q" "q \<in> A" "nHeight (h p) = Suc (nHeight (h q))"
      using wf_treeD(1,2)[OF assms(1) Suc.prems(1)] Suc.prems(5) False by (cases "pprev (h p)") auto
    have step: "dgw_loop h act (Suc k) n p avg found = dgw_loop h act k (n + 1) q a ?f"
      unfolding dgw_loop.simps Let_def a(1) using n q(1) by simp
    obtain r where r: "dgw_loop h act k (n + 1) q a ?f =
        Inr (last (recent_blocks h k q), r, ?f + length (filter (\<lambda>q. nTime (h q) \<ge> act) (recent_blocks h k q)))"
      "wf_uint r" "uval r = dgw_avg h k (n + 1) q (uval a)"
      using Suc.IH[of q "n + 1" a ?f] q Suc.prems False a(2) by auto
    have "recent_blocks h k q \<noteq> []"
      using False by (simp add: recent_blocks_def)
    moreover have "dgw_avg h (Suc k) n p (uval avg) = uval r"
      unfolding dgw_avg.simps a(3)[symmetric] q(1) option.case r(3) ..
    ultimately show ?thesis
      unfolding step r(1) recent_blocks_Suc[of h p q k, OF q(1)] using r(2) by simp
  qed
qed simp


text \<open>The same average over the natural numbers.\<close>

fun dgw_mean :: "block_mem \<Rightarrow> nat \<Rightarrow> nat \<Rightarrow> ptr \<Rightarrow> nat \<Rightarrow> nat" where
  "dgw_mean h 0 n p a = a"
| "dgw_mean h (Suc k) n p a =
     dgw_mean h k (n + 1) (case pprev (h p) of None \<Rightarrow> p | Some q \<Rightarrow> q)
       (if n = 1 then target_of (h p) else (a * n + target_of (h p)) div (n + 1))"

lemma recent_blocks_head: "p \<in> set (recent_blocks h (Suc k) p)"
  unfolding recent_blocks_def by (simp del: upt_Suc) (rule image_eqI[of _ _ 0], simp_all)

lemma dgw_avg_mean:
  assumes "wf_tree h A" "p \<in> A" "1 \<le> n" "k + n = 11" "k \<le> nHeight (h p) + 1"
    and "\<forall>q \<in> set (recent_blocks h k p). target_of (h q) \<le> M" "M * 11 < 2 ^ 256" "n = 1 \<or> a \<le> M" "1 \<le> k"
  shows "dgw_avg h k n p a = dgw_mean h k n p a \<and> dgw_mean h k n p a \<le> M"
  using assms(2-6,8,9)
proof (induction k arbitrary: n p a)
  case (Suc k)
  let ?t = "target_of (h p)" and ?a = "if n = 1 then target_of (h p) else (a * n + target_of (h p)) mod 2 ^ 256 div (n + 1)"
  have pt: "?t \<le> M"
    using Suc.prems(5) recent_blocks_head by blast
  let ?b = "if n = 1 then target_of (h p) else (a * n + target_of (h p)) div (n + 1)"
  have aM: "?a = ?b \<and> ?b \<le> M"
  proof (cases "n = 1")
    case False
    then have "a * n \<le> M * n"
      using Suc.prems(6) by simp
    then have le: "a * n + ?t \<le> M * (n + 1)"
      using pt by (simp only: add_mult_distrib2 mult_1_right)
    moreover have "M * (n + 1) \<le> M * 11"
      using Suc.prems(3) by (intro mult_le_mono2) simp
    ultimately have "a * n + ?t < 2 ^ 256"
      using assms(7) by linarith
    then have "(a * n + ?t) mod 2 ^ 256 = a * n + ?t"
      by (rule mod_less)
    moreover have "(a * n + ?t) div (n + 1) \<le> M"
      using div_le_mono[OF le, of "n + 1"] by (simp only: nonzero_mult_div_cancel_right)
    ultimately show ?thesis
      using False by (simp only: if_False)
  qed (use pt in simp)
  show ?case
  proof (cases "k = 0")
    case True
    then show ?thesis
      using aM unfolding True dgw_avg.simps dgw_mean.simps by blast
  next
    case False
    obtain q where q: "pprev (h p) = Some q" "q \<in> A" "nHeight (h p) = Suc (nHeight (h q))"
      using wf_treeD(1,2)[OF assms(1) Suc.prems(1)] Suc.prems(4) False by (cases "pprev (h p)") auto
    have rb: "set (recent_blocks h k q) \<subseteq> set (recent_blocks h (Suc k) p)"
      using recent_blocks_Suc[of h p q k] q(1) by auto
    have "dgw_avg h k (n + 1) q ?b = dgw_mean h k (n + 1) q ?b \<and> dgw_mean h k (n + 1) q ?b \<le> M"
    proof (rule Suc.IH)
      show "\<forall>r \<in> set (recent_blocks h k q). target_of (h r) \<le> M"
        using Suc.prems(5) rb by blast
      show "n + 1 = 1 \<or> ?b \<le> M"
        using aM by blast
    qed (use q Suc.prems(2-4) False in simp_all)
    then show ?thesis
      unfolding dgw_avg.simps dgw_mean.simps q(1) option.case conjunct1[OF aM] .
  qed
qed simp

lemma DarkGravityWave_retarget:
  assumes "wf_tree h A" "p \<in> A" "10 \<le> nHeight (h p)"
    and "length (powLimit params) = 32" "0 < nPowTargetSpacing params" "nPowTargetSpacing params * 30 < 2 ^ 32"
    and "\<not> (fPowAllowMinDifficultyBlocks params \<and> fPowNoRetargeting params)"
    and "hdr_nTime pblock < act \<or> (\<forall>q \<in> set (recent_blocks h 10 p). act \<le> nTime (h q))"
  shows "\<exists>r c. DarkGravityWave act h p pblock params = Some (Inr c) \<and> GetCompact r False = Inr c \<and> wf_uint r \<and>
    uval r = min (le_val (powLimit params))
      (dgw_avg h 10 1 p 0 * nat (clamp (nPowTargetSpacing params * 10 div 3) (nPowTargetSpacing params * 30)
         (GetBlockTime (h p) - GetBlockTime (h (last (recent_blocks h 10 p))))) mod 2 ^ 256
       div nat (nPowTargetSpacing params * 10))"
proof -
  note lim = UintToArith256_value[OF assms(4)]
  let ?sp = "nPowTargetSpacing params" and ?last = "last (recent_blocks h 10 p)"
  let ?cl = "clamp (?sp * 10 div 3) (?sp * 30) (GetBlockTime (h p) - GetBlockTime (h ?last))"
  have "\<exists>r. dgw_loop h act 10 1 p zero_uint 0 =
      Inr (?last, r, 0 + length (filter (\<lambda>q. nTime (h q) \<ge> act) (recent_blocks h 10 p))) \<and>
    wf_uint r \<and> uval r = dgw_avg h 10 1 p (uval zero_uint)"
    using assms(3) by (intro dgw_loop_value[OF assms(1,2)]) simp_all
  then obtain avg where avg: "dgw_loop h act 10 1 p zero_uint 0 =
      Inr (?last, avg, length (filter (\<lambda>q. nTime (h q) \<ge> act) (recent_blocks h 10 p)))"
    "wf_uint avg" "uval avg = dgw_avg h 10 1 p 0"
    by auto
  have found: "\<not> (act \<le> hdr_nTime pblock \<and> length (filter (\<lambda>q. nTime (h q) \<ge> act) (recent_blocks h 10 p)) \<noteq> 10)"
  proof -
    have "filter (\<lambda>q. nTime (h q) \<ge> act) (recent_blocks h 10 p) = recent_blocks h 10 p"
      if "\<forall>q \<in> set (recent_blocks h 10 p). act \<le> nTime (h q)"
      using that by simp
    then show ?thesis
      using assms(8) by (auto simp: recent_blocks_def)
  qed
  have cl: "0 \<le> ?cl" "?cl < 2 ^ 32"
    using assms(5,6) by (auto simp: clamp_def Let_def)
  obtain c0 where c0: "GetCompact (UintToArith256 (powLimit params)) False = Inr c0"
    using GetCompact_value[OF lim(1)] by blast
  have "DarkGravityWave act h p pblock params =
      Some (scale_target avg ?cl (?sp * 10) (UintToArith256 (powLimit params)))"
    using c0 assms(3,5,7) avg(1) found
    by (auto simp: DarkGravityWave_def nPastBlocks_def Let_def mult.commute)
  then show ?thesis
    using scale_target_value[OF avg(2) lim(1) cl, of "?sp * 10"] assms(5,6) lim(2) avg(3) by auto
qed


lemma DarkGravityWave_kawpow:
  assumes "wf_tree h A" "p \<in> A" "10 \<le> nHeight (h p)"
    and "length (powLimit params) = 32" "length (kawpowLimit params) = 32"
    and "\<not> (fPowAllowMinDifficultyBlocks params \<and> fPowNoRetargeting params)"
    and "act \<le> hdr_nTime pblock" "\<not> (\<forall>q \<in> set (recent_blocks h 10 p). act \<le> nTime (h q))"
  shows "DarkGravityWave act h p pblock params = Some (GetCompact (UintToArith256 (kawpowLimit params)) False)"
proof -
  obtain c0 where c0: "GetCompact (UintToArith256 (powLimit params)) False = Inr c0"
    using GetCompact_value[OF UintToArith256_value(1)[OF assms(4)]] by blast
  let ?n = "length (filter (\<lambda>q. nTime (h q) \<ge> act) (recent_blocks h 10 p))"
  have "\<exists>r. dgw_loop h act 10 1 p zero_uint 0 = Inr (last (recent_blocks h 10 p), r, 0 + ?n) \<and>
    wf_uint r \<and> uval r = dgw_avg h 10 1 p (uval zero_uint)"
    using assms(3) by (intro dgw_loop_value[OF assms(1,2)]) simp_all
  moreover have "?n < length (recent_blocks h 10 p)"
    using assms(8) by (auto intro: length_filter_less)
  ultimately show ?thesis
    using c0 assms(3,6,7) by (auto simp: DarkGravityWave_def nPastBlocks_def Let_def recent_blocks_def)
qed

lemma DarkGravityWave_bounded:
  assumes "wf_tree h A" "p \<in> A" "length (powLimit params) = 32" "length (kawpowLimit params) = 32"
    and "0 < nPowTargetSpacing params" "nPowTargetSpacing params * 30 < 2 ^ 32"
    and "\<not> (fPowAllowMinDifficultyBlocks params \<and> fPowNoRetargeting params)"
    and "le_val (kawpowLimit params) \<le> le_val (powLimit params)"
  shows "\<exists>r c. DarkGravityWave act h p pblock params = Some (Inr c) \<and> GetCompact r False = Inr c \<and> wf_uint r \<and>
    uval r \<le> le_val (powLimit params)"
proof -
  note lim = UintToArith256_value[OF assms(3)] and klim = UintToArith256_value[OF assms(4)]
  consider "nHeight (h p) < 10"
    | "10 \<le> nHeight (h p)" "hdr_nTime pblock < act \<or> (\<forall>q \<in> set (recent_blocks h 10 p). act \<le> nTime (h q))"
    | "10 \<le> nHeight (h p)" "act \<le> hdr_nTime pblock" "\<not> (\<forall>q \<in> set (recent_blocks h 10 p). act \<le> nTime (h q))"
    by force
  then show ?thesis
  proof cases
    case 1
    obtain c where "GetCompact (UintToArith256 (powLimit params)) False = Inr c"
      using GetCompact_value[OF lim(1)] by blast
    then show ?thesis
      using 1 lim by (intro exI[of _ "UintToArith256 (powLimit params)"] exI[of _ c])
        (simp add: DarkGravityWave_def Let_def nPastBlocks_def)
  next
    case 2
    then show ?thesis
      using DarkGravityWave_retarget[OF assms(1,2) 2(1) assms(3,5,6,7) 2(2)] by (metis min.cobounded1)
  next
    case 3
    obtain c where "GetCompact (UintToArith256 (kawpowLimit params)) False = Inr c"
      using GetCompact_value[OF klim(1)] by blast
    then show ?thesis
      using DarkGravityWave_kawpow[OF assms(1,2) 3(1) assms(3,4,7) 3(2,3)] klim assms(8) by auto
  qed
qed


lemma main_kawpowLimit: "kawpowLimit main_consensus = replicate 28 0xff @ [0x0f, 0, 0, 0]"
  by code_simp

lemma main_limits:
  "length (powLimit main_consensus) = 32" "length (kawpowLimit main_consensus) = 32"
  "0 < nPowTargetSpacing main_consensus" "nPowTargetSpacing main_consensus * 30 < 2 ^ 32"
  "\<not> (fPowAllowMinDifficultyBlocks main_consensus \<and> fPowNoRetargeting main_consensus)"
  "le_val (kawpowLimit main_consensus) \<le> le_val (powLimit main_consensus)"
proof -
  have "le_val (replicate 28 0xff) = 256 ^ 28 - 1"
    using le_val_replicate_ff[of 28] by simp
  then show "le_val (kawpowLimit main_consensus) \<le> le_val (powLimit main_consensus)"
    unfolding main_powLimit_value by (simp only: main_kawpowLimit le_val_append) simp
qed (simp_all add: main_powLimit main_kawpowLimit, simp_all add: main_consensus_def)


text \<open>The retargeting branch of \<^verbatim>\<open>DarkGravityWave\<close>, over the integers.\<close>

lemma DarkGravityWave_formula:
  assumes "wf_tree h A" "p \<in> A" "10 \<le> nHeight (h p)"
    and "length (powLimit params) = 32" "0 < nPowTargetSpacing params" "nPowTargetSpacing params * 30 < 2 ^ 32"
    and "\<not> (fPowAllowMinDifficultyBlocks params \<and> fPowNoRetargeting params)"
    and "hdr_nTime pblock < act \<or> (\<forall>q \<in> set (recent_blocks h 10 p). act \<le> nTime (h q))"
    and "\<forall>q \<in> set (recent_blocks h 10 p). target_of (h q) \<le> M"
    and "M * nat (nPowTargetSpacing params * 30) < 2 ^ 256"
  shows "\<exists>r c. DarkGravityWave act h p pblock params = Some (Inr c) \<and> GetCompact r False = Inr c \<and> wf_uint r \<and>
    uval r = min (le_val (powLimit params))
      (dgw_mean h 10 1 p 0 * nat (clamp (nPowTargetSpacing params * 10 div 3) (nPowTargetSpacing params * 30)
         (GetBlockTime (h p) - GetBlockTime (h (last (recent_blocks h 10 p)))))
       div nat (nPowTargetSpacing params * 10))"
proof -
  let ?sp = "nPowTargetSpacing params"
  let ?cl = "clamp (?sp * 10 div 3) (?sp * 30) (GetBlockTime (h p) - GetBlockTime (h (last (recent_blocks h 10 p))))"
  have "11 \<le> nat (?sp * 30)"
    using assms(5) by linarith
  then have "M * 11 \<le> M * nat (?sp * 30)"
    by (rule mult_le_mono2)
  then have "M * 11 < 2 ^ 256"
    using assms(10) by linarith
  then have avg: "dgw_avg h 10 1 p 0 = dgw_mean h 10 1 p 0" "dgw_mean h 10 1 p 0 \<le> M"
    using dgw_avg_mean[OF assms(1,2), of 1 10 M 0] assms(3,9) by simp_all
  have "?cl \<le> ?sp * 30"
    using assms(5) by (auto simp: clamp_def Let_def)
  then have "dgw_mean h 10 1 p 0 * nat ?cl \<le> M * nat (?sp * 30)"
    using avg(2) by (intro mult_le_mono) simp_all
  then have "dgw_mean h 10 1 p 0 * nat ?cl mod 2 ^ 256 = dgw_mean h 10 1 p 0 * nat ?cl"
    using assms(10) by (intro mod_less) linarith
  then show ?thesis
    using DarkGravityWave_retarget[OF assms(1-8)] by (simp only: avg(1))
qed

text \<open>
  C12. Retargeting formula: on a network that retargets (not both \<^verbatim>\<open>fPowAllowMinDifficultyBlocks\<close> and
  \<^verbatim>\<open>fPowNoRetargeting\<close>, whose rule is the minimum-difficulty one), when the last ten targets are small
  enough for the product with the longest time span to fit 256 bits, \<^verbatim>\<open>DarkGravityWave\<close> returns the
  compact form of exactly this number: below height 10 the limit; for a block at or after the KAWPOW
  time when one of the last ten blocks is before it, the KAWPOW limit; and otherwise the smaller of the
  limit and the running mean of the targets scaled by the time the blocks took, clamped to a third and
  to three times the target time span.
\<close>

theorem DarkGravityWave_exact:
  assumes "wf_tree h A" "p \<in> A" "length (powLimit params) = 32" "length (kawpowLimit params) = 32"
    and "0 < nPowTargetSpacing params" "nPowTargetSpacing params * 30 < 2 ^ 32"
    and "\<not> (fPowAllowMinDifficultyBlocks params \<and> fPowNoRetargeting params)"
    and "10 \<le> nHeight (h p) \<longrightarrow> (\<forall>q \<in> set (recent_blocks h 10 p). target_of (h q) \<le> M)"
    and "M * nat (nPowTargetSpacing params * 30) < 2 ^ 256"
  shows "\<exists>r c. DarkGravityWave act h p pblock params = Some (Inr c) \<and> GetCompact r False = Inr c \<and> wf_uint r \<and>
    uval r =
      (if nHeight (h p) < 10 then le_val (powLimit params)
       else if act \<le> hdr_nTime pblock \<and> (\<exists>q \<in> set (recent_blocks h 10 p). nTime (h q) < act)
         then le_val (kawpowLimit params)
       else min (le_val (powLimit params))
         (dgw_mean h 10 1 p 0 * nat (clamp (nPowTargetSpacing params * 10 div 3) (nPowTargetSpacing params * 30)
            (GetBlockTime (h p) - GetBlockTime (h (last (recent_blocks h 10 p)))))
          div nat (nPowTargetSpacing params * 10)))"
proof -
  have lim: "\<exists>c. GetCompact (UintToArith256 v) False = Inr c \<and> wf_uint (UintToArith256 v) \<and> uval (UintToArith256 v) = le_val v"
    if "length v = 32" for v
    using UintToArith256_value[OF that] GetCompact_value[of "UintToArith256 v"] by blast
  consider (low) "nHeight (h p) < 10"
    | (kawpow) "10 \<le> nHeight (h p)" "act \<le> hdr_nTime pblock" "\<exists>q \<in> set (recent_blocks h 10 p). nTime (h q) < act"
    | (retarget) "10 \<le> nHeight (h p)" "hdr_nTime pblock < act \<or> (\<forall>q \<in> set (recent_blocks h 10 p). act \<le> nTime (h q))"
    by (meson linorder_not_le)
  then show ?thesis
  proof cases
    case low
    then have "DarkGravityWave act h p pblock params = Some (GetCompact (UintToArith256 (powLimit params)) False)"
      using lim[OF assms(3)] by (auto simp: DarkGravityWave_def nPastBlocks_def Let_def)
    then show ?thesis using low lim[OF assms(3)] by auto
  next
    case kawpow
    then have "DarkGravityWave act h p pblock params = Some (GetCompact (UintToArith256 (kawpowLimit params)) False)"
      using assms(7) by (intro DarkGravityWave_kawpow[OF assms(1,2) _ assms(3,4)]) (auto simp: not_le)
    then show ?thesis using kawpow lim[OF assms(4)] by auto
  next
    case retarget
    then have "\<not> (act \<le> hdr_nTime pblock \<and> (\<exists>q \<in> set (recent_blocks h 10 p). nTime (h q) < act))"
      by (auto simp: not_le)
    then show ?thesis
      using DarkGravityWave_formula[OF assms(1,2) retarget(1) assms(3,5,6,7) retarget(2) _ assms(9)] assms(8) retarget(1) by auto
  qed
qed

text \<open>A chain without forks whose blocks come every \<open>gap\<close> seconds with the same target.\<close>

definition paced_mem :: "u32 \<Rightarrow> u32 \<Rightarrow> u32 \<Rightarrow> block_mem" where
  "paced_mem base gap bits p = null_index\<lparr>pprev := (if p = 0 then None else Some (p - 1)), nHeight := p,
     nTime := base + gap * of_nat p, nBits := bits\<rparr>"

lemma paced_mem_simps [simp]:
  "pprev (paced_mem base gap bits p) = (if p = 0 then None else Some (p - 1))" "nHeight (paced_mem base gap bits p) = p"
  "pskip (paced_mem base gap bits p) = None" "nBits (paced_mem base gap bits p) = bits"
  "nTime (paced_mem base gap bits p) = base + gap * of_nat p"
  by (simp_all add: paced_mem_def null_index_def)

lemma paced_mem_wf: "wf_tree (paced_mem base gap bits) {..<n}"
  by (auto simp: wf_tree_def wf_entry_def)

lemma paced_mem_back: "i \<le> p \<Longrightarrow> steps_back (paced_mem base gap bits) i p = Some (p - i)"
  by (induction i arbitrary: p) auto

lemma paced_mem_last: "last (recent_blocks (paced_mem base gap bits) 10 10) = 1"
  by (simp add: recent_blocks_def last_map paced_mem_back del: steps_back.simps)

lemma dgw_mean_const:
  assumes "\<And>q. target_of (h q) = T" "n = 1 \<or> a = T"
  shows "dgw_mean h (Suc k) n p a = T"
  using assms(2)
proof (induction k arbitrary: n p a)
  case 0
  have "(T * n + T) div (n + 1) = T"
    by (metis add_mult_distrib2 mult_1_right nonzero_mult_div_cancel_right Suc_eq_plus1 nat.distinct(1))
  then show ?case
    using 0 assms(1) by auto
next
  case (Suc k)
  have "(T * n + T) div (n + 1) = T"
    by (metis add_mult_distrib2 mult_1_right nonzero_mult_div_cancel_right Suc_eq_plus1 nat.distinct(1))
  then have "(if n = 1 then target_of (h p) else (a * n + target_of (h p)) div (n + 1)) = T"
    using Suc.prems assms(1) by auto
  then show ?case
    by (subst dgw_mean.simps) (simp only:, rule Suc.IH, simp)
qed

lemma target_1c00ffff: "target_of (paced_mem base gap 0x1c00ffff q) = 0xffff * 2 ^ 200"
proof -
  have "SetCompact 0x1c00ffff = ([0, 0, 0, 0, 0, 0, 0xffff00, 0], False, False)"
    by code_simp
  then show ?thesis
    by (simp add: target_of_def)
qed

theorem DarkGravityWave_exact_witness:
  "\<exists>r c. DarkGravityWave 0 (paced_mem 1000 90 0x1c00ffff) 10 null_header main_consensus = Some (Inr c) \<and>
     GetCompact r False = Inr c \<and> uval r = 0xffff * 2 ^ 200 * 810 div 600"
proof -
  let ?h = "paced_mem 1000 90 0x1c00ffff"
  have mean: "dgw_mean ?h 10 1 10 0 = 0xffff * 2 ^ 200"
    using dgw_mean_const[of ?h "0xffff * 2 ^ 200" 1 0 9 10] target_1c00ffff by simp
  have par: "nPowTargetSpacing main_consensus = 60"
    by (simp add: main_consensus_def)
  have t: "GetBlockTime (?h 10) - GetBlockTime (?h 1) = 810"
    by (simp add: GetBlockTime_def)
  have c: "clamp (60 * 10 div 3) (60 * 30) 810 = 810"
    by (simp add: clamp_def)
  show ?thesis
    using DarkGravityWave_exact[OF paced_mem_wf[of 1000 90 "0x1c00ffff" 11] _ main_limits(1-5),
        of 10 "0xffff * 2 ^ 200" 0 null_header] target_1c00ffff
    by (auto simp: mean[simplified] par paced_mem_last t[simplified] c[simplified] main_powLimit_value)
qed

lemma target_2000ffff: "target_of (paced_mem base gap 0x2000ffff q) = 0xffff * 2 ^ 232"
proof -
  have "SetCompact 0x2000ffff = ([0, 0, 0, 0, 0, 0, 0, 0x00ffff00], False, False)"
    by code_simp
  then show ?thesis
    by (simp add: target_of_def)
qed

lemma target_2000ffff_avg: "dgw_avg (paced_mem base gap 0x2000ffff) 10 1 10 0 = 0xffff * 2 ^ 232"
proof -
  have "dgw_mean (paced_mem base gap 0x2000ffff) 10 1 10 0 = 0xffff * 2 ^ 232"
    using dgw_mean_const[of "paced_mem base gap 0x2000ffff" "0xffff * 2 ^ 232" 1 0 9 10] target_2000ffff by simp
  then show ?thesis
    using dgw_avg_mean[OF paced_mem_wf[of base gap "0x2000ffff" 11], of 10 1 10 "0xffff * 2 ^ 232" 0] target_2000ffff
    by simp
qed

text \<open>
  C30. Overflow near the limit: on the main network, ten blocks at the limit target \<open>0x2000ffff\<close> that come
  on schedule (one every 60 seconds, before the KAWPOW time) make the product of \<^verbatim>\<open>DarkGravityWave\<close> wrap
  around 256 bits: the next target is more than twenty times harder than the one of these blocks,
  although the formula over the integers would lower it by a tenth only.
\<close>

theorem DarkGravityWave_overflow:
  "\<exists>c t. DarkGravityWave (nKAAAWWWPOWActivationTime CMainParams) (paced_mem main_genesis_time 60 0x2000ffff) 10
       null_header main_consensus = Some (Inr c) \<and>
     SetCompact c = (t, False, False) \<and> uval t * 20 < target_of (paced_mem main_genesis_time 60 0x2000ffff 10)"
proof -
  let ?h = "paced_mem main_genesis_time 60 0x2000ffff" and ?act = "nKAAAWWWPOWActivationTime CMainParams"
  have par: "nPowTargetSpacing main_consensus = 60"
    by (simp add: main_consensus_def)
  have t: "GetBlockTime (?h 10) - GetBlockTime (?h 1) = 540"
    by (simp add: GetBlockTime_def main_genesis_time_def)
  have cl: "clamp (60 * 10 div 3) (60 * 30) 540 = 540"
    by (simp add: clamp_def)
  have early: "hdr_nTime null_header < ?act"
    by (simp add: null_header_def CMainParams_def)
  obtain r c where r: "DarkGravityWave ?act ?h 10 null_header main_consensus = Some (Inr c)" "GetCompact r False = Inr c"
      "wf_uint r" "uval r = min (256 ^ 31 - 1) (0xffff * 2 ^ 232 * 540 mod 2 ^ 256 div 600)"
    using DarkGravityWave_retarget[OF paced_mem_wf[of main_genesis_time 60 "0x2000ffff" 11] _ _ main_limits(1,3-5),
        of 10 null_header ?act] early
    by (auto simp: target_2000ffff_avg[simplified] par paced_mem_last t[simplified] cl[simplified] main_powLimit_value)
  note rt = compact_roundtrip[OF r(3,2)]
  have "SetCompact c = (fst (SetCompact c), False, False)"
    using rt(3) by (cases "SetCompact c") simp
  moreover have "uval (fst (SetCompact c)) * 20 < 0xffff * 2 ^ 232"
    using rt(2) trunc_le[of r] r(4) by simp
  ultimately show ?thesis
    using r(1) target_2000ffff by metis
qed

end
