(* ===== verification/BlockTree.thy ===== *)
theory BlockTree
  imports Pow
begin

unbundle bit_operations_syntax

text \<open>
  The block index as the node keeps it (src/src/validation.cpp, checkpoints.cpp): the map from hashes to
  entries, the best header, the candidates for the best chain, and the operations that accept headers,
  add entries, choose the most-work chain and forget failures. Entries live in the memory of theory
  \<^verbatim>\<open>Chain\<close>; a new entry takes the next free address. Header heights are below \<open>2 ^ 31\<close>, where the
  conversion from the header's 32-bit field to \<^verbatim>\<open>int\<close> keeps the value.
\<close>

section \<open>State\<close>

record block_tree =
  bt_mem :: block_mem
  bt_next :: ptr
  mapBlockIndex :: "bytes \<Rightarrow> ptr option"
  pindexBestHeader :: "ptr option"
  pindexBestInvalid :: "ptr option"
  setDirtyBlockIndex :: "ptr set"
  setBlockIndexCandidates :: "ptr list"
  mapBlocksUnlinked :: "(ptr option \<times> ptr) list"
  g_failed_blocks :: "ptr set"
  nBlockSequenceId :: int
  chainActive :: CChain

text \<open>What the checks read besides the tree: hashes, clocks, the peer count, options and parameters.\<close>

record node_env =
  env_GetHash :: "CBlockHeader \<Rightarrow> bytes"
  env_GetHashFull :: "CBlockHeader \<Rightarrow> bytes \<times> bytes"
  env_time :: int
  env_adjusted_time :: int
  env_node_count :: "int option"
  env_maxreorg :: int
  env_minreorgpeers :: int
  env_minreorgage :: int
  env_fCheckpointsEnabled :: bool
  env_checkpoints :: "(int \<times> bytes) list"
  env_assets_deployed :: bool
  env_params :: CChainParams

section \<open>Order of candidates\<close>

definition CBlockIndexWorkComparator :: "block_mem \<Rightarrow> ptr \<Rightarrow> ptr \<Rightarrow> bool" where
  "CBlockIndexWorkComparator h pa pb =
     (if CompareTo (nChainWork (h pa)) (nChainWork (h pb)) > 0 then False
      else if CompareTo (nChainWork (h pa)) (nChainWork (h pb)) < 0 then True
      else if nSequenceId (h pa) < nSequenceId (h pb) then False
      else if nSequenceId (h pa) > nSequenceId (h pb) then True
      else if pa < pb then False
      else if pa > pb then True
      else False)"

text \<open>\<^verbatim>\<open>rbegin\<close> of the candidate set: its largest element.\<close>

fun largest_candidate :: "block_mem \<Rightarrow> ptr list \<Rightarrow> ptr option" where
  "largest_candidate h [] = None"
| "largest_candidate h (p # ps) =
     (case largest_candidate h ps of None \<Rightarrow> Some p
      | Some q \<Rightarrow> if CBlockIndexWorkComparator h p q then Some q else Some p)"

section \<open>Adding an entry\<close>

text \<open>
  The height of the header, a \<^verbatim>\<open>uint32_t\<close>, becomes the \<^verbatim>\<open>int\<close> of the entry. The model keeps heights as
  natural numbers, so it covers header heights below \<open>2 ^ 31\<close>, where the conversion keeps the value;
  from there on the entry's height would be negative. Only an entry without predecessor keeps this
  height: \<^verbatim>\<open>AddToBlockIndex\<close> overwrites it with that of the predecessor plus one.
\<close>

definition CBlockIndex_of_header :: "CBlockHeader \<Rightarrow> CBlockIndex" where
  "CBlockIndex_of_header block = null_index\<lparr>
     nVersion := hdr_nVersion block, hashMerkleRoot := hdr_hashMerkleRoot block, nTime := hdr_nTime block,
     nBits := hdr_nBits block, nNonce := hdr_nNonce block, nHeight := unat (hdr_nHeight block),
     nNonce64 := hdr_nNonce64 block, mix_hash := hdr_mix_hash block\<rparr>"

definition AddToBlockIndex ::
  "(CBlockHeader \<Rightarrow> bytes) \<Rightarrow> CBlockHeader \<Rightarrow> block_tree \<Rightarrow> (ptr \<times> block_tree) outcome" where
  "AddToBlockIndex GetHash block t =
     (let hash = GetHash block in
      case mapBlockIndex t hash of Some p \<Rightarrow> Inr (p, t)
      | None \<Rightarrow>
        let p = bt_next t;
            m = (mapBlockIndex t)(hash \<mapsto> p);
            h = (bt_mem t)(p := (CBlockIndex_of_header block)\<lparr>nSequenceId := 0, phashBlock := hash\<rparr>)
        in bind_out
          (case m (hdr_hashPrevBlock block) of None \<Rightarrow> Inr h
           | Some q \<Rightarrow> BuildSkip (h(p := (h p)\<lparr>pprev := Some q, nHeight := nHeight (h q) + 1\<rparr>)) p)
          (\<lambda>h. let h = h(p := (h p)\<lparr>nTimeMax := (case pprev (h p) of None \<Rightarrow> nTime (h p)
                     | Some q \<Rightarrow> max (nTimeMax (h q)) (nTime (h p)))\<rparr>)
            in bind_out (GetBlockProof (h p)) (\<lambda>proof.
               let h = h(p := (h p)\<lparr>nChainWork := add_uint (case pprev (h p) of None \<Rightarrow> uint_of_u64 0
                     | Some q \<Rightarrow> nChainWork (h q)) proof\<rparr>)
               in bind_out (RaiseValidity (h p) BLOCK_VALID_TREE) (\<lambda>(b, _).
                  let h = h(p := b);
                      best = (case pindexBestHeader t of None \<Rightarrow> Some p
                        | Some b \<Rightarrow> if CompareTo (nChainWork (h b)) (nChainWork (h p)) < 0 then Some p else Some b)
                  in Inr (p, t\<lparr>bt_mem := h, bt_next := p + 1, mapBlockIndex := m, pindexBestHeader := best,
                       setDirtyBlockIndex := insert p (setDirtyBlockIndex t)\<rparr>)))))"

section \<open>Accepting a header\<close>

definition MAX_FUTURE_BLOCK_TIME :: int where "MAX_FUTURE_BLOCK_TIME = 2 * 60 * 60"
definition MAX_FUTURE_BLOCK_TIME_DGW :: int where
  "MAX_FUTURE_BLOCK_TIME_DGW = c_div MAX_FUTURE_BLOCK_TIME 10"

fun GetLastCheckpoint :: "(bytes \<Rightarrow> ptr option) \<Rightarrow> (int \<times> bytes) list \<Rightarrow> ptr option" where
  "GetLastCheckpoint m [] = None"
| "GetLastCheckpoint m ((n, hash) # rest) = (case m hash of Some p \<Rightarrow> Some p | None \<Rightarrow> GetLastCheckpoint m rest)"

definition last_checkpoint :: "node_env \<Rightarrow> block_tree \<Rightarrow> ptr option" where
  "last_checkpoint env t = GetLastCheckpoint (mapBlockIndex t) (rev (env_checkpoints env))"

definition ContextualCheckBlockHeader ::
  "node_env \<Rightarrow> CBlockHeader \<Rightarrow> block_tree \<Rightarrow> ptr \<Rightarrow> reject run" where
  "ContextualCheckBlockHeader env block t pindexPrev =
     (let h = bt_mem t;
          cp = env_params env;
          height = int (nHeight (h pindexPrev)) + 1;
          fGreaterThanMaxReorg = (chain_Height (chainActive t) - (height - 1) \<ge> env_maxreorg env)
      in bind_run
        (case env_node_count env of
           Some n \<Rightarrow>
             if fGreaterThanMaxReorg
             then (case chain_Tip (chainActive t) of None \<Rightarrow> Some (Inl NullDeref)
                   | Some tip \<Rightarrow> Some (Inr (n \<ge> env_minreorgpeers env \<and>
                       env_time env - uint (nTime (h tip)) \<le> env_minreorgage env)))
             else Some (Inr False)
         | None \<Rightarrow> Some (Inr False))
        (\<lambda>tooDeep.
           if tooDeep then Some (Inr (Some (10, ''bad-fork-prior-to-maxreorgdepth'')))
           else case CheckKAWPOWHeaderHeight (nKAAAWWWPOWActivationTime cp) block height (consensus cp) of
             Some r \<Rightarrow> Some (Inr (Some r))
           | None \<Rightarrow> bind_run (GetNextWorkRequired cp h pindexPrev block (consensus cp)) (\<lambda>bits.
               if hdr_nBits block \<noteq> bits then Some (Inr (Some (100, ''bad-diffbits'')))
               else if env_fCheckpointsEnabled env \<and>
                 (case last_checkpoint env t of None \<Rightarrow> False | Some c \<Rightarrow> height < int (nHeight (h c)))
               then Some (Inr (Some (100, ''bad-fork-prior-to-checkpoint'')))
               else if hdr_GetBlockTime block \<le> GetMedianTimePast h pindexPrev
               then Some (Inr (Some (0, ''time-too-old'')))
               else if hdr_GetBlockTime block > env_adjusted_time env +
                 (if IsDGWActive cp (nHeight (h pindexPrev) + 1) then MAX_FUTURE_BLOCK_TIME_DGW else MAX_FUTURE_BLOCK_TIME)
               then Some (Inr (Some (0, ''time-too-new'')))
               else if env_assets_deployed env \<and> sint (hdr_nVersion block) < sint VERSIONBITS_TOP_BITS_ASSETS
               then Some (Inr (Some (0, ''bad-version'')))
               else Some (Inr None))))"

text \<open>\<^verbatim>\<open>while (invalid_walk != failedit) { invalid_walk->nStatus |= BLOCK_FAILED_CHILD; ... }\<close>\<close>

partial_function (option) mark_failed_children ::
  "ptr \<Rightarrow> ptr option \<Rightarrow> block_tree \<Rightarrow> block_tree run" where
  "mark_failed_children failedit walk t =
     (if walk = Some failedit then Some (Inr t)
      else case walk of None \<Rightarrow> Some (Inl NullDeref)
      | Some w \<Rightarrow> mark_failed_children failedit (pprev (bt_mem t w))
          (t\<lparr>bt_mem := (bt_mem t)(w := (bt_mem t w)\<lparr>nStatus := nStatus (bt_mem t w) OR BLOCK_FAILED_CHILD\<rparr>),
             setDirtyBlockIndex := insert w (setDirtyBlockIndex t)\<rparr>))"

declare mark_failed_children.simps [code]

text \<open>The search for a failed ancestor; the flag says whether one was found.\<close>

fun failed_ancestor_loop :: "ptr \<Rightarrow> ptr list \<Rightarrow> block_tree \<Rightarrow> (bool \<times> block_tree) run" where
  "failed_ancestor_loop pindexPrev [] t = Some (Inr (False, t))"
| "failed_ancestor_loop pindexPrev (f # fs) t =
     bind_run (Some (GetAncestor (bt_mem t) pindexPrev (int (nHeight (bt_mem t f))))) (\<lambda>r.
       if r = Some f then
         if nStatus (bt_mem t f) AND BLOCK_FAILED_VALID = 0 then Some (Inl AssertFail)
         else bind_run (mark_failed_children f (Some pindexPrev) t) (\<lambda>t. Some (Inr (True, t)))
       else failed_ancestor_loop pindexPrev fs t)"

text \<open>
  The last part of \<^verbatim>\<open>AcceptBlockHeader\<close>: look the header up, or add it. The debug check \<^verbatim>\<open>CheckBlockIndex\<close>,
  which changes no state, is left out.
\<close>

definition accept_known_or_add ::
  "node_env \<Rightarrow> CBlockHeader \<Rightarrow> block_tree \<Rightarrow> (((int \<times> string) + ptr) \<times> block_tree) run" where
  "accept_known_or_add env block t =
     (case mapBlockIndex t (env_GetHash env block) of
        Some p \<Rightarrow> Some (Inr (if nStatus (bt_mem t p) AND BLOCK_FAILED_MASK \<noteq> 0 then Inl (0, ''duplicate'') else Inr p, t))
      | None \<Rightarrow> bind_run (Some (AddToBlockIndex (env_GetHash env) block t)) (\<lambda>(p, t). Some (Inr (Inr p, t))))"

definition AcceptBlockHeader ::
  "node_env \<Rightarrow> CBlockHeader \<Rightarrow> block_tree \<Rightarrow> (((int \<times> string) + ptr) \<times> block_tree) run" where
  "AcceptBlockHeader env block t =
     (let cp = env_params env; h = bt_mem t in
      if \<not> blob_IsNull (hdr_hashPrevBlock block) then
        (case mapBlockIndex t (hdr_hashPrevBlock block) of
           None \<Rightarrow> Some (Inr (Inl (10, ''prev-blk-not-found''), t))
         | Some q \<Rightarrow>
             if nStatus (h q) AND BLOCK_FAILED_MASK \<noteq> 0 then Some (Inr (Inl (100, ''bad-prevblk''), t))
             else case CheckKAWPOWHeaderHeight (nKAAAWWWPOWActivationTime cp) block (int (nHeight (h q)) + 1) (consensus cp) of
               Some r \<Rightarrow> Some (Inr (Inl r, t))
             | None \<Rightarrow>
                 (case CheckBlockHeader (nKAAAWWWPOWActivationTime cp) (env_GetHash env) (env_GetHashFull env)
                        (map_option (\<lambda>c. int (nHeight (h c))) (last_checkpoint env t)) block (consensus cp) True
                        (Some (int (nHeight (h q)))) of
                    Some r \<Rightarrow> Some (Inr (Inl r, t))
                  | None \<Rightarrow> bind_run (ContextualCheckBlockHeader env block t q) (\<lambda>r.
                      case r of Some r \<Rightarrow> Some (Inr (Inl r, t))
                      | None \<Rightarrow> bind_run (Some (IsValid (h q) BLOCK_VALID_SCRIPTS)) (\<lambda>valid.
                          bind_run (if \<not> valid then failed_ancestor_loop q (sorted_list_of_set (g_failed_blocks t)) t
                                    else Some (Inr (False, t))) (\<lambda>(failed, t).
                            if failed then Some (Inr (Inl (100, ''bad-prevblk''), t))
                            else accept_known_or_add env block t)))))
      else accept_known_or_add env block t)"

section \<open>Candidates for the best chain\<close>

definition PruneBlockIndexCandidates :: "block_tree \<Rightarrow> block_tree outcome" where
  "PruneBlockIndexCandidates t =
     (case chain_Tip (chainActive t) of
        None \<Rightarrow> if setBlockIndexCandidates t = [] then Inl AssertFail else Inl NullDeref
      | Some tip \<Rightarrow>
          let cs = filter (\<lambda>p. \<not> CBlockIndexWorkComparator (bt_mem t) p tip) (setBlockIndexCandidates t)
          in assert_out (cs \<noteq> []) (Inr (t\<lparr>setBlockIndexCandidates := cs\<rparr>)))"

text \<open>
  The inner loop of \<^verbatim>\<open>FindMostWorkChain\<close>: the first block on the way to the active chain that has failed
  or lacks data, with the flag \<^verbatim>\<open>fFailedChain\<close>, if there is one.
\<close>

partial_function (option) find_unusable ::
  "block_mem \<Rightarrow> CChain \<Rightarrow> ptr option \<Rightarrow> (ptr \<times> bool) option run" where
  "find_unusable h v pindexTest =
     (case pindexTest of None \<Rightarrow> Some (Inr None)
      | Some p \<Rightarrow>
          if chain_Contains h v p then Some (Inr None)
          else if \<not> (nChainTx (h p) \<noteq> 0 \<or> nHeight (h p) = 0) then Some (Inl AssertFail)
          else if nStatus (h p) AND BLOCK_FAILED_MASK \<noteq> 0 then Some (Inr (Some (p, True)))
          else if nStatus (h p) AND BLOCK_HAVE_DATA = 0 then Some (Inr (Some (p, False)))
          else find_unusable h v (pprev (h p)))"

declare find_unusable.simps [code]

text \<open>\<^verbatim>\<open>while (pindexTest != pindexFailed) { ... pindexFailed = pindexFailed->pprev; }\<close>\<close>

partial_function (option) drop_unusable ::
  "ptr \<Rightarrow> bool \<Rightarrow> ptr option \<Rightarrow> block_tree \<Rightarrow> block_tree run" where
  "drop_unusable pindexTest fFailedChain pindexFailed t =
     (if pindexFailed = Some pindexTest then Some (Inr t)
      else case pindexFailed of None \<Rightarrow> Some (Inl NullDeref)
      | Some f \<Rightarrow> drop_unusable pindexTest fFailedChain (pprev (bt_mem t f))
          (if fFailedChain
           then t\<lparr>bt_mem := (bt_mem t)(f := (bt_mem t f)\<lparr>nStatus := nStatus (bt_mem t f) OR BLOCK_FAILED_CHILD\<rparr>),
                  setBlockIndexCandidates := removeAll f (setBlockIndexCandidates t)\<rparr>
           else t\<lparr>mapBlocksUnlinked := mapBlocksUnlinked t @ [(pprev (bt_mem t f), f)],
                  setBlockIndexCandidates := removeAll f (setBlockIndexCandidates t)\<rparr>))"

declare drop_unusable.simps [code]

partial_function (option) FindMostWorkChain :: "block_tree \<Rightarrow> (ptr option \<times> block_tree) run" where
  "FindMostWorkChain t =
     (case largest_candidate (bt_mem t) (setBlockIndexCandidates t) of
        None \<Rightarrow> Some (Inr (None, t))
      | Some pindexNew \<Rightarrow>
          (case find_unusable (bt_mem t) (chainActive t) (Some pindexNew) of
             None \<Rightarrow> None
           | Some (Inl e) \<Rightarrow> Some (Inl e)
           | Some (Inr None) \<Rightarrow> Some (Inr (Some pindexNew, t))
           | Some (Inr (Some (pindexTest, fFailedChain))) \<Rightarrow>
               (case drop_unusable pindexTest fFailedChain (Some pindexNew)
                       (if fFailedChain \<and> (case pindexBestInvalid t of None \<Rightarrow> True
                            | Some b \<Rightarrow> CompareTo (nChainWork (bt_mem t pindexNew)) (nChainWork (bt_mem t b)) > 0)
                        then t\<lparr>pindexBestInvalid := Some pindexNew\<rparr> else t) of
                  None \<Rightarrow> None
                | Some (Inl e) \<Rightarrow> Some (Inl e)
                | Some (Inr t') \<Rightarrow> FindMostWorkChain
                    (t'\<lparr>setBlockIndexCandidates := removeAll pindexTest (setBlockIndexCandidates t')\<rparr>))))"

declare FindMostWorkChain.simps [code]


section \<open>The invariant of the block tree\<close>

text \<open>
  Every entry of the map is allocated, carries its own hash, stands one above its predecessor with a
  correct skip pointer, and holds the accumulated work and the latest time of its branch; the best header
  has the most work.
\<close>

definition entry_ok :: "block_mem \<Rightarrow> ptr \<Rightarrow> bool" where
  "entry_ok h p \<longleftrightarrow> wf_uint (nChainWork (h p)) \<and>
     (\<exists>w. GetBlockProof (h p) = Inr w \<and> uval (nChainWork (h p)) =
        ((case pprev (h p) of None \<Rightarrow> 0 | Some q \<Rightarrow> uval (nChainWork (h q))) + uval w) mod 2 ^ 256) \<and>
     nTimeMax (h p) = (case pprev (h p) of None \<Rightarrow> nTime (h p) | Some q \<Rightarrow> max (nTimeMax (h q)) (nTime (h p)))"

definition tree_inv :: "block_tree \<Rightarrow> bool" where
  "tree_inv t \<longleftrightarrow> wf_tree (bt_mem t) (ran (mapBlockIndex t)) \<and>
     (\<forall>p \<in> ran (mapBlockIndex t). p < bt_next t \<and> entry_ok (bt_mem t) p) \<and>
     (\<forall>k p. mapBlockIndex t k = Some p \<longrightarrow> phashBlock (bt_mem t p) = k) \<and>
     (case pindexBestHeader t of None \<Rightarrow> mapBlockIndex t = Map.empty
      | Some b \<Rightarrow> b \<in> ran (mapBlockIndex t) \<and>
          (\<forall>p \<in> ran (mapBlockIndex t). uval (nChainWork (bt_mem t p)) \<le> uval (nChainWork (bt_mem t b))))"

lemma GetBlockProof_wf: "\<exists>w. GetBlockProof b = Inr w \<and> wf_uint w"
proof -
  obtain t neg ovf where t: "SetCompact (nBits b) = (t, neg, ovf)"
    by (metis prod_cases3)
  have wf: "wf_uint t"
    using SetCompact_fst(1)[of "nBits b"] t by simp
  show ?thesis
  proof (cases "neg \<or> ovf \<or> EqualTo t 0")
    case True
    then show ?thesis
      using t by (auto simp: GetBlockProof_def)
  next
    case False
    then have "SetCompact (nBits b) = (t, False, False)" "uval t \<noteq> 0"
      using t EqualTo_0[OF wf] by simp_all
    then show ?thesis
      using GetBlockProof_value by blast
  qed
qed

lemma GetBlockProof_cong: "nBits b = nBits c \<Longrightarrow> GetBlockProof b = GetBlockProof c"
  by (simp add: GetBlockProof_def)

lemma steps_back_cong:
  assumes "\<forall>r. pprev (h' r) = pprev (h r)"
  shows "steps_back h' k r = steps_back h k r"
  using assms by (induction k arbitrary: r) (auto split: option.splits)

lemma wf_tree_cong:
  assumes "\<forall>r. pprev (h' r) = pprev (h r) \<and> pskip (h' r) = pskip (h r) \<and> nHeight (h' r) = nHeight (h r)"
  shows "wf_tree h' A \<longleftrightarrow> wf_tree h A"
proof -
  have "steps_back h' = steps_back h"
    using assms steps_back_cong[of h' h] by blast
  moreover have "pprev (h' r) = pprev (h r)" "pskip (h' r) = pskip (h r)" "nHeight (h' r) = nHeight (h r)" for r
    using assms by simp_all
  ultimately show ?thesis
    by (simp add: wf_tree_def wf_entry_def cong: option.case_cong)
qed

lemma wf_tree_fresh:
  assumes "wf_tree h A" "p \<notin> A"
  shows "wf_tree (h(p := b)) A"
proof -
  have fr: "steps_back (h(p := b)) k r = steps_back h k r" if "r \<in> A" for k r
    using steps_back_frame[of p "h(p := b)" h A r k] assms that by auto
  show ?thesis
    using assms fr unfolding wf_tree_def wf_entry_def by (auto split: option.splits)
qed

lemma entry_ok_fresh:
  assumes "wf_tree h A" "p \<notin> A" "r \<in> A" "entry_ok h r"
  shows "entry_ok (h(p := b)) r"
proof -
  have "r \<noteq> p" "pprev (h r) \<noteq> Some p"
    using assms wf_treeD(2)[OF assms(1,3)] by auto
  then show ?thesis
    using assms(4) by (auto simp: entry_ok_def split: option.splits)
qed

lemma CompareTo_less_iff: "wf_uint a \<Longrightarrow> wf_uint b \<Longrightarrow> CompareTo a b < 0 \<longleftrightarrow> uval a < uval b"
  by (simp add: CompareTo_value)

lemma new_status:
  assumes "nStatus b = 0"
  shows "RaiseValidity b BLOCK_VALID_TREE = Inr (b\<lparr>nStatus := 2\<rparr>, True)"
proof -
  have "BLOCK_VALID_TREE AND NOT BLOCK_VALID_MASK = 0" by code_simp
  then show ?thesis
    using assms by (simp add: RaiseValidity_def BLOCK_VALID_TREE_def)
qed

text \<open>What \<^verbatim>\<open>AddToBlockIndex\<close> writes for a header whose predecessor is known.\<close>

lemma AddToBlockIndex_new:
  assumes inv: "tree_inv t" and new: "mapBlockIndex t (GetHash block) = None"
    and prev: "mapBlockIndex t (hdr_hashPrevBlock block) = Some q"
  shows "\<exists>s w. GetBlockProof (CBlockIndex_of_header block) = Inr w \<and> wf_uint w \<and>
    (let b = (CBlockIndex_of_header block)\<lparr>phashBlock := GetHash block, pprev := Some q,
              nHeight := Suc (nHeight (bt_mem t q)), pskip := Some s,
              nTimeMax := max (nTimeMax (bt_mem t q)) (hdr_nTime block),
              nChainWork := add_uint (nChainWork (bt_mem t q)) w, nStatus := 2\<rparr>;
         h = (bt_mem t)(bt_next t := b)
     in wf_tree h (insert (bt_next t) (ran (mapBlockIndex t))) \<and>
       AddToBlockIndex GetHash block t = Inr (bt_next t, t\<lparr>bt_mem := h, bt_next := bt_next t + 1,
         mapBlockIndex := (mapBlockIndex t)(GetHash block \<mapsto> bt_next t),
         pindexBestHeader := (case pindexBestHeader t of None \<Rightarrow> Some (bt_next t)
           | Some r \<Rightarrow> if CompareTo (nChainWork (h r)) (nChainWork b) < 0 then Some (bt_next t) else Some r),
         setDirtyBlockIndex := insert (bt_next t) (setDirtyBlockIndex t)\<rparr>))"
proof -
  let ?p = "bt_next t" and ?A = "ran (mapBlockIndex t)" and ?e = "CBlockIndex_of_header block"
  let ?e1 = "?e\<lparr>phashBlock := GetHash block, pprev := Some q, nHeight := Suc (nHeight (bt_mem t q))\<rparr>"
  let ?h1 = "(bt_mem t)(?p := ?e1)"
  have A: "wf_tree (bt_mem t) ?A" "?p \<notin> ?A" "q \<in> ?A"
    using inv prev by (auto simp: tree_inv_def intro: ranI)
  then have qp: "q \<noteq> ?p" by blast
  have seq: "?e\<lparr>nSequenceId := 0\<rparr> = ?e" and st: "nStatus ?e = 0"
    by (simp_all add: CBlockIndex_of_header_def null_index_def)
  have ne: "GetHash block \<noteq> hdr_hashPrevBlock block"
    using new prev by auto
  obtain s where s: "BuildSkip ?h1 ?p = Inr (?h1(?p := ?e1\<lparr>pskip := Some s\<rparr>))"
      "wf_tree (?h1(?p := ?e1\<lparr>pskip := Some s\<rparr>)) (insert ?p ?A)"
    using BuildSkip_wf[OF wf_tree_fresh[OF A(1,2)] A(2), of ?e1 q] A(3) qp by auto
  obtain w where w: "GetBlockProof ?e = Inr w" "wf_uint w"
    using GetBlockProof_wf by blast
  let ?b = "?e\<lparr>phashBlock := GetHash block, pprev := Some q,
              nHeight := Suc (nHeight (bt_mem t q)), pskip := Some s,
              nTimeMax := max (nTimeMax (bt_mem t q)) (hdr_nTime block),
              nChainWork := add_uint (nChainWork (bt_mem t q)) w, nStatus := 2\<rparr>"
  have tm: "nTime ?e = hdr_nTime block"
    by (simp add: CBlockIndex_of_header_def)
  have "wf_tree ((bt_mem t)(?p := ?b)) (insert ?p ?A)"
    using s(2) by (subst wf_tree_cong[of _ "?h1(?p := ?e1\<lparr>pskip := Some s\<rparr>)"]) simp_all
  moreover have pr: "GetBlockProof (?e1\<lparr>pskip := Some s, nTimeMax := m\<rparr>) = Inr w" for m
    using w(1) by (subst GetBlockProof_cong[of _ ?e]) simp_all
  have ra: "RaiseValidity (?e1\<lparr>pskip := Some s, nTimeMax := m, nChainWork := c\<rparr>) BLOCK_VALID_TREE =
      Inr (?e1\<lparr>pskip := Some s, nTimeMax := m, nChainWork := c, nStatus := 2\<rparr>, True)" for m c
    by (rule new_status) (simp add: st)
  have "AddToBlockIndex GetHash block t = Inr (?p, t\<lparr>bt_mem := (bt_mem t)(?p := ?b), bt_next := ?p + 1,
         mapBlockIndex := (mapBlockIndex t)(GetHash block \<mapsto> ?p),
         pindexBestHeader := (case pindexBestHeader t of None \<Rightarrow> Some ?p
           | Some r \<Rightarrow> if CompareTo (nChainWork (((bt_mem t)(?p := ?b)) r)) (nChainWork ?b) < 0 then Some ?p else Some r),
         setDirtyBlockIndex := insert ?p (setDirtyBlockIndex t)\<rparr>)"
    using new prev ne qp s(1) pr ra tm
    by (simp add: AddToBlockIndex_def Let_def seq split: option.split)
  ultimately show ?thesis
    using w by (auto simp: Let_def)
qed


definition with_entry :: "block_tree \<Rightarrow> bytes \<Rightarrow> CBlockIndex \<Rightarrow> block_tree" where
  "with_entry t hash b = t\<lparr>bt_mem := (bt_mem t)(bt_next t := b), bt_next := bt_next t + 1,
     mapBlockIndex := (mapBlockIndex t)(hash \<mapsto> bt_next t),
     pindexBestHeader := (case pindexBestHeader t of None \<Rightarrow> Some (bt_next t)
       | Some r \<Rightarrow> if CompareTo (nChainWork (((bt_mem t)(bt_next t := b)) r)) (nChainWork b) < 0
                   then Some (bt_next t) else Some r),
     setDirtyBlockIndex := insert (bt_next t) (setDirtyBlockIndex t)\<rparr>"

lemma tree_invD:
  assumes "tree_inv t"
  shows "wf_tree (bt_mem t) (ran (mapBlockIndex t))" "bt_next t \<notin> ran (mapBlockIndex t)"
    "\<And>p. p \<in> ran (mapBlockIndex t) \<Longrightarrow> p < bt_next t \<and> entry_ok (bt_mem t) p"
    "\<And>k p. mapBlockIndex t k = Some p \<Longrightarrow> phashBlock (bt_mem t p) = k"
  using assms by (auto simp: tree_inv_def)

lemma ran_new: "m k = None \<Longrightarrow> ran (m(k \<mapsto> p)) = insert p (ran m)"
  by (rule ran_map_upd)

lemma tree_inv_with_entry:
  assumes inv: "tree_inv t" and new: "mapBlockIndex t hash = None" and b: "phashBlock b = hash"
    and wf: "wf_tree ((bt_mem t)(bt_next t := b)) (insert (bt_next t) (ran (mapBlockIndex t)))"
    and ok: "entry_ok ((bt_mem t)(bt_next t := b)) (bt_next t)"
  shows "tree_inv (with_entry t hash b)"
proof -
  let ?p = "bt_next t" and ?A = "ran (mapBlockIndex t)" and ?h = "(bt_mem t)(bt_next t := b)"
  note d = tree_invD[OF inv]
  have old: "r < Suc ?p \<and> entry_ok ?h r" if "r \<in> ?A" for r
    using d(3)[OF that] entry_ok_fresh[OF d(1,2) that, of b] by simp
  have hash: "phashBlock (?h r) = k" if "((mapBlockIndex t)(hash \<mapsto> ?p)) k = Some r" for k r
    using that b d(2,4) by (auto split: if_splits intro: ranI)
  have wb: "wf_uint (nChainWork b)" and wr: "wf_uint (nChainWork (bt_mem t r))" if "r \<in> ?A" for r
    using ok d(3)[OF that] by (auto simp: entry_ok_def)
  have wb: "wf_uint (nChainWork b)"
    using ok by (simp add: entry_ok_def)
  have best: "case pindexBestHeader (with_entry t hash b) of None \<Rightarrow> False
    | Some c \<Rightarrow> c \<in> insert ?p ?A \<and>
      (\<forall>r \<in> insert ?p ?A. uval (nChainWork (?h r)) \<le> uval (nChainWork (?h c)))"
  proof (cases "pindexBestHeader t")
    case None
    then have "?A = {}"
      using inv by (simp add: tree_inv_def)
    then show ?thesis
      using None by (simp add: with_entry_def)
  next
    case (Some c)
    then have c: "c \<in> ?A" "\<And>r. r \<in> ?A \<Longrightarrow> uval (nChainWork (bt_mem t r)) \<le> uval (nChainWork (bt_mem t c))"
      using inv by (simp_all add: tree_inv_def)
    have cp: "c \<noteq> ?p" and rp: "\<And>r. r \<in> ?A \<Longrightarrow> r \<noteq> ?p"
      using c(1) d(2) by auto
    have "uval (nChainWork (bt_mem t r)) \<le> uval (nChainWork b)"
      if "r \<in> ?A" "uval (nChainWork (bt_mem t c)) < uval (nChainWork b)" for r
      using c(2)[OF that(1)] that(2) by simp
    then show ?thesis
      using Some c wb wr[OF c(1)] cp rp by (auto simp: with_entry_def CompareTo_less_iff)
  qed
  show ?thesis
    unfolding tree_inv_def using wf ok old hash best
    by (auto simp: with_entry_def ran_new[where m = "mapBlockIndex t", OF new] split: option.splits)
qed

lemma AddToBlockIndex_known:
  assumes "mapBlockIndex t (GetHash block) = Some p"
  shows "AddToBlockIndex GetHash block t = Inr (p, t)"
  using assms by (simp add: AddToBlockIndex_def)

lemma AddToBlockIndex_child:
  assumes inv: "tree_inv t" and new: "mapBlockIndex t (GetHash block) = None"
    and prev: "mapBlockIndex t (hdr_hashPrevBlock block) = Some q"
  obtains b where "AddToBlockIndex GetHash block t = Inr (bt_next t, with_entry t (GetHash block) b)"
    "tree_inv (with_entry t (GetHash block) b)" "pprev b = Some q" "nTime b = hdr_nTime block"
    "nBits b = hdr_nBits block" "nHeight b = Suc (nHeight (bt_mem t q))" "nStatus b = 2"
proof -
  let ?p = "bt_next t" and ?A = "ran (mapBlockIndex t)" and ?e = "CBlockIndex_of_header block"
  note d = tree_invD[OF inv]
  obtain s w where w: "GetBlockProof ?e = Inr w" "wf_uint w" and add:
     "(let b = ?e\<lparr>phashBlock := GetHash block, pprev := Some q,
              nHeight := Suc (nHeight (bt_mem t q)), pskip := Some s,
              nTimeMax := max (nTimeMax (bt_mem t q)) (hdr_nTime block),
              nChainWork := add_uint (nChainWork (bt_mem t q)) w, nStatus := 2\<rparr>;
         h = (bt_mem t)(bt_next t := b)
     in wf_tree h (insert ?p ?A) \<and>
       AddToBlockIndex GetHash block t = Inr (?p, t\<lparr>bt_mem := h, bt_next := ?p + 1,
         mapBlockIndex := (mapBlockIndex t)(GetHash block \<mapsto> ?p),
         pindexBestHeader := (case pindexBestHeader t of None \<Rightarrow> Some ?p
           | Some r \<Rightarrow> if CompareTo (nChainWork (h r)) (nChainWork b) < 0 then Some ?p else Some r),
         setDirtyBlockIndex := insert ?p (setDirtyBlockIndex t)\<rparr>))"
    using AddToBlockIndex_new[where GetHash = GetHash and block = block, OF inv new prev] by blast
  define b where "b = ?e\<lparr>phashBlock := GetHash block, pprev := Some q,
              nHeight := Suc (nHeight (bt_mem t q)), pskip := Some s,
              nTimeMax := max (nTimeMax (bt_mem t q)) (hdr_nTime block),
              nChainWork := add_uint (nChainWork (bt_mem t q)) w, nStatus := 2\<rparr>"
  have add: "wf_tree ((bt_mem t)(?p := b)) (insert ?p ?A)"
      "AddToBlockIndex GetHash block t = Inr (?p, with_entry t (GetHash block) b)"
    using add by (simp_all add: Let_def b_def[symmetric] with_entry_def)
  have q: "q \<in> ?A" "q \<noteq> ?p"
    using prev d(2) by (auto intro: ranI)
  then have wq: "wf_uint (nChainWork (bt_mem t q))"
    using d(3) by (simp add: entry_ok_def)
  have "GetBlockProof b = Inr w"
    using w(1) by (subst GetBlockProof_cong[of b ?e]) (simp_all add: b_def)
  then have "entry_ok ((bt_mem t)(?p := b)) ?p"
    using q w(2) wq by (simp add: entry_ok_def b_def uval_add CBlockIndex_of_header_def)
  then have inv': "tree_inv (with_entry t (GetHash block) b)"
    by (intro tree_inv_with_entry inv new add(1)) (simp_all add: b_def)
  show thesis
    by (rule that[OF add(2) inv']) (simp_all add: b_def CBlockIndex_of_header_def)
qed


section \<open>Changes of status bits\<close>

definition status_only :: "block_tree \<Rightarrow> block_tree \<Rightarrow> bool" where
  "status_only t t' \<longleftrightarrow> (\<forall>r. (bt_mem t' r)\<lparr>nStatus := 0\<rparr> = (bt_mem t r)\<lparr>nStatus := 0\<rparr>) \<and>
     mapBlockIndex t' = mapBlockIndex t \<and> bt_next t' = bt_next t \<and> pindexBestHeader t' = pindexBestHeader t"

lemma status_only_refl [simp]: "status_only t t"
  by (simp add: status_only_def)

lemma status_only_trans: "status_only t t' \<Longrightarrow> status_only t' t'' \<Longrightarrow> status_only t t''"
  by (simp add: status_only_def)

lemma status_only_fields:
  assumes "status_only t t'"
  shows "pprev (bt_mem t' r) = pprev (bt_mem t r)" "pskip (bt_mem t' r) = pskip (bt_mem t r)"
    "nHeight (bt_mem t' r) = nHeight (bt_mem t r)" "nChainWork (bt_mem t' r) = nChainWork (bt_mem t r)"
    "nTime (bt_mem t' r) = nTime (bt_mem t r)" "nTimeMax (bt_mem t' r) = nTimeMax (bt_mem t r)"
    "nBits (bt_mem t' r) = nBits (bt_mem t r)" "phashBlock (bt_mem t' r) = phashBlock (bt_mem t r)"
proof -
  have e: "(bt_mem t' r)\<lparr>nStatus := 0\<rparr> = (bt_mem t r)\<lparr>nStatus := 0\<rparr>"
    using assms by (simp add: status_only_def)
  show "pprev (bt_mem t' r) = pprev (bt_mem t r)" "pskip (bt_mem t' r) = pskip (bt_mem t r)"
    "nHeight (bt_mem t' r) = nHeight (bt_mem t r)" "nChainWork (bt_mem t' r) = nChainWork (bt_mem t r)"
    "nTime (bt_mem t' r) = nTime (bt_mem t r)" "nTimeMax (bt_mem t' r) = nTimeMax (bt_mem t r)"
    "nBits (bt_mem t' r) = nBits (bt_mem t r)" "phashBlock (bt_mem t' r) = phashBlock (bt_mem t r)"
    using arg_cong[OF e, of pprev] arg_cong[OF e, of pskip] arg_cong[OF e, of nHeight]
      arg_cong[OF e, of nChainWork] arg_cong[OF e, of nTime] arg_cong[OF e, of nTimeMax]
      arg_cong[OF e, of nBits] arg_cong[OF e, of phashBlock] by simp_all
qed

lemma status_only_tree_inv:
  assumes "status_only t t'" "tree_inv t"
  shows "tree_inv t'"
proof -
  note f = status_only_fields[OF assms(1)]
  have m: "mapBlockIndex t' = mapBlockIndex t" "bt_next t' = bt_next t" "pindexBestHeader t' = pindexBestHeader t"
    using assms(1) by (simp_all add: status_only_def)
  have "entry_ok (bt_mem t') r \<longleftrightarrow> entry_ok (bt_mem t) r" for r
    using GetBlockProof_cong[OF f(7)[of r]] by (simp add: entry_ok_def f cong: option.case_cong)
  moreover have "wf_tree (bt_mem t') A \<longleftrightarrow> wf_tree (bt_mem t) A" for A
    by (rule wf_tree_cong) (simp add: f)
  ultimately show ?thesis
    using assms(2) by (simp add: tree_inv_def m f cong: option.case_cong)
qed

lemma past_times_cong:
  assumes "\<forall>r. pprev (h' r) = pprev (h r) \<and> nTime (h' r) = nTime (h r)"
  shows "past_times h' n p = past_times h n p"
  using assms by (induction h' n p rule: past_times.induct) (simp_all add: GetBlockTime_def)

lemma status_only_times:
  assumes "status_only t t'"
  shows "times_ok (bt_mem t') A \<longleftrightarrow> times_ok (bt_mem t) A"
proof -
  note f = status_only_fields[OF assms]
  have "GetMedianTimePast (bt_mem t') = GetMedianTimePast (bt_mem t)"
    using past_times_cong[of "bt_mem t'" "bt_mem t"] f by (simp add: GetMedianTimePast_def fun_eq_iff)
  then show ?thesis
    by (simp add: times_ok_def f GetBlockTime_def cong: option.case_cong)
qed

lemma status_only_set:
  "status_only t (t\<lparr>bt_mem := (bt_mem t)(w := (bt_mem t w)\<lparr>nStatus := s\<rparr>), setDirtyBlockIndex := D\<rparr>)"
  by (simp add: status_only_def)

lemma mark_failed_children_value:
  assumes "steps_back (bt_mem t) k w = Some f"
  shows "\<exists>t'. mark_failed_children f (Some w) t = Some (Inr t') \<and> status_only t t'"
  using assms
proof (induction k arbitrary: w t)
  case 0
  then show ?case
    by (simp add: mark_failed_children.simps)
next
  case (Suc k)
  show ?case
  proof (cases "w = f")
    case True
    then show ?thesis by (simp add: mark_failed_children.simps)
  next
    case False
    let ?t = "t\<lparr>bt_mem := (bt_mem t)(w := (bt_mem t w)\<lparr>nStatus := nStatus (bt_mem t w) OR BLOCK_FAILED_CHILD\<rparr>),
       setDirtyBlockIndex := insert w (setDirtyBlockIndex t)\<rparr>"
    obtain v where v: "pprev (bt_mem t w) = Some v" "steps_back (bt_mem t) k v = Some f"
      using Suc.prems by (auto split: option.splits)
    have "steps_back (bt_mem ?t) k v = Some f"
      using v(2) by (subst steps_back_cong[of _ "bt_mem t"]) simp_all
    then obtain t' where t': "mark_failed_children f (Some v) ?t = Some (Inr t')" "status_only ?t t'"
      using Suc.IH by blast
    have "mark_failed_children f (Some w) t = Some (Inr t')"
      using False v(1) t'(1) by (subst mark_failed_children.simps) simp
    then show ?thesis
      using status_only_trans[OF status_only_set t'(2)] by blast
  qed
qed

lemma failed_ancestor_loop_value:
  assumes "wf_tree (bt_mem t) A" "q \<in> A" "\<forall>f \<in> set fs. nStatus (bt_mem t f) AND BLOCK_FAILED_VALID \<noteq> 0"
  shows "\<exists>b t'. failed_ancestor_loop q fs t = Some (Inr (b, t')) \<and> status_only t t' \<and> (\<not> b \<longrightarrow> t' = t)"
  using assms(3)
proof (induction fs)
  case (Cons f fs)
  let ?h = "bt_mem t" and ?n = "int (nHeight (bt_mem t f))"
  obtain r where r: "GetAncestor ?h q ?n = Inr r"
    using GetAncestor_value[OF assms(1,2)] by blast
  show ?case
  proof (cases "r = Some f")
    case True
    then obtain k where "steps_back ?h k q = Some f"
      using r GetAncestor_value[OF assms(1,2), of ?n] by (auto split: if_splits)
    then obtain t' where "mark_failed_children f (Some q) t = Some (Inr t')" "status_only t t'"
      using mark_failed_children_value by blast
    then show ?thesis
      using True r Cons.prems by auto
  next
    case False
    then show ?thesis
      using Cons r by simp
  qed
qed auto


section \<open>Accepting headers on the main network\<close>

definition main_env :: "node_env \<Rightarrow> bool" where
  "main_env env \<longleftrightarrow> env_params env = CMainParams \<and> 0 \<le> env_maxreorg env"

definition failed_ok :: "block_tree \<Rightarrow> bool" where
  "failed_ok t \<longleftrightarrow> finite (g_failed_blocks t) \<and>
     (\<forall>f \<in> g_failed_blocks t. nStatus (bt_mem t f) AND BLOCK_FAILED_VALID \<noteq> 0)"

lemma main_params: "consensus CMainParams = main_consensus" "nDGWActivationBlock CMainParams = 1"
  by (simp_all add: CMainParams_def)

lemma main_next_work:
  assumes "wf_tree h A" "q \<in> A"
  shows "\<exists>c. GetNextWorkRequired CMainParams h q block main_consensus = Some (Inr c)"
proof -
  have "GetNextWorkRequired CMainParams h q block main_consensus =
      DarkGravityWave (nKAAAWWWPOWActivationTime CMainParams) h q block main_consensus"
    by (simp add: GetNextWorkRequired_def IsDGWActive_def main_params)
  then show ?thesis
    using DarkGravityWave_bounded[OF assms main_limits] by metis
qed

lemma wf_chain_Tip:
  assumes "wf_chain h A v" "v \<noteq> []" "wf_tree h A"
  shows "\<exists>p \<in> A. chain_Tip v = Some p"
proof -
  obtain p where p: "p \<in> A" "v = path_to h p"
    using assms by (auto simp: wf_chain_def)
  then have "chain_Tip v = Some p"
    by (simp add: chain_Tip_def nth_path)
  then show ?thesis using p(1) by blast
qed

lemma ContextualCheck_main:
  assumes env: "main_env env" and wf: "wf_tree (bt_mem t) A" "q \<in> A" "wf_chain (bt_mem t) A (chainActive t)"
  shows "\<exists>r. ContextualCheckBlockHeader env block t q = Some (Inr r) \<and>
    (r = None \<longrightarrow> GetNextWorkRequired CMainParams (bt_mem t) q block main_consensus = Some (Inr (hdr_nBits block)) \<and>
       GetMedianTimePast (bt_mem t) q < hdr_GetBlockTime block \<and>
       hdr_GetBlockTime block \<le> env_adjusted_time env + 720)"
proof -
  have ep: "env_params env = CMainParams"
    using env by (simp add: main_env_def)
  let ?deep = "(case env_node_count env of
           Some n \<Rightarrow>
             if chain_Height (chainActive t) - (int (nHeight (bt_mem t q)) + 1 - 1) \<ge> env_maxreorg env
             then (case chain_Tip (chainActive t) of None \<Rightarrow> Some (Inl NullDeref)
                   | Some tip \<Rightarrow> Some (Inr (n \<ge> env_minreorgpeers env \<and>
                       env_time env - uint (nTime (bt_mem t tip)) \<le> env_minreorgage env)))
             else Some (Inr False)
         | None \<Rightarrow> Some (Inr False)) :: bool run"
  have "\<exists>b. ?deep = Some (Inr b)"
  proof (cases "chainActive t = []")
    case True
    then have "chain_Height (chainActive t) - (int (nHeight (bt_mem t q)) + 1 - 1) < env_maxreorg env"
      using env by (simp add: chain_Height_def main_env_def)
    then show ?thesis by (auto split: option.splits)
  next
    case False
    then show ?thesis
      using wf_chain_Tip[OF wf(3) False wf(1)] by (auto split: option.splits)
  qed
  then obtain b where b: "?deep = Some (Inr b)" by blast
  obtain c where c: "GetNextWorkRequired CMainParams (bt_mem t) q block main_consensus = Some (Inr c)"
    using main_next_work[OF wf(1,2)] by blast
  have fut: "(if IsDGWActive CMainParams (nHeight (bt_mem t q) + 1) then MAX_FUTURE_BLOCK_TIME_DGW
      else MAX_FUTURE_BLOCK_TIME) = 720"
    by (simp add: IsDGWActive_def main_params MAX_FUTURE_BLOCK_TIME_DGW_def MAX_FUTURE_BLOCK_TIME_def)
  show ?thesis
    unfolding ContextualCheckBlockHeader_def Let_def ep main_params(1) b c fut bind_run_simps
    by (auto split: option.split)
qed

lemma CheckBlockHeader_pow:
  assumes "CheckBlockHeader act GetHash GetHashFull cp block params True (Some n) = None"
  shows "CheckProofOfWork (GetHash block) (hdr_nBits block) params \<and> act \<le> hdr_nTime block \<and> (\<exists>c. cp = Some c \<and> n + 1 \<le> c) \<or>
    CheckProofOfWork (fst (GetHashFull block)) (hdr_nBits block) params \<and>
      (act \<le> hdr_nTime block \<longrightarrow> snd (GetHashFull block) = hdr_mix_hash block)"
  using assms by (auto simp: CheckBlockHeader_def Let_def split: if_splits option.splits prod.splits)


lemma past_times_fresh:
  assumes "wf_tree h A" "p \<notin> A" "r \<in> A"
  shows "past_times (h(p := b)) n (Some r) = past_times h n (Some r)"
  using assms(3)
proof (induction n arbitrary: r)
  case (Suc n)
  then have "r \<noteq> p" using assms(2) by blast
  then show ?case
    using Suc wf_treeD(2)[OF assms(1) Suc.prems] by (cases "pprev (h r)") (auto, cases n, auto)
qed simp

lemma times_ok_fresh:
  assumes wf: "wf_tree h A" "p \<notin> A" and ok: "times_ok h A" and q: "pprev b = Some q" "q \<in> A"
    and tm: "GetMedianTimePast h q < GetBlockTime b"
  shows "times_ok (h(p := b)) (insert p A)"
proof -
  have m: "GetMedianTimePast (h(p := b)) r = GetMedianTimePast h r" if "r \<in> A" for r
    using past_times_fresh[OF wf that] by (simp add: GetMedianTimePast_def)
  have "case pprev ((h(p := b)) r) of None \<Rightarrow> True
      | Some s \<Rightarrow> GetMedianTimePast (h(p := b)) s < GetBlockTime ((h(p := b)) r)" if "r \<in> A" for r
  proof -
    have "r \<noteq> p" and "\<And>s. pprev (h r) = Some s \<Longrightarrow> s \<in> A"
      using that wf(2) wf_treeD(2)[OF wf(1) that] by auto
    then show ?thesis
      using ok that m by (auto simp: times_ok_def split: option.splits)
  qed
  then show ?thesis
    using q tm m[OF q(2)] by (simp add: times_ok_def)
qed

definition keeps_tree :: "block_tree \<Rightarrow> block_tree \<Rightarrow> bool" where
  "keeps_tree t t' \<longleftrightarrow> tree_inv t' \<and>
     (times_ok (bt_mem t) (ran (mapBlockIndex t)) \<longrightarrow> times_ok (bt_mem t') (ran (mapBlockIndex t')))"

lemma status_only_keeps: "tree_inv t \<Longrightarrow> status_only t t' \<Longrightarrow> keeps_tree t t'"
  using status_only_tree_inv[of t t'] status_only_times[of t t'] by (simp add: keeps_tree_def status_only_def)

lemma accept_known_or_add_child:
  assumes inv: "tree_inv t" and prev: "mapBlockIndex t (hdr_hashPrevBlock block) = Some q"
    and tm: "GetMedianTimePast (bt_mem t) q < hdr_GetBlockTime block"
  shows "\<exists>r t'. accept_known_or_add env block t = Some (Inr (r, t')) \<and> keeps_tree t t' \<and>
    (case r of Inl e \<Rightarrow> t' = t | Inr p \<Rightarrow> mapBlockIndex t' (env_GetHash env block) = Some p)"
proof (cases "mapBlockIndex t (env_GetHash env block)")
  case None
  let ?hash = "env_GetHash env block"
  obtain b where b: "AddToBlockIndex (env_GetHash env) block t = Inr (bt_next t, with_entry t ?hash b)"
      "tree_inv (with_entry t ?hash b)" "pprev b = Some q" "nTime b = hdr_nTime block"
    using AddToBlockIndex_child[where GetHash = "env_GetHash env", OF inv None prev] by metis
  have "times_ok ((bt_mem t)(bt_next t := b)) (insert (bt_next t) (ran (mapBlockIndex t)))"
    if "times_ok (bt_mem t) (ran (mapBlockIndex t))"
    by (rule times_ok_fresh[OF tree_invD(1,2)[OF inv] that b(3)])
      (use prev tm b(4) in \<open>auto simp: GetBlockTime_def hdr_GetBlockTime_def intro: ranI\<close>)
  then have "keeps_tree t (with_entry t ?hash b)"
    using b(2) ran_new[where m = "mapBlockIndex t", OF None] by (simp add: keeps_tree_def with_entry_def)
  then show ?thesis
    using None b(1) by (simp add: accept_known_or_add_def with_entry_def)
next
  case (Some p)
  then show ?thesis
    using status_only_keeps[OF inv status_only_refl] by (auto simp: accept_known_or_add_def)
qed

definition header_checked :: "node_env \<Rightarrow> CBlockHeader \<Rightarrow> block_tree \<Rightarrow> ptr \<Rightarrow> bool" where
  "header_checked env block t q \<longleftrightarrow> nStatus (bt_mem t q) AND BLOCK_FAILED_MASK = 0 \<and>
     GetNextWorkRequired CMainParams (bt_mem t) q block main_consensus = Some (Inr (hdr_nBits block)) \<and>
     GetMedianTimePast (bt_mem t) q < hdr_GetBlockTime block \<and>
     hdr_GetBlockTime block \<le> env_adjusted_time env + 720 \<and>
     (CheckProofOfWork (env_GetHash env block) (hdr_nBits block) main_consensus \<and>
        (\<exists>c. last_checkpoint env t = Some c \<and> nHeight (bt_mem t q) < nHeight (bt_mem t c)) \<or>
      CheckProofOfWork (fst (env_GetHashFull env block)) (hdr_nBits block) main_consensus \<and>
        (nKAAAWWWPOWActivationTime CMainParams \<le> hdr_nTime block \<longrightarrow>
           snd (env_GetHashFull env block) = hdr_mix_hash block))"

lemma IsValid_scripts: "\<exists>v. IsValid b BLOCK_VALID_SCRIPTS = Inr v"
proof -
  have "BLOCK_VALID_SCRIPTS AND NOT BLOCK_VALID_MASK = 0" by code_simp
  then show ?thesis by (simp add: IsValid_def)
qed

lemma AcceptBlockHeader_value:
  assumes env: "main_env env" and inv: "tree_inv t" and failed: "failed_ok t"
    and chain: "wf_chain (bt_mem t) (ran (mapBlockIndex t)) (chainActive t)"
    and prev: "\<not> blob_IsNull (hdr_hashPrevBlock block)"
  shows "\<exists>r t'. AcceptBlockHeader env block t = Some (Inr (r, t')) \<and> keeps_tree t t' \<and>
    (case r of Inl e \<Rightarrow> status_only t t'
     | Inr p \<Rightarrow> mapBlockIndex t' (env_GetHash env block) = Some p \<and>
         (\<exists>q. mapBlockIndex t (hdr_hashPrevBlock block) = Some q \<and> header_checked env block t q))"
proof -
  have rejected: ?thesis if "AcceptBlockHeader env block t = Some (Inr (Inl e, t'))" "status_only t t'" for e t'
    using that status_only_keeps[OF inv that(2)] by auto
  have ep: "env_params env = CMainParams"
    using env by (simp add: main_env_def)
  note acc = AcceptBlockHeader_def[of env block t, unfolded Let_def ep main_params(1)]
  show ?thesis
  proof (cases "mapBlockIndex t (hdr_hashPrevBlock block)")
    case None
    then show ?thesis
      using prev by (intro rejected[OF _ status_only_refl]) (simp add: acc)
  next
    case (Some q)
    let ?h = "bt_mem t" and ?n = "int (nHeight (bt_mem t q))"
    let ?cbh = "CheckBlockHeader (nKAAAWWWPOWActivationTime CMainParams) (env_GetHash env) (env_GetHashFull env)
      (map_option (\<lambda>c. int (nHeight (?h c))) (last_checkpoint env t)) block main_consensus True (Some ?n)"
    let ?kaw = "CheckKAWPOWHeaderHeight (nKAAAWWWPOWActivationTime CMainParams) block (?n + 1) main_consensus"
    have q: "q \<in> ran (mapBlockIndex t)"
      using Some by (rule ranI)
    obtain r where r: "ContextualCheckBlockHeader env block t q = Some (Inr r)"
      "r = None \<longrightarrow> GetNextWorkRequired CMainParams ?h q block main_consensus = Some (Inr (hdr_nBits block)) \<and>
         GetMedianTimePast ?h q < hdr_GetBlockTime block \<and> hdr_GetBlockTime block \<le> env_adjusted_time env + 720"
      using ContextualCheck_main[OF env tree_invD(1)[OF inv] q chain] by blast
    show ?thesis
    proof (cases "nStatus (?h q) AND BLOCK_FAILED_MASK \<noteq> 0 \<or> ?kaw \<noteq> None \<or> ?cbh \<noteq> None \<or> r \<noteq> None")
      case True
      then have "\<exists>e. AcceptBlockHeader env block t = Some (Inr (Inl e, t))"
        unfolding acc using prev Some r(1) by (cases ?kaw; cases ?cbh; cases r) auto
      then show ?thesis
        using rejected status_only_refl by blast
    next
      case False
      then have ok: "nStatus (?h q) AND BLOCK_FAILED_MASK = 0" "?kaw = None" "?cbh = None" "r = None"
        by blast+
      have checked: "header_checked env block t q"
        using CheckBlockHeader_pow[OF ok(3)] r(2) ok(1,4) by (auto simp: header_checked_def)
      obtain v where v: "IsValid (?h q) BLOCK_VALID_SCRIPTS = Inr v"
        using IsValid_scripts by blast
      have "\<exists>b t'. (if \<not> v then failed_ancestor_loop q (sorted_list_of_set (g_failed_blocks t)) t
          else Some (Inr (False, t))) = Some (Inr (b, t')) \<and> status_only t t' \<and> (\<not> b \<longrightarrow> t' = t)"
        using failed_ancestor_loop_value[OF tree_invD(1)[OF inv] q, of "sorted_list_of_set (g_failed_blocks t)"] failed
        by (auto simp: failed_ok_def)
      then obtain b t' where t': "(if \<not> v then failed_ancestor_loop q (sorted_list_of_set (g_failed_blocks t)) t
          else Some (Inr (False, t))) = Some (Inr (b, t'))" "status_only t t'" "\<not> b \<longrightarrow> t' = t"
        by blast
      have a: "AcceptBlockHeader env block t =
          (if b then Some (Inr (Inl (100, ''bad-prevblk''), t')) else accept_known_or_add env block t')"
        using prev Some ok r(1) by (simp add: acc v t'(1))
      show ?thesis
      proof (cases b)
        case True
        then show ?thesis
          using a t'(2) by (intro rejected) simp_all
      next
        case False
        then have "AcceptBlockHeader env block t = accept_known_or_add env block t"
          using a t'(3) by simp
        then show ?thesis
          using accept_known_or_add_child[OF inv Some, of env] r(2) ok(4) Some checked
          by (fastforce split: sum.splits)
      qed
    qed
  qed
qed


lemma wf_entry_mono: "wf_entry h A r \<Longrightarrow> wf_entry h (insert p A) r"
  by (auto simp: wf_entry_def split: option.splits)

lemma AddToBlockIndex_root:
  assumes inv: "tree_inv t" and new: "mapBlockIndex t (GetHash block) = None"
    and prev: "mapBlockIndex t (hdr_hashPrevBlock block) = None" "GetHash block \<noteq> hdr_hashPrevBlock block"
  obtains b where "AddToBlockIndex GetHash block t = Inr (bt_next t, with_entry t (GetHash block) b)"
    "pprev b = None" "pskip b = None" "nHeight b = unat (hdr_nHeight block)" "nTime b = hdr_nTime block"
    "hdr_nHeight block = 0 \<Longrightarrow> tree_inv (with_entry t (GetHash block) b)"
proof -
  let ?p = "bt_next t" and ?A = "ran (mapBlockIndex t)" and ?e = "CBlockIndex_of_header block"
  note d = tree_invD[OF inv]
  obtain w where w: "GetBlockProof ?e = Inr w" "wf_uint w"
    using GetBlockProof_wf by blast
  define b where "b = ?e\<lparr>phashBlock := GetHash block, nTimeMax := hdr_nTime block,
    nChainWork := add_uint (uint_of_u64 0) w, nStatus := 2\<rparr>"
  have e: "?e\<lparr>nSequenceId := 0\<rparr> = ?e" "nStatus ?e = 0" "pprev ?e = None" "pskip ?e = None"
      "nHeight ?e = unat (hdr_nHeight block)" "nTime ?e = hdr_nTime block"
    by (simp_all add: CBlockIndex_of_header_def null_index_def)
  have pr: "GetBlockProof (?e\<lparr>phashBlock := GetHash block, nTimeMax := m\<rparr>) = Inr w" for m
    using w(1) by (subst GetBlockProof_cong[of _ ?e]) simp_all
  have ra: "RaiseValidity (?e\<lparr>phashBlock := GetHash block, nTimeMax := m, nChainWork := c\<rparr>) BLOCK_VALID_TREE =
      Inr (?e\<lparr>phashBlock := GetHash block, nTimeMax := m, nChainWork := c, nStatus := 2\<rparr>, True)" for m c
    by (rule new_status) (simp add: e)
  have add: "AddToBlockIndex GetHash block t = Inr (?p, with_entry t (GetHash block) b)"
    using new prev pr ra
    by (simp add: AddToBlockIndex_def Let_def e with_entry_def b_def split: option.split)
  have b: "pprev b = None" "pskip b = None" "nHeight b = unat (hdr_nHeight block)" "nTime b = hdr_nTime block"
    by (simp_all add: b_def e)
  have "tree_inv (with_entry t (GetHash block) b)" if "hdr_nHeight block = 0"
  proof (rule tree_inv_with_entry[OF inv new])
    have "wf_entry ((bt_mem t)(?p := b)) (insert ?p ?A) ?p"
      using b that by (simp add: wf_entry_def)
    then show "wf_tree ((bt_mem t)(?p := b)) (insert ?p ?A)"
      using wf_tree_fresh[OF d(1,2), of b] wf_entry_mono by (auto simp: wf_tree_def)
    have "GetBlockProof b = Inr w"
      using w(1) by (subst GetBlockProof_cong[of b ?e]) (simp_all add: b_def)
    then show "entry_ok ((bt_mem t)(?p := b)) ?p"
      using w(2) by (simp add: entry_ok_def b uval_add b_def e wf_of_u64 uval_of_u64)
  qed (simp add: b_def)
  then show thesis
    by (rule that[OF add b])
qed

section \<open>Properties of header acceptance\<close>

text \<open>
  C22. Adding a header keeps the block tree sound: from a tree in which every entry carries its hash,
  stands one above its predecessor with a correct skip pointer, and holds the work and latest time of its
  branch, and in which the best header has the most work, \<^verbatim>\<open>AddToBlockIndex\<close> returns without a failed
  assertion, the tree it leaves is of the same kind, the header is found under its hash and no other
  entry changes. The header either extends a known block or is a first block of height 0.
\<close>

theorem AddToBlockIndex_inv:
  assumes "tree_inv t" "GetHash block \<noteq> hdr_hashPrevBlock block"
    and "mapBlockIndex t (hdr_hashPrevBlock block) \<noteq> None \<or> hdr_nHeight block = 0"
  shows "\<exists>p t'. AddToBlockIndex GetHash block t = Inr (p, t') \<and> tree_inv t' \<and>
    mapBlockIndex t' (GetHash block) = Some p \<and>
    (\<forall>k. k \<noteq> GetHash block \<longrightarrow> mapBlockIndex t' k = mapBlockIndex t k) \<and>
    (\<forall>r \<in> ran (mapBlockIndex t). bt_mem t' r = bt_mem t r)"
proof (cases "mapBlockIndex t (GetHash block)")
  case (Some p)
  then show ?thesis
    using assms(1) by (simp add: AddToBlockIndex_known)
next
  case None
  have res: ?thesis if "AddToBlockIndex GetHash block t = Inr (bt_next t, with_entry t (GetHash block) b)"
    "tree_inv (with_entry t (GetHash block) b)" for b
    using that tree_invD(2)[OF assms(1)] by (auto simp: with_entry_def)
  show ?thesis
  proof (cases "mapBlockIndex t (hdr_hashPrevBlock block)")
    case prev: None
    show ?thesis
      using AddToBlockIndex_root[where GetHash = GetHash, OF assms(1) None prev assms(2)] res assms(3) prev by metis
  next
    case (Some q)
    show ?thesis
      using AddToBlockIndex_child[where GetHash = GetHash, OF assms(1) None Some] res by metis
  qed
qed

text \<open>
  C6. On the main network accepting a header is safe: for every header that names a predecessor
  \<^verbatim>\<open>AcceptBlockHeader\<close> returns, keeps the block tree sound and keeps every block later than the median
  of its eleven predecessors. A header it accepts extends a known block that has not failed, states the
  target the retargeting requires, is later than the median and at most twelve minutes ahead of the
  adjusted time, and its hash meets the target (the full hash, with the mix hash it states, above the last
  checkpoint). A header it rejects changes nothing but status bits.
\<close>

theorem AcceptBlockHeader_sound:
  assumes "main_env env" "tree_inv t" "failed_ok t"
    and "wf_chain (bt_mem t) (ran (mapBlockIndex t)) (chainActive t)"
    and "\<not> blob_IsNull (hdr_hashPrevBlock block)"
  shows "\<exists>r t'. AcceptBlockHeader env block t = Some (Inr (r, t')) \<and> tree_inv t' \<and>
    (times_ok (bt_mem t) (ran (mapBlockIndex t)) \<longrightarrow> times_ok (bt_mem t') (ran (mapBlockIndex t'))) \<and>
    (case r of Inl e \<Rightarrow> status_only t t'
     | Inr p \<Rightarrow> mapBlockIndex t' (env_GetHash env block) = Some p \<and>
         (\<exists>q. mapBlockIndex t (hdr_hashPrevBlock block) = Some q \<and> header_checked env block t q))"
  using AcceptBlockHeader_value[OF assms] by (simp add: keeps_tree_def)

text \<open>
  C23. A header with a null predecessor is not checked at all: whatever its hash, its target and its time,
  a new one that states a height from 1 to \<open>2 ^ 31 - 1\<close> is added to the index by \<^verbatim>\<open>AcceptBlockHeader\<close>
  without a predecessor and at the height it states. The entry breaks the block tree: \<^verbatim>\<open>GetAncestor\<close> of
  it at height 0 runs into the failing assertion.
\<close>

theorem null_prev_header_unchecked:
  assumes "tree_inv t" "blob_IsNull (hdr_hashPrevBlock block)"
    and "mapBlockIndex t (env_GetHash env block) = None" "mapBlockIndex t (hdr_hashPrevBlock block) = None"
    and "env_GetHash env block \<noteq> hdr_hashPrevBlock block"
    and "hdr_nHeight block \<noteq> 0" "unat (hdr_nHeight block) < 2 ^ 31"
  shows "\<exists>p t'. AcceptBlockHeader env block t = Some (Inr (Inr p, t')) \<and>
    mapBlockIndex t' (env_GetHash env block) = Some p \<and> pprev (bt_mem t' p) = None \<and>
    nHeight (bt_mem t' p) = unat (hdr_nHeight block) \<and> \<not> tree_inv t' \<and>
    GetAncestor (bt_mem t') p 0 = Inl AssertFail"
proof -
  obtain b where b: "AddToBlockIndex (env_GetHash env) block t = Inr (bt_next t, with_entry t (env_GetHash env block) b)"
    "pprev b = None" "pskip b = None" "nHeight b = unat (hdr_nHeight block)"
    using AddToBlockIndex_root[where GetHash = "env_GetHash env", OF assms(1,3,4,5)] by metis
  let ?t = "with_entry t (env_GetHash env block) b"
  have pos: "0 < nHeight b"
    using assms(6) b(4) by (simp add: unat_gt_0)
  have t: "bt_mem ?t (bt_next t) = b" "mapBlockIndex ?t (env_GetHash env block) = Some (bt_next t)"
    by (simp_all add: with_entry_def)
  have ga: "GetAncestor (bt_mem ?t) (bt_next t) 0 = Inl AssertFail"
    using pos b(2,3) t(1) by (simp add: GetAncestor_def ancestor_walk.simps)
  have "bt_next t \<in> ran (mapBlockIndex ?t)"
    using t(2) by (rule ranI)
  then have "\<not> tree_inv ?t"
    using GetAncestor_value[OF tree_invD(1), of ?t "bt_next t" 0] ga by auto
  then show ?thesis
    using assms(2,3) b ga t by (intro exI[of _ "bt_next t"] exI[of _ ?t])
      (simp add: AcceptBlockHeader_def accept_known_or_add_def)
qed


section \<open>The most-work chain\<close>

text \<open>The comparator orders by work, then by earlier arrival, then by lower address.\<close>

lemma CBlockIndexWorkComparator_iff:
  assumes "wf_uint (nChainWork (h a))" "wf_uint (nChainWork (h b))"
  shows "CBlockIndexWorkComparator h a b \<longleftrightarrow> uval (nChainWork (h a)) < uval (nChainWork (h b)) \<or>
    uval (nChainWork (h a)) = uval (nChainWork (h b)) \<and>
      (nSequenceId (h b) < nSequenceId (h a) \<or> nSequenceId (h a) = nSequenceId (h b) \<and> b < a)"
  using assms by (auto simp: CBlockIndexWorkComparator_def CompareTo_value)

lemma comparator_trans:
  assumes "wf_uint (nChainWork (h a))" "wf_uint (nChainWork (h b))" "wf_uint (nChainWork (h c))"
    and "CBlockIndexWorkComparator h a b" "CBlockIndexWorkComparator h b c"
  shows "CBlockIndexWorkComparator h a c"
  using assms(4,5) unfolding CBlockIndexWorkComparator_iff[OF assms(1,2)]
    CBlockIndexWorkComparator_iff[OF assms(2,3)] CBlockIndexWorkComparator_iff[OF assms(1,3)]
  by linarith

lemma comparator_total:
  assumes "wf_uint (nChainWork (h a))" "wf_uint (nChainWork (h b))" "a \<noteq> b"
  shows "CBlockIndexWorkComparator h a b \<longleftrightarrow> \<not> CBlockIndexWorkComparator h b a"
  unfolding CBlockIndexWorkComparator_iff[OF assms(1,2)] CBlockIndexWorkComparator_iff[OF assms(2,1)]
  using assms(3) by linarith

lemma largest_candidate_value:
  assumes "\<forall>c \<in> set cs. wf_uint (nChainWork (h c))" "cs \<noteq> []"
  shows "\<exists>p \<in> set cs. largest_candidate h cs = Some p \<and>
    (\<forall>c \<in> set cs. c \<noteq> p \<longrightarrow> CBlockIndexWorkComparator h c p)"
  using assms
proof (induction cs)
  case (Cons a cs)
  show ?case
  proof (cases "cs = []")
    case False
    then obtain p where p: "p \<in> set cs" "largest_candidate h cs = Some p"
        "\<forall>c \<in> set cs. c \<noteq> p \<longrightarrow> CBlockIndexWorkComparator h c p"
      using Cons by auto
    have wf: "wf_uint (nChainWork (h a))" "wf_uint (nChainWork (h p))" "\<forall>c \<in> set cs. wf_uint (nChainWork (h c))"
      using Cons.prems p(1) by auto
    show ?thesis
    proof (cases "CBlockIndexWorkComparator h a p")
      case True
      then show ?thesis using p by auto
    next
      case False
      have "CBlockIndexWorkComparator h c a" if c: "c \<in> set cs" "c \<noteq> a" for c
      proof (cases "c = p")
        case True
        then show ?thesis
          using False c(2) comparator_total[OF wf(2,1)] by simp
      next
        case neq: False
        show ?thesis
        proof (cases "a = p")
          case False
          then have "CBlockIndexWorkComparator h p a"
            using \<open>\<not> CBlockIndexWorkComparator h a p\<close> comparator_total[OF wf(1,2)] by simp
          then show ?thesis
            using comparator_trans[of h c p a] p(3) c neq wf by blast
        qed (use neq p(3) c in simp)
      qed
      then show ?thesis
        using p(2) False by auto
    qed
  qed simp
qed simp

text \<open>
  A candidate is blocked when, walking back from it towards the active chain, a block that failed or lacks
  data comes first.
\<close>

definition unusable :: "block_mem \<Rightarrow> ptr \<Rightarrow> bool" where
  "unusable h r \<longleftrightarrow> nStatus (h r) AND BLOCK_FAILED_MASK \<noteq> 0 \<or> nStatus (h r) AND BLOCK_HAVE_DATA = 0"

definition off_chain :: "block_mem \<Rightarrow> CChain \<Rightarrow> nat \<Rightarrow> ptr \<Rightarrow> bool" where
  "off_chain h v k p \<longleftrightarrow> (\<forall>j \<le> k. \<forall>s. steps_back h j p = Some s \<longrightarrow> \<not> chain_Contains h v s)"

definition blocked :: "block_mem \<Rightarrow> CChain \<Rightarrow> ptr \<Rightarrow> bool" where
  "blocked h v p \<longleftrightarrow> (\<exists>k r. steps_back h k p = Some r \<and> off_chain h v k p \<and> unusable h r)"

lemma off_chain_0: "off_chain h v 0 p \<longleftrightarrow> \<not> chain_Contains h v p"
  by (simp add: off_chain_def)

lemma off_chain_Suc:
  assumes "pprev (h p) = Some q"
  shows "off_chain h v (Suc k) p \<longleftrightarrow> \<not> chain_Contains h v p \<and> off_chain h v k q"
proof -
  have "(\<forall>j \<le> Suc k. P j) \<longleftrightarrow> P 0 \<and> (\<forall>j \<le> k. P (Suc j))" for P
    by (metis Suc_le_mono le0 not0_implies_Suc)
  then show ?thesis
    unfolding off_chain_def using assms by simp
qed

lemma blocked_rec:
  "blocked h v p \<longleftrightarrow> \<not> chain_Contains h v p \<and>
     (unusable h p \<or> (\<exists>q. pprev (h p) = Some q \<and> blocked h v q))"
proof
  assume "blocked h v p"
  then obtain k r where k: "steps_back h k p = Some r" "off_chain h v k p" "unusable h r"
    by (auto simp: blocked_def)
  show "\<not> chain_Contains h v p \<and> (unusable h p \<or> (\<exists>q. pprev (h p) = Some q \<and> blocked h v q))"
  proof (cases k)
    case 0
    then show ?thesis using k by (simp add: off_chain_0)
  next
    case (Suc n)
    then obtain q where "pprev (h p) = Some q" "steps_back h n q = Some r"
      using k(1) by (auto split: option.splits)
    then show ?thesis
      using k(2,3) Suc off_chain_Suc[of h p q v n] by (auto simp: blocked_def)
  qed
next
  assume a: "\<not> chain_Contains h v p \<and> (unusable h p \<or> (\<exists>q. pprev (h p) = Some q \<and> blocked h v q))"
  then consider "unusable h p" | q where "pprev (h p) = Some q" "blocked h v q" by blast
  then show "blocked h v p"
  proof cases
    case 1
    then show ?thesis
      using a unfolding blocked_def by (intro exI[of _ 0] exI[of _ p]) (simp add: off_chain_0)
  next
    case 2
    then obtain k r where "steps_back h k q = Some r" "off_chain h v k q" "unusable h r"
      by (auto simp: blocked_def)
    then show ?thesis
      using a 2(1) off_chain_Suc[of h p q v k] unfolding blocked_def
      by (intro exI[of _ "Suc k"] exI[of _ r]) simp
  qed
qed

text \<open>What the walk needs: every block behind a candidate has its transactions.\<close>

definition linked :: "block_mem \<Rightarrow> ptr \<Rightarrow> bool" where
  "linked h c \<longleftrightarrow> (\<forall>k r. steps_back h k c = Some r \<longrightarrow> nChainTx (h r) \<noteq> 0 \<or> nHeight (h r) = 0)"

lemma linked_prev: "linked h p \<Longrightarrow> pprev (h p) = Some q \<Longrightarrow> linked h q"
  unfolding linked_def by (metis steps_back.simps(2) option.simps(5))

lemma find_unusable_value:
  assumes wf: "wf_tree h A"
  shows "p \<in> A \<Longrightarrow> linked h p \<Longrightarrow>
    \<not> blocked h v p \<and> find_unusable h v (Some p) = Some (Inr None) \<or>
    (\<exists>k r. steps_back h k p = Some r \<and> off_chain h v k p \<and> unusable h r \<and>
       find_unusable h v (Some p) = Some (Inr (Some (r, nStatus (h r) AND BLOCK_FAILED_MASK \<noteq> 0))))"
proof (induction "nHeight (h p)" arbitrary: p rule: less_induct)
  case less
  have tx: "nChainTx (h p) \<noteq> 0 \<or> nHeight (h p) = 0"
    using less.prems(2) by (auto simp: linked_def dest: spec[of _ 0])
  consider "chain_Contains h v p" | "\<not> chain_Contains h v p" "unusable h p"
    | "\<not> chain_Contains h v p" "\<not> unusable h p" by blast
  then show ?case
  proof cases
    case 1
    then show ?thesis
      by (simp add: find_unusable.simps blocked_rec[of h v p])
  next
    case 2
    then have "find_unusable h v (Some p) = Some (Inr (Some (p, nStatus (h p) AND BLOCK_FAILED_MASK \<noteq> 0)))"
      using tx by (auto simp: find_unusable.simps unusable_def)
    then show ?thesis
      using 2 by (intro disjI2 exI[of _ 0] exI[of _ p]) (simp add: off_chain_0)
  next
    case 3
    then have f: "find_unusable h v (Some p) = find_unusable h v (pprev (h p))"
      using tx by (subst find_unusable.simps) (auto simp: unusable_def)
    show ?thesis
    proof (cases "pprev (h p)")
      case None
      then show ?thesis
        using f 3 by (simp add: find_unusable.simps blocked_rec[of h v p])
    next
      case (Some q)
      then have q: "q \<in> A" "nHeight (h q) < nHeight (h p)"
        using wf_treeD(2)[OF wf less.prems(1)] by auto
      show ?thesis
        using less.hyps[OF q(2,1) linked_prev[OF less.prems(2) Some]]
      proof
        assume "\<not> blocked h v q \<and> find_unusable h v (Some q) = Some (Inr None)"
        then show ?thesis
          using f Some 3 by (simp add: blocked_rec[of h v p])
      next
        assume "\<exists>k r. steps_back h k q = Some r \<and> off_chain h v k q \<and> unusable h r \<and>
          find_unusable h v (Some q) = Some (Inr (Some (r, nStatus (h r) AND BLOCK_FAILED_MASK \<noteq> 0)))"
        then obtain k r where "steps_back h k q = Some r" "off_chain h v k q" "unusable h r"
          "find_unusable h v (Some q) = Some (Inr (Some (r, nStatus (h r) AND BLOCK_FAILED_MASK \<noteq> 0)))" by blast
        then show ?thesis
          using f Some 3 off_chain_Suc[of h p q v k]
          by (intro disjI2 exI[of _ "Suc k"] exI[of _ r]) simp
      qed
    qed
  qed
qed


lemma off_chain_add:
  assumes "steps_back h k c = Some f" "off_chain h v k c" "off_chain h v m f"
  shows "off_chain h v (k + m) c"
  unfolding off_chain_def
proof (intro allI impI)
  fix j s
  assume j: "j \<le> k + m" "steps_back h j c = Some s"
  show "\<not> chain_Contains h v s"
  proof (cases "j \<le> k")
    case True
    then show ?thesis using assms(2) j(2) by (auto simp: off_chain_def)
  next
    case False
    then have "steps_back h (j - k) f = Some s" "j - k \<le> m"
      using j back_add[of h k "j - k" c] assms(1) by simp_all
    then show ?thesis using assms(3) by (auto simp: off_chain_def)
  qed
qed

lemma blocked_through:
  assumes "steps_back h k c = Some f" "off_chain h v k c" "blocked h v f"
  shows "blocked h v c"
proof -
  obtain m r where "steps_back h m f = Some r" "off_chain h v m f" "unusable h r"
    using assms(3) by (auto simp: blocked_def)
  then show ?thesis
    using assms(1) off_chain_add[OF assms(1,2), of m] back_add[of h k m c]
    unfolding blocked_def by (intro exI[of _ "k + m"] exI[of _ r]) simp
qed

lemma failed_child_bit: "(s OR BLOCK_FAILED_CHILD) AND BLOCK_FAILED_MASK \<noteq> 0"
proof -
  have b: "bit (BLOCK_FAILED_CHILD :: u32) 6" "bit (BLOCK_FAILED_MASK :: u32) 6"
    by code_simp+
  then have "bit ((s OR BLOCK_FAILED_CHILD) AND BLOCK_FAILED_MASK) 6"
    by (simp add: bit_simps)
  then show ?thesis by auto
qed

lemma blocked_mark:
  assumes "blocked h v f"
  defines "h' \<equiv> h(f := (h f)\<lparr>nStatus := nStatus (h f) OR BLOCK_FAILED_CHILD\<rparr>)"
  shows "blocked h' v c \<longleftrightarrow> blocked h v c" and "off_chain h' v k c \<longleftrightarrow> off_chain h v k c"
    and "steps_back h' k c = steps_back h k c" and "unusable h r \<Longrightarrow> unusable h' r"
proof -
  show sb: "steps_back h' k c = steps_back h k c" for k c
    by (rule steps_back_cong) (simp add: h'_def)
  have cc: "chain_Contains h' v s \<longleftrightarrow> chain_Contains h v s" for s
    by (simp add: chain_Contains_def h'_def)
  show oc: "off_chain h' v k c \<longleftrightarrow> off_chain h v k c" for k c
    by (simp add: off_chain_def sb cc)
  have un: "unusable h' r \<longleftrightarrow> unusable h r \<or> r = f" for r
    using failed_child_bit by (auto simp: unusable_def h'_def)
  then show "unusable h r \<Longrightarrow> unusable h' r" by simp
  show "blocked h' v c \<longleftrightarrow> blocked h v c"
    using blocked_through[OF _ _ assms(1)] by (auto simp: blocked_def sb oc un)
qed

lemma drop_unusable_value:
  assumes "steps_back (bt_mem t) k f = Some test" "off_chain (bt_mem t) (chainActive t) k f"
    and "unusable (bt_mem t) test"
  shows "\<exists>t' D. drop_unusable test fl (Some f) t = Some (Inr t') \<and> status_only t t' \<and>
    chainActive t' = chainActive t \<and>
    (\<forall>c. blocked (bt_mem t') (chainActive t) c \<longleftrightarrow> blocked (bt_mem t) (chainActive t) c) \<and>
    setBlockIndexCandidates t' = filter (\<lambda>c. c \<notin> D) (setBlockIndexCandidates t) \<and>
    (\<forall>c \<in> D. blocked (bt_mem t) (chainActive t) c) \<and> (f \<noteq> test \<longrightarrow> f \<in> D)"
  using assms
proof (induction k arbitrary: f t)
  case 0
  then show ?case
    by (intro exI[of _ t] exI[of _ "{}"]) (simp add: drop_unusable.simps)
next
  case (Suc k)
  let ?h = "bt_mem t" and ?v = "chainActive t"
  show ?case
  proof (cases "f = test")
    case True
    then show ?thesis
      by (intro exI[of _ t] exI[of _ "{}"]) (simp add: drop_unusable.simps)
  next
    case False
    obtain q where q: "pprev (?h f) = Some q" "steps_back ?h k q = Some test"
      using Suc.prems(1) by (auto split: option.splits)
    have oq: "off_chain ?h ?v k q"
      using Suc.prems(2) off_chain_Suc[of ?h f q] q(1) by simp
    have bf: "blocked ?h ?v f"
      using Suc.prems unfolding blocked_def by blast
    define t1 where "t1 = (if fl
           then t\<lparr>bt_mem := (bt_mem t)(f := (bt_mem t f)\<lparr>nStatus := nStatus (bt_mem t f) OR BLOCK_FAILED_CHILD\<rparr>),
                  setBlockIndexCandidates := removeAll f (setBlockIndexCandidates t)\<rparr>
           else t\<lparr>mapBlocksUnlinked := mapBlocksUnlinked t @ [(pprev (bt_mem t f), f)],
                  setBlockIndexCandidates := removeAll f (setBlockIndexCandidates t)\<rparr>)"
    have step: "drop_unusable test fl (Some f) t = drop_unusable test fl (Some q) t1"
      using False q(1) by (subst drop_unusable.simps) (simp add: t1_def)
    have t1: "status_only t t1" "chainActive t1 = ?v"
        "setBlockIndexCandidates t1 = filter (\<lambda>c. c \<notin> {f}) (setBlockIndexCandidates t)"
      by (auto simp: t1_def status_only_def removeAll_filter_not_eq intro: filter_cong)
    have m: "blocked (bt_mem t1) ?v c \<longleftrightarrow> blocked ?h ?v c" "steps_back (bt_mem t1) k q = Some test"
        "off_chain (bt_mem t1) ?v k q" "unusable (bt_mem t1) test" for c
      using blocked_mark[OF bf] q(2) oq Suc.prems(3) by (simp_all add: t1_def)
    obtain t' D where t': "drop_unusable test fl (Some q) t1 = Some (Inr t')" "status_only t1 t'"
        "chainActive t' = chainActive t1"
        "\<forall>c. blocked (bt_mem t') (chainActive t1) c \<longleftrightarrow> blocked (bt_mem t1) (chainActive t1) c"
        "setBlockIndexCandidates t' = filter (\<lambda>c. c \<notin> D) (setBlockIndexCandidates t1)"
        "\<forall>c \<in> D. blocked (bt_mem t1) (chainActive t1) c"
      using Suc.IH[of t1 q] m(2,3,4) t1(2) by auto
    have "setBlockIndexCandidates t' = filter (\<lambda>c. c \<notin> insert f D) (setBlockIndexCandidates t)"
      by (auto simp: t'(5) t1(3) intro: filter_cong)
    then show ?thesis
      using step t' t1 m(1) bf status_only_trans[OF t1(1) t'(2)]
      by (intro exI[of _ t'] exI[of _ "insert f D"]) auto
  qed
qed

lemma status_only_more:
  assumes "status_only t t'"
  shows "nSequenceId (bt_mem t' r) = nSequenceId (bt_mem t r)" "nChainTx (bt_mem t' r) = nChainTx (bt_mem t r)"
    "steps_back (bt_mem t') k r = steps_back (bt_mem t) k r" "linked (bt_mem t') r = linked (bt_mem t) r"
    "CBlockIndexWorkComparator (bt_mem t') a b = CBlockIndexWorkComparator (bt_mem t) a b"
proof -
  have e: "(bt_mem t' r)\<lparr>nStatus := 0\<rparr> = (bt_mem t r)\<lparr>nStatus := 0\<rparr>" for r
    using assms by (simp add: status_only_def)
  show sq: "nSequenceId (bt_mem t' r) = nSequenceId (bt_mem t r)" and tx: "nChainTx (bt_mem t' r) = nChainTx (bt_mem t r)" for r
    using arg_cong[OF e, of nSequenceId r] arg_cong[OF e, of nChainTx r] by simp_all
  note f = status_only_fields[OF assms]
  show sb: "steps_back (bt_mem t') k r = steps_back (bt_mem t) k r" for k r
    by (rule steps_back_cong) (simp add: f)
  show "linked (bt_mem t') r = linked (bt_mem t) r"
    by (simp add: linked_def sb tx f)
  show "CBlockIndexWorkComparator (bt_mem t') a b = CBlockIndexWorkComparator (bt_mem t) a b"
    by (simp add: CBlockIndexWorkComparator_def sq f)
qed

lemma FindMostWorkChain_value:
  assumes "tree_inv t" "set (setBlockIndexCandidates t) \<subseteq> ran (mapBlockIndex t)"
    and "\<forall>c \<in> set (setBlockIndexCandidates t). linked (bt_mem t) c"
  shows "\<exists>r t' D. FindMostWorkChain t = Some (Inr (r, t')) \<and> status_only t t' \<and>
    setBlockIndexCandidates t' = filter (\<lambda>c. c \<notin> D) (setBlockIndexCandidates t) \<and>
    (\<forall>c \<in> D. blocked (bt_mem t) (chainActive t) c) \<and>
    (case r of None \<Rightarrow> setBlockIndexCandidates t' = []
     | Some p \<Rightarrow> p \<in> set (setBlockIndexCandidates t') \<and> \<not> blocked (bt_mem t) (chainActive t) p \<and>
         (\<forall>c \<in> set (setBlockIndexCandidates t'). c \<noteq> p \<longrightarrow> CBlockIndexWorkComparator (bt_mem t) c p))"
  using assms
proof (induction t rule: measure_induct_rule[where f = "\<lambda>t. length (setBlockIndexCandidates t)"])
  case (less t)
  let ?cs = "setBlockIndexCandidates t" and ?h = "bt_mem t" and ?v = "chainActive t"
  show ?case
  proof (cases "?cs = []")
    case True
    then show ?thesis
      by (intro exI[of _ None] exI[of _ t] exI[of _ "{}"]) (simp add: FindMostWorkChain.simps)
  next
    case False
    have w: "\<forall>c \<in> set ?cs. wf_uint (nChainWork (?h c))"
      using less.prems(1,2) tree_invD(3) by (auto simp: entry_ok_def)
    obtain p where p: "p \<in> set ?cs" "largest_candidate ?h ?cs = Some p"
        "\<forall>c \<in> set ?cs. c \<noteq> p \<longrightarrow> CBlockIndexWorkComparator ?h c p"
      using largest_candidate_value[OF w False] by blast
    have pa: "p \<in> ran (mapBlockIndex t)" "linked ?h p"
      using p(1) less.prems(2,3) by auto
    show ?thesis
      using find_unusable_value[OF tree_invD(1)[OF less.prems(1)] pa, of ?v]
    proof
      assume "\<not> blocked ?h ?v p \<and> find_unusable ?h ?v (Some p) = Some (Inr None)"
      then show ?thesis
        using p by (intro exI[of _ "Some p"] exI[of _ t] exI[of _ "{}"]) (simp add: FindMostWorkChain.simps[of t])
    next
      assume "\<exists>k r. steps_back ?h k p = Some r \<and> off_chain ?h ?v k p \<and> unusable ?h r \<and>
        find_unusable ?h ?v (Some p) = Some (Inr (Some (r, nStatus (?h r) AND BLOCK_FAILED_MASK \<noteq> 0)))"
      then obtain k r where r: "steps_back ?h k p = Some r" "off_chain ?h ?v k p" "unusable ?h r"
        "find_unusable ?h ?v (Some p) = Some (Inr (Some (r, nStatus (?h r) AND BLOCK_FAILED_MASK \<noteq> 0)))" by blast
      let ?fl = "nStatus (?h r) AND BLOCK_FAILED_MASK \<noteq> 0"
      define t0 where "t0 = (if ?fl \<and> (case pindexBestInvalid t of None \<Rightarrow> True
          | Some b \<Rightarrow> CompareTo (nChainWork (?h p)) (nChainWork (?h b)) > 0)
        then t\<lparr>pindexBestInvalid := Some p\<rparr> else t)"
      have t0: "bt_mem t0 = ?h" "chainActive t0 = ?v" "setBlockIndexCandidates t0 = ?cs" "status_only t t0"
        by (auto simp: t0_def status_only_def)
      obtain t1 D where t1: "drop_unusable r ?fl (Some p) t0 = Some (Inr t1)" "status_only t0 t1" "chainActive t1 = ?v"
          "\<forall>c. blocked (bt_mem t1) ?v c \<longleftrightarrow> blocked ?h ?v c"
          "setBlockIndexCandidates t1 = filter (\<lambda>c. c \<notin> D) ?cs"
          "\<forall>c \<in> D. blocked ?h ?v c" "p \<noteq> r \<longrightarrow> p \<in> D"
        using drop_unusable_value[of t0 k p r ?fl] r(1,2,3) t0 by auto
      define t2 where "t2 = t1\<lparr>setBlockIndexCandidates := removeAll r (setBlockIndexCandidates t1)\<rparr>"
      have step: "FindMostWorkChain t = FindMostWorkChain t2"
        using p(2) r(4) t1(1) by (subst FindMostWorkChain.simps) (simp add: t0_def t2_def)
      have "status_only t1 t2"
        by (simp add: t2_def status_only_def)
      then have so: "status_only t t2"
        using t0(4) t1(2) status_only_trans by blast
      have br: "blocked ?h ?v r"
        using r unfolding blocked_def by (intro exI[of _ 0] exI[of _ r]) (auto simp: off_chain_0 off_chain_def)
      have cs2: "setBlockIndexCandidates t2 = filter (\<lambda>c. c \<notin> insert r D) ?cs"
        by (auto simp: t2_def t1(5) removeAll_filter_not_eq intro: filter_cong)
      have m2: "mapBlockIndex t2 = mapBlockIndex t" "chainActive t2 = ?v" "bt_mem t2 = bt_mem t1"
        using so t1(3) by (simp_all add: status_only_def t2_def)
      have "length (setBlockIndexCandidates t2) < length ?cs"
        unfolding cs2 by (rule length_filter_less[OF p(1)]) (use t1(7) in auto)
      then obtain q t' E where t': "FindMostWorkChain t2 = Some (Inr (q, t'))" "status_only t2 t'"
          "setBlockIndexCandidates t' = filter (\<lambda>c. c \<notin> E) (setBlockIndexCandidates t2)"
          "\<forall>c \<in> E. blocked (bt_mem t2) (chainActive t2) c"
          "case q of None \<Rightarrow> setBlockIndexCandidates t' = []
           | Some p \<Rightarrow> p \<in> set (setBlockIndexCandidates t') \<and> \<not> blocked (bt_mem t2) (chainActive t2) p \<and>
             (\<forall>c \<in> set (setBlockIndexCandidates t'). c \<noteq> p \<longrightarrow> CBlockIndexWorkComparator (bt_mem t2) c p)"
        using less.IH[of t2] status_only_tree_inv[OF so less.prems(1)] less.prems(2,3) cs2 m2(1)
          status_only_more(4)[OF so] by auto
      have "setBlockIndexCandidates t' = filter (\<lambda>c. c \<notin> insert r D \<union> E) ?cs"
        by (auto simp: t'(3) cs2 intro: filter_cong)
      moreover have "\<forall>c \<in> insert r D \<union> E. blocked ?h ?v c"
        using br t1(4,6) t'(4) m2 by auto
      ultimately show ?thesis
        using step t' status_only_trans[OF so t'(2)] t1(4) m2 status_only_more(5)[OF so]
        by (intro exI[of _ q] exI[of _ t'] exI[of _ "insert r D \<union> E"]) (auto split: option.splits)
    qed
  qed
qed


text \<open>A small tree for concrete instances: a first block, and a header on top of it.\<close>

definition demo_GetHash :: "CBlockHeader \<Rightarrow> bytes" where
  "demo_GetHash block = (ucast (hdr_nNonce block) OR 128) # replicate 31 0"

definition demo_genesis :: CBlockHeader where
  "demo_genesis = null_header\<lparr>hdr_nTime := main_genesis_time, hdr_nBits := 0x2000ffff, hdr_nNonce := 1\<rparr>"

definition demo_child :: CBlockHeader where
  "demo_child = null_header\<lparr>hdr_nVersion := 0x30000000, hdr_hashPrevBlock := demo_GetHash demo_genesis,
     hdr_nTime := main_genesis_time + 60, hdr_nBits := 0x2000ffff, hdr_nNonce := 2\<rparr>"

definition demo_env :: node_env where
  "demo_env = \<lparr>env_GetHash = demo_GetHash, env_GetHashFull = (\<lambda>b. (demo_GetHash b, uint256_null)),
     env_time = uint main_genesis_time, env_adjusted_time = uint main_genesis_time, env_node_count = Some 8,
     env_maxreorg = 60, env_minreorgpeers = 4, env_minreorgage = 43200, env_fCheckpointsEnabled = True,
     env_checkpoints = [], env_assets_deployed = True, env_params = CMainParams\<rparr>"

definition demo_entry :: CBlockIndex where
  "demo_entry = (CBlockIndex_of_header demo_genesis)\<lparr>phashBlock := demo_GetHash demo_genesis,
     nTimeMax := main_genesis_time, nChainWork := [256, 0, 0, 0, 0, 0, 0, 0], nStatus := 2\<rparr>"

definition demo_tree :: block_tree where
  "demo_tree = \<lparr>bt_mem = (\<lambda>p. demo_entry), bt_next = 1, mapBlockIndex = [demo_GetHash demo_genesis \<mapsto> 0], pindexBestHeader = Some 0,
     pindexBestInvalid = None, setDirtyBlockIndex = {}, setBlockIndexCandidates = [], mapBlocksUnlinked = [],
     g_failed_blocks = {}, nBlockSequenceId = 1, chainActive = [Some 0]\<rparr>"

lemma demo_proof: "GetBlockProof demo_entry = Inr [256, 0, 0, 0, 0, 0, 0, 0]"
  by code_simp

lemma demo_facts:
  "\<not> blob_IsNull (hdr_hashPrevBlock demo_child)" "demo_GetHash demo_child \<noteq> demo_GetHash demo_genesis"
  "hdr_hashPrevBlock demo_child = demo_GetHash demo_genesis" "nStatus demo_entry AND BLOCK_FAILED_MASK = 0"
  "IsValid demo_entry BLOCK_VALID_SCRIPTS = Inr False"
  by code_simp+

lemma demo_act: "nKAAAWWWPOWActivationTime CMainParams = 1710119893"
  by (simp add: CMainParams_def)

lemma demo_pow: "CheckProofOfWork (demo_GetHash demo_child) (hdr_nBits demo_child) main_consensus"
  unfolding CheckProofOfWork_def main_powLimit by code_simp

lemma demo_limit: "GetCompact (UintToArith256 (powLimit main_consensus)) False = Inr 0x2000ffff"
  unfolding main_powLimit by code_simp

lemma demo_kaw: "CheckKAWPOWHeaderHeight (nKAAAWWWPOWActivationTime CMainParams) demo_child 1 main_consensus = None"
  by (simp add: CheckKAWPOWHeaderHeight_def demo_act demo_child_def main_genesis_time_def null_header_def)

lemma demo_cbh: 
  "CheckBlockHeader (nKAAAWWWPOWActivationTime CMainParams) demo_GetHash (\<lambda>b. (demo_GetHash b, uint256_null)) None
     demo_child main_consensus True (Some 0) = None"
  using demo_pow demo_kaw
  by (simp add: CheckBlockHeader_def Let_def demo_act demo_child_def main_genesis_time_def null_header_def)
lemma demo_median: "GetMedianTimePast (bt_mem demo_tree) 0 < hdr_GetBlockTime demo_child"
  by code_simp
lemma demo_ctx:
  "ContextualCheckBlockHeader demo_env demo_child demo_tree 0 = Some (Inr None)"
proof -
  have work: "GetNextWorkRequired CMainParams (bt_mem demo_tree) 0 demo_child main_consensus = Some (Inr (hdr_nBits demo_child))"
    using demo_limit by (simp add: GetNextWorkRequired_def IsDGWActive_def main_params DarkGravityWave_def Let_def demo_tree_def
       demo_entry_def CBlockIndex_of_header_def demo_genesis_def null_header_def nPastBlocks_def demo_child_def)
  have time: "hdr_GetBlockTime demo_child \<le> env_adjusted_time demo_env + MAX_FUTURE_BLOCK_TIME_DGW"
    "env_maxreorg demo_env = 60" "chain_Height (chainActive demo_tree) = 0" "last_checkpoint demo_env demo_tree = None"
    "\<not> sint (hdr_nVersion demo_child) < sint VERSIONBITS_TOP_BITS_ASSETS" "nHeight (bt_mem demo_tree 0) = 0"
    subgoal by (simp add: demo_env_def demo_child_def hdr_GetBlockTime_def main_genesis_time_def MAX_FUTURE_BLOCK_TIME_DGW_def MAX_FUTURE_BLOCK_TIME_def)
    subgoal by (simp add: demo_env_def)
    subgoal by (simp add: demo_tree_def chain_Height_def)
    subgoal by (simp add: demo_env_def last_checkpoint_def)
    subgoal by code_simp
    subgoal by (simp add: demo_tree_def demo_entry_def CBlockIndex_of_header_def demo_genesis_def null_header_def)
    done
  then show ?thesis
    using work demo_kaw demo_median time
    by (simp add: ContextualCheckBlockHeader_def Let_def main_params IsDGWActive_def demo_env_def)
qed

lemma demo_env_main: "main_env demo_env"
  by (simp add: main_env_def demo_env_def)

lemma demo_entry_simps:
  "pprev demo_entry = None" "pskip demo_entry = None" "nHeight demo_entry = 0"
  "phashBlock demo_entry = demo_GetHash demo_genesis" "nTime demo_entry = main_genesis_time"
  "nTimeMax demo_entry = main_genesis_time" "nChainWork demo_entry = [256, 0, 0, 0, 0, 0, 0, 0]"
  by (simp_all add: demo_entry_def CBlockIndex_of_header_def demo_genesis_def null_header_def null_index_def)

lemma demo_tree_ok:
  "tree_inv demo_tree" "failed_ok demo_tree"
  "wf_chain (bt_mem demo_tree) (ran (mapBlockIndex demo_tree)) (chainActive demo_tree)"
proof -
  have r: "ran (mapBlockIndex demo_tree) = {0}"
    by (simp add: demo_tree_def)
  have "entry_ok (bt_mem demo_tree) 0"
    using demo_proof by (simp add: entry_ok_def demo_tree_def demo_entry_simps wf_uint_def WIDTH_def)
  then show "tree_inv demo_tree"
    using r by (simp add: tree_inv_def wf_tree_def wf_entry_def)
      (auto simp: demo_tree_def demo_entry_simps split: if_splits)
  show "failed_ok demo_tree"
    by (simp add: failed_ok_def demo_tree_def)
  have "path_to (bt_mem demo_tree) 0 = chainActive demo_tree"
    by (simp add: path_to_def demo_tree_def demo_entry_simps)
  then show "wf_chain (bt_mem demo_tree) (ran (mapBlockIndex demo_tree)) (chainActive demo_tree)"
    by (simp add: wf_chain_def r)
qed

lemma demo_maps:
  "mapBlockIndex demo_tree (hdr_hashPrevBlock demo_child) = Some 0"
  "mapBlockIndex demo_tree (demo_GetHash demo_child) = None"
  using demo_facts(2,3) by (simp_all add: demo_tree_def)

lemma demo_accepted: "\<exists>t'. AcceptBlockHeader demo_env demo_child demo_tree = Some (Inr (Inr 1, t'))"
proof -
  obtain b where b: "AddToBlockIndex demo_GetHash demo_child demo_tree =
      Inr (bt_next demo_tree, with_entry demo_tree (demo_GetHash demo_child) b)"
    using AddToBlockIndex_child[where GetHash = demo_GetHash, OF demo_tree_ok(1) demo_maps(2,1)] by metis
  have e: "env_params demo_env = CMainParams" "env_GetHash demo_env = demo_GetHash"
      "env_GetHashFull demo_env = (\<lambda>b. (demo_GetHash b, uint256_null))" "last_checkpoint demo_env demo_tree = None"
    by (simp_all add: demo_env_def last_checkpoint_def)
  have t: "bt_mem demo_tree 0 = demo_entry" "g_failed_blocks demo_tree = {}" "bt_next demo_tree = 1"
    by (simp_all add: demo_tree_def)
  show ?thesis
    using demo_facts demo_maps demo_kaw demo_cbh demo_ctx b
    by (simp add: AcceptBlockHeader_def accept_known_or_add_def Let_def e t main_params demo_entry_simps)
qed

theorem AddToBlockIndex_inv_witness:
  "\<exists>p t'. AddToBlockIndex demo_GetHash demo_child demo_tree = Inr (p, t') \<and> tree_inv t' \<and>
    mapBlockIndex t' (demo_GetHash demo_child) = Some p"
  using AddToBlockIndex_inv[where GetHash = demo_GetHash and block = demo_child, OF demo_tree_ok(1)] demo_maps demo_facts(2,3)
  by auto

theorem AcceptBlockHeader_sound_witness:
  "\<exists>t'. AcceptBlockHeader demo_env demo_child demo_tree = Some (Inr (Inr 1, t')) \<and> tree_inv t' \<and>
    header_checked demo_env demo_child demo_tree 0"
  using AcceptBlockHeader_sound[OF demo_env_main demo_tree_ok demo_facts(1)] demo_accepted demo_maps(1) by auto

theorem null_prev_header_unchecked_witness:
  "\<exists>p t'. AcceptBlockHeader demo_env (null_header\<lparr>hdr_nHeight := 7\<rparr>) demo_tree = Some (Inr (Inr p, t')) \<and>
    GetAncestor (bt_mem t') p 0 = Inl AssertFail"
proof -
  let ?b = "null_header\<lparr>hdr_nHeight := 7\<rparr>"
  have e: "env_GetHash demo_env = demo_GetHash" "mapBlockIndex demo_tree = [demo_GetHash demo_genesis \<mapsto> 0]"
    by (simp_all add: demo_env_def demo_tree_def)
  have "blob_IsNull (hdr_hashPrevBlock ?b)" "demo_GetHash ?b \<noteq> demo_GetHash demo_genesis"
    "hdr_hashPrevBlock ?b \<noteq> demo_GetHash demo_genesis" "demo_GetHash ?b \<noteq> hdr_hashPrevBlock ?b" "hdr_nHeight ?b \<noteq> 0"
    by code_simp+
  then show ?thesis
    using null_prev_header_unchecked[OF demo_tree_ok(1), of ?b demo_env] by (auto simp: e)
qed


text \<open>
  C21. The choice of the most-work chain: on a sound block tree whose candidates have all their
  transactions, \<^verbatim>\<open>FindMostWorkChain\<close> returns, whatever failed blocks and missing data the candidates run
  into. It drops only candidates that meet a failed block or missing data before the active chain, it
  changes nothing but status bits of the entries, and the block it returns is usable and ahead of every
  other candidate left in the order of work, arrival and address. It returns null exactly when no
  candidate is left.
\<close>

theorem FindMostWorkChain_best:
  assumes "tree_inv t" "set (setBlockIndexCandidates t) \<subseteq> ran (mapBlockIndex t)"
    and "\<forall>c \<in> set (setBlockIndexCandidates t). linked (bt_mem t) c"
  shows "\<exists>r t'. FindMostWorkChain t = Some (Inr (r, t')) \<and> status_only t t' \<and>
    set (setBlockIndexCandidates t') \<subseteq> set (setBlockIndexCandidates t) \<and>
    (\<forall>c \<in> set (setBlockIndexCandidates t) - set (setBlockIndexCandidates t'). blocked (bt_mem t) (chainActive t) c) \<and>
    (case r of None \<Rightarrow> setBlockIndexCandidates t' = []
     | Some p \<Rightarrow> p \<in> set (setBlockIndexCandidates t') \<and> \<not> blocked (bt_mem t) (chainActive t) p \<and>
         (\<forall>c \<in> set (setBlockIndexCandidates t'). c \<noteq> p \<longrightarrow> CBlockIndexWorkComparator (bt_mem t) c p))"
proof -
  obtain r t' D where t': "FindMostWorkChain t = Some (Inr (r, t'))" "status_only t t'"
    "setBlockIndexCandidates t' = filter (\<lambda>c. c \<notin> D) (setBlockIndexCandidates t)"
    "\<forall>c \<in> D. blocked (bt_mem t) (chainActive t) c"
    "case r of None \<Rightarrow> setBlockIndexCandidates t' = []
     | Some p \<Rightarrow> p \<in> set (setBlockIndexCandidates t') \<and> \<not> blocked (bt_mem t) (chainActive t) p \<and>
         (\<forall>c \<in> set (setBlockIndexCandidates t'). c \<noteq> p \<longrightarrow> CBlockIndexWorkComparator (bt_mem t) c p)"
    using FindMostWorkChain_value[OF assms] by blast
  have "set (setBlockIndexCandidates t') \<subseteq> set (setBlockIndexCandidates t)"
    "\<forall>c \<in> set (setBlockIndexCandidates t) - set (setBlockIndexCandidates t'). blocked (bt_mem t) (chainActive t) c"
    using t'(3,4) by auto
  then show ?thesis
    using t'(1,2,5) by blast
qed

lemma tree_inv_candidates [simp]: "tree_inv (t\<lparr>setBlockIndexCandidates := cs\<rparr>) \<longleftrightarrow> tree_inv t"
  by (simp add: tree_inv_def cong: option.case_cong)

lemma demo_steps_back: "steps_back (bt_mem demo_tree) k 0 = (if k = 0 then Some 0 else None)"
  by (cases k) (simp_all add: demo_tree_def demo_entry_simps)

theorem FindMostWorkChain_best_witness:
  "\<exists>t'. FindMostWorkChain (demo_tree\<lparr>setBlockIndexCandidates := [0]\<rparr>) = Some (Inr (Some 0, t')) \<and>
     status_only (demo_tree\<lparr>setBlockIndexCandidates := [0]\<rparr>) t'"
proof -
  have s: "setBlockIndexCandidates (demo_tree\<lparr>setBlockIndexCandidates := [0]\<rparr>) = [0]"
    "mapBlockIndex (demo_tree\<lparr>setBlockIndexCandidates := [0]\<rparr>) = mapBlockIndex demo_tree"
    "bt_mem (demo_tree\<lparr>setBlockIndexCandidates := [0]\<rparr>) = bt_mem demo_tree"
    "chainActive (demo_tree\<lparr>setBlockIndexCandidates := [0]\<rparr>) = [Some 0]" "0 \<in> ran (mapBlockIndex demo_tree)"
    by (simp_all add: demo_tree_def)
  have l: "linked (bt_mem demo_tree) 0"
    using demo_steps_back by (auto simp: linked_def demo_tree_def demo_entry_simps split: if_splits)
  have nb: "\<not> blocked (bt_mem demo_tree) [Some 0] 0"
    by (simp add: blocked_rec[of _ _ 0] chain_Contains_def chain_at_def demo_tree_def demo_entry_simps)
  have inv: "tree_inv (demo_tree\<lparr>setBlockIndexCandidates := [0]\<rparr>)"
    using demo_tree_ok(1) by simp
  obtain r t' where t': "FindMostWorkChain (demo_tree\<lparr>setBlockIndexCandidates := [0]\<rparr>) = Some (Inr (r, t'))"
    "status_only (demo_tree\<lparr>setBlockIndexCandidates := [0]\<rparr>) t'" "set (setBlockIndexCandidates t') \<subseteq> {0}"
    "\<forall>c \<in> {0} - set (setBlockIndexCandidates t'). blocked (bt_mem demo_tree) [Some 0] c"
    "case r of None \<Rightarrow> setBlockIndexCandidates t' = [] | Some p \<Rightarrow> p \<in> set (setBlockIndexCandidates t')"
    using FindMostWorkChain_best[OF inv] l s by (auto split: option.splits)
  have "r = Some 0"
    using t'(3,4,5) nb by (auto split: option.splits)
  then show ?thesis using t'(1,2) by blast
qed

end
