(* ===== verification/BaseCodes.thy ===== *)
theory BaseCodes
  imports Uint256
begin

unbundle bit_operations_syntax

text \<open>
  Base 64 and base 32 of src/src/utilstrencodings.cpp, with their round trips. The six- and five-bit accumulators \<^verbatim>\<open>left\<close> never exceed eight bits, so
  they are kept as bytes; a C string is its list of characters and reads as NUL past its end.
\<close>

section \<open>Base 64\<close>

definition c_at :: "string \<Rightarrow> nat \<Rightarrow> char" where
  "c_at p i = (if i < length p then p ! i else CHR 0x00)"

definition pbase64 :: string where
  "pbase64 = ''ABCDEFGHIJKLMNOPQRSTUVWXYZabcdefghijklmnopqrstuvwxyz0123456789+/''"

definition b64_char :: "u8 \<Rightarrow> char" where
  "b64_char v = pbase64 ! unat v"

text \<open>The loop of \<^verbatim>\<open>EncodeBase64\<close> with its state \<^verbatim>\<open>mode\<close> and \<^verbatim>\<open>left\<close>, and the padding after it.\<close>

fun encode64_loop :: "nat \<Rightarrow> u8 \<Rightarrow> bytes \<Rightarrow> string" where
  "encode64_loop mode left [] =
     (if mode \<noteq> 0 then [b64_char left] @ ''='' @ (if mode = 1 then ''='' else '''') else '''')"
| "encode64_loop mode left (enc # rest) =
     (if mode = 0 then [b64_char (drop_bit 2 enc)] @ encode64_loop 1 (push_bit 4 (enc AND 3)) rest
      else if mode = 1 then [b64_char (left OR drop_bit 4 enc)] @ encode64_loop 2 (push_bit 2 (enc AND 15)) rest
      else [b64_char (left OR drop_bit 6 enc), b64_char (enc AND 63)] @ encode64_loop 0 left rest)"

definition EncodeBase64 :: "bytes \<Rightarrow> string" where
  "EncodeBase64 pch = encode64_loop 0 0 pch"

text \<open>The table \<^verbatim>\<open>decode64_table\<close> by its ranges; \<open>None\<close> is the entry \<open>-1\<close>.\<close>

definition decode64_table :: "char \<Rightarrow> u8 option" where
  "decode64_table c = (let v = char_code c in
     if 65 \<le> v \<and> v \<le> 90 then Some (of_int (v - 65))
     else if 97 \<le> v \<and> v \<le> 122 then Some (of_int (v - 71))
     else if 48 \<le> v \<and> v \<le> 57 then Some (of_int (v + 4))
     else if v = 43 then Some 62 else if v = 47 then Some 63 else None)"

fun decode64_loop :: "nat \<Rightarrow> u8 \<Rightarrow> string \<Rightarrow> bytes \<Rightarrow> nat \<times> u8 \<times> string \<times> bytes" where
  "decode64_loop mode left [] vchRet = (mode, left, [], vchRet)"
| "decode64_loop mode left (c # p) vchRet =
     (case decode64_table c of None \<Rightarrow> (mode, left, c # p, vchRet)
      | Some dec \<Rightarrow>
          if mode = 0 then decode64_loop 1 dec p vchRet
          else if mode = 1 then decode64_loop 2 (dec AND 15) p (vchRet @ [push_bit 2 left OR drop_bit 4 dec])
          else if mode = 2 then decode64_loop 3 (dec AND 3) p (vchRet @ [push_bit 4 left OR drop_bit 2 dec])
          else decode64_loop 0 left p (vchRet @ [push_bit 6 left OR dec]))"

definition DecodeBase64 :: "string \<Rightarrow> bytes \<times> bool" where
  "DecodeBase64 p = (case decode64_loop 0 0 p [] of (mode, left, p, vchRet) \<Rightarrow>
     (vchRet,
      if mode = 0 then False
      else if mode = 1 then True
      else if mode = 2 then left \<noteq> 0 \<or> c_at p 0 \<noteq> CHR ''='' \<or> c_at p 1 \<noteq> CHR ''='' \<or> decode64_table (c_at p 2) \<noteq> None
      else left \<noteq> 0 \<or> c_at p 0 \<noteq> CHR ''='' \<or> decode64_table (c_at p 1) \<noteq> None))"

section \<open>Base 32\<close>

definition pbase32 :: string where
  "pbase32 = ''abcdefghijklmnopqrstuvwxyz234567''"

definition b32_char :: "u8 \<Rightarrow> char" where
  "b32_char v = pbase32 ! unat v"

definition nPadding :: "nat list" where "nPadding = [0, 6, 4, 3, 1]"

fun encode32_loop :: "nat \<Rightarrow> u8 \<Rightarrow> bytes \<Rightarrow> string" where
  "encode32_loop mode left [] =
     (if mode \<noteq> 0 then [b32_char left] @ replicate (nPadding ! mode) CHR ''='' else '''')"
| "encode32_loop mode left (enc # rest) =
     (if mode = 0 then [b32_char (drop_bit 3 enc)] @ encode32_loop 1 (push_bit 2 (enc AND 7)) rest
      else if mode = 1 then [b32_char (left OR drop_bit 6 enc), b32_char (drop_bit 1 enc AND 31)] @
        encode32_loop 2 (push_bit 4 (enc AND 1)) rest
      else if mode = 2 then [b32_char (left OR drop_bit 4 enc)] @ encode32_loop 3 (push_bit 1 (enc AND 15)) rest
      else if mode = 3 then [b32_char (left OR drop_bit 7 enc), b32_char (drop_bit 2 enc AND 31)] @
        encode32_loop 4 (push_bit 3 (enc AND 3)) rest
      else [b32_char (left OR drop_bit 5 enc), b32_char (enc AND 31)] @ encode32_loop 0 left rest)"

definition EncodeBase32 :: "bytes \<Rightarrow> string" where
  "EncodeBase32 pch = encode32_loop 0 0 pch"

definition decode32_table :: "char \<Rightarrow> u8 option" where
  "decode32_table c = (let v = char_code c in
     if 65 \<le> v \<and> v \<le> 90 then Some (of_int (v - 65))
     else if 97 \<le> v \<and> v \<le> 122 then Some (of_int (v - 97))
     else if 50 \<le> v \<and> v \<le> 55 then Some (of_int (v - 24)) else None)"

fun decode32_loop :: "nat \<Rightarrow> u8 \<Rightarrow> string \<Rightarrow> bytes \<Rightarrow> nat \<times> u8 \<times> string \<times> bytes" where
  "decode32_loop mode left [] vchRet = (mode, left, [], vchRet)"
| "decode32_loop mode left (c # p) vchRet =
     (case decode32_table c of None \<Rightarrow> (mode, left, c # p, vchRet)
      | Some dec \<Rightarrow>
          if mode = 0 then decode32_loop 1 dec p vchRet
          else if mode = 1 then decode32_loop 2 (dec AND 3) p (vchRet @ [push_bit 3 left OR drop_bit 2 dec])
          else if mode = 2 then decode32_loop 3 (push_bit 5 left OR dec) p vchRet
          else if mode = 3 then decode32_loop 4 (dec AND 15) p (vchRet @ [push_bit 1 left OR drop_bit 4 dec])
          else if mode = 4 then decode32_loop 5 (dec AND 1) p (vchRet @ [push_bit 4 left OR drop_bit 1 dec])
          else if mode = 5 then decode32_loop 6 (push_bit 5 left OR dec) p vchRet
          else if mode = 6 then decode32_loop 7 (dec AND 7) p (vchRet @ [push_bit 2 left OR drop_bit 3 dec])
          else decode32_loop 0 left p (vchRet @ [push_bit 5 left OR dec]))"

definition padded :: "string \<Rightarrow> nat \<Rightarrow> bool" where
  "padded p n \<longleftrightarrow> (\<forall>i < n. c_at p i = CHR ''='') \<and> decode32_table (c_at p n) = None"

definition DecodeBase32 :: "string \<Rightarrow> bytes \<times> bool" where
  "DecodeBase32 p = (case decode32_loop 0 0 p [] of (mode, left, p, vchRet) \<Rightarrow>
     (vchRet,
      if mode = 0 then False
      else if mode = 1 \<or> mode = 3 \<or> mode = 6 then True
      else if mode = 2 then left \<noteq> 0 \<or> \<not> padded p 6
      else if mode = 4 then left \<noteq> 0 \<or> \<not> padded p 4
      else if mode = 5 then left \<noteq> 0 \<or> \<not> padded p 3
      else left \<noteq> 0 \<or> \<not> padded p 1))"

section \<open>Base 64 round trip\<close>

lemma b64_decode: "unat v < 64 \<Longrightarrow> decode64_table (b64_char v) = Some v"
proof -
  have "\<forall>n < 64. decode64_table (pbase64 ! n) = Some (of_nat n)"
    by code_simp
  then show "unat v < 64 \<Longrightarrow> decode64_table (b64_char v) = Some v"
    by (simp add: b64_char_def)
qed

lemma b32_decode: "unat v < 32 \<Longrightarrow> decode32_table (b32_char v) = Some v"
proof -
  have "\<forall>n < 32. decode32_table (pbase32 ! n) = Some (of_nat n)"
    by code_simp
  then show "unat v < 32 \<Longrightarrow> decode32_table (b32_char v) = Some v"
    by (simp add: b32_char_def)
qed

text \<open>A byte below \<open>2 ^ n\<close> has no bit from \<open>n\<close> on.\<close>

lemma unat_less_bits: "(\<forall>i \<ge> n. \<not> bit (v :: u8) i) \<Longrightarrow> unat v < 2 ^ n"
proof -
  assume a: "\<forall>i \<ge> n. \<not> bit v i"
  have "take_bit n v = v"
    by (rule bit_eqI) (use a in \<open>auto simp: bit_simps not_le[symmetric]\<close>)
  then have "unat v = take_bit n (unat v)"
    by (metis unsigned_take_bit_eq)
  then show "unat v < 2 ^ n"
    by (metis take_bit_nat_less_exp)
qed

lemma mask_bytes:
  "(v AND 1 :: u8) = take_bit 1 v" "(v AND 3 :: u8) = take_bit 2 v" "(v AND 7 :: u8) = take_bit 3 v"
  "(v AND 15 :: u8) = take_bit 4 v" "(v AND 31 :: u8) = take_bit 5 v" "(v AND 63 :: u8) = take_bit 6 v"
  by (simp_all add: take_bit_eq_mask mask_eq_exp_minus_1)

text \<open>Bytes are equal when their eight bits are.\<close>

lemma byte_eqI:
  fixes a b :: u8
  assumes "bit a 0 = bit b 0" "bit a 1 = bit b 1" "bit a 2 = bit b 2" "bit a 3 = bit b 3"
    and "bit a 4 = bit b 4" "bit a 5 = bit b 5" "bit a 6 = bit b 6" "bit a 7 = bit b 7"
  shows "a = b"
proof (rule bit_word_eqI)
  fix n
  assume "n < LENGTH(8)"
  then have "n \<in> {0, 1, 2, 3, 4, 5, 6, 7}"
    by auto
  then show "bit a n = bit b n"
    using assms by auto
qed

lemma bit_byte_high [simp]: "8 \<le> n \<Longrightarrow> \<not> bit (v :: u8) n"
  by (auto dest: bit_imp_le_length)

lemma table_end:
  "decode64_table CHR ''='' = None" "decode64_table CHR 0x00 = None"
  "decode32_table CHR ''='' = None" "decode32_table CHR 0x00 = None"
  by code_simp+

lemma join64:
  fixes x y z :: u8
  shows "push_bit 2 (drop_bit 2 x) OR drop_bit 4 (push_bit 4 (x AND 3) OR drop_bit 4 y) = x"
    and "push_bit 4 ((push_bit 4 (x AND 3) OR drop_bit 4 y) AND 15) OR drop_bit 2 (push_bit 2 (y AND 15) OR drop_bit 6 z) = y"
    and "push_bit 6 ((push_bit 2 (y AND 15) OR drop_bit 6 z) AND 3) OR (z AND 63) = z"
  unfolding mask_bytes by (rule byte_eqI; simp add: bit_simps)+

lemma left64:
  fixes x y :: u8
  shows "push_bit 4 (x AND 3) AND 15 = 0" "push_bit 2 (y AND 15) AND 3 = 0"
    "push_bit 2 (drop_bit 2 x) OR drop_bit 4 (push_bit 4 (x AND 3)) = x"
    "push_bit 4 ((push_bit 4 (x AND 3) OR drop_bit 4 y) AND 15) OR drop_bit 2 (push_bit 2 (y AND 15)) = y"
  unfolding mask_bytes by (rule byte_eqI; simp add: bit_simps)+

lemma small64:
  fixes x y z :: u8
  shows "unat (drop_bit 2 x) < 64" "unat (push_bit 4 (x AND 3) OR drop_bit 4 y) < 64"
    "unat (push_bit 2 (y AND 15) OR drop_bit 6 z) < 64" "unat (z AND 63) < 64"
    "unat (push_bit 4 (x AND 3)) < 64" "unat (push_bit 2 (y AND 15)) < 64"
  using unat_less_bits[of 6] unfolding mask_bytes by (simp_all add: bit_simps)

fun chunks3 :: "bytes \<Rightarrow> bool" where
  "chunks3 (x # y # z # r) = chunks3 r"
| "chunks3 _ = True"

lemma decode64_encode64:
  "\<exists>mode l p. decode64_loop 0 left (encode64_loop 0 left' v) acc = (mode, l, p, acc @ v) \<and>
    (mode = 0 \<or> mode = 2 \<and> l = 0 \<and> p = ''=='' \<or> mode = 3 \<and> l = 0 \<and> p = ''='')"
proof (induction v arbitrary: left left' acc rule: chunks3.induct)
  case (1 x y z r)
  have "decode64_loop 0 left (encode64_loop 0 left' (x # y # z # r)) acc =
      decode64_loop 0 ((push_bit 2 (y AND 15) OR drop_bit 6 z) AND 3)
        (encode64_loop 0 (push_bit 2 (y AND 15)) r) (acc @ [x, y, z])"
    by (simp add: b64_decode small64 join64 left64 del: push_bit_and)
  then show ?case
    using 1[of "(push_bit 2 (y AND 15) OR drop_bit 6 z) AND 3" "push_bit 2 (y AND 15)" "acc @ [x, y, z]"] by simp
qed (simp_all add: b64_decode small64 join64 left64 table_end del: push_bit_and)


lemma b64_roundtrip: "DecodeBase64 (EncodeBase64 v) = (v, False)"
  using decode64_encode64[of 0 0 v "[]"] by (auto simp: DecodeBase64_def EncodeBase64_def c_at_def table_end)

section \<open>Base 32 round trip\<close>

lemma small32:
  fixes a b c d e :: u8
  shows "unat (drop_bit 3 a) < 32" "unat (push_bit 2 (a AND 7) OR drop_bit 6 b) < 32" "unat (drop_bit 1 b AND 31) < 32"
    "unat (push_bit 4 (b AND 1) OR drop_bit 4 c) < 32" "unat (push_bit 1 (c AND 15) OR drop_bit 7 d) < 32"
    "unat (drop_bit 2 d AND 31) < 32" "unat (push_bit 3 (d AND 3) OR drop_bit 5 e) < 32" "unat (e AND 31) < 32"
    "unat (push_bit 2 (a AND 7)) < 32" "unat (push_bit 4 (b AND 1)) < 32" "unat (push_bit 1 (c AND 15)) < 32"
    "unat (push_bit 3 (d AND 3)) < 32"
  using unat_less_bits[of 5] unfolding mask_bytes by (simp_all add: bit_simps del: push_bit_Suc drop_bit_Suc One_nat_def)

text \<open>The bytes the decoder puts together, and the bits left over when the input ends inside a group.\<close>

lemma join32:
  fixes a b c d e :: u8
  shows "push_bit 3 (drop_bit 3 a) OR drop_bit 2 (push_bit 2 (a AND 7) OR drop_bit 6 b) = a"
    "push_bit 1 (push_bit 5 ((push_bit 2 (a AND 7) OR drop_bit 6 b) AND 3) OR (drop_bit 1 b AND 31)) OR
       drop_bit 4 (push_bit 4 (b AND 1) OR drop_bit 4 c) = b"
    "push_bit 4 ((push_bit 4 (b AND 1) OR drop_bit 4 c) AND 15) OR drop_bit 1 (push_bit 1 (c AND 15) OR drop_bit 7 d) = c"
    "push_bit 2 (push_bit 5 ((push_bit 1 (c AND 15) OR drop_bit 7 d) AND 1) OR (drop_bit 2 d AND 31)) OR
       drop_bit 3 (push_bit 3 (d AND 3) OR drop_bit 5 e) = d"
    "push_bit 5 ((push_bit 3 (d AND 3) OR drop_bit 5 e) AND 7) OR (e AND 31) = e"
  unfolding mask_bytes by (rule byte_eqI; (simp add: bit_simps del: push_bit_Suc drop_bit_Suc)?; (simp add: bit_0 bit_iff_odd_drop_bit[of _ 7] numeral_2_eq_2 numeral_3_eq_3)?)+

lemma left32:
  fixes a b c d :: u8
  shows "push_bit 3 (drop_bit 3 a) OR drop_bit 2 (push_bit 2 (a AND 7)) = a" "push_bit 2 (a AND 7) AND 3 = 0"
    "push_bit 1 (push_bit 5 ((push_bit 2 (a AND 7) OR drop_bit 6 b) AND 3) OR (drop_bit 1 b AND 31)) OR
       drop_bit 4 (push_bit 4 (b AND 1)) = b" "push_bit 4 (b AND 1) AND 15 = 0"
    "push_bit 4 ((push_bit 4 (b AND 1) OR drop_bit 4 c) AND 15) OR drop_bit 1 (push_bit 1 (c AND 15)) = c"
    "push_bit 1 (c AND 15) AND 1 = 0"
    "push_bit 2 (push_bit 5 ((push_bit 1 (c AND 15) OR drop_bit 7 d) AND 1) OR (drop_bit 2 d AND 31)) OR
       drop_bit 3 (push_bit 3 (d AND 3)) = d" "push_bit 3 (d AND 3) AND 7 = 0"
  unfolding mask_bytes by (rule byte_eqI; (simp add: bit_simps del: push_bit_Suc drop_bit_Suc)?; (simp add: bit_0 bit_iff_odd_drop_bit[of _ 7] numeral_2_eq_2 numeral_3_eq_3)?)+

fun chunks5 :: "bytes \<Rightarrow> bool" where
  "chunks5 (a # b # c # d # e # r) = chunks5 r"
| "chunks5 _ = True"

lemma pad32:
  "replicate (nPadding ! 1) CHR ''='' = ''======''" "replicate (nPadding ! 2) CHR ''='' = ''====''"
  "replicate (nPadding ! 3) CHR ''='' = ''===''" "replicate (nPadding ! 4) CHR ''='' = ''=''"
  by code_simp+

lemma decode32_encode32:
  "\<exists>mode l p. decode32_loop 0 left (encode32_loop 0 left' v) acc = (mode, l, p, acc @ v) \<and>
    (mode = 0 \<or> l = 0 \<and> (mode = 2 \<and> p = ''======'' \<or> mode = 4 \<and> p = ''===='' \<or> mode = 5 \<and> p = ''==='' \<or>
      mode = 7 \<and> p = ''=''))"
proof (induction v arbitrary: left left' acc rule: chunks5.induct)
  case (1 a b c d e r)
  let ?l = "(push_bit 3 (d AND 3) OR drop_bit 5 e) AND 7" and ?l' = "push_bit 3 (d AND 3)"
  have "decode32_loop 0 left (encode32_loop 0 left' (a # b # c # d # e # r)) acc =
      decode32_loop 0 ?l (encode32_loop 0 ?l' r) (acc @ [a, b, c, d, e])"
    by (simp add: b32_decode small32 join32 left32 del: push_bit_and push_bit_or push_bit_push_bit push_bit_Suc drop_bit_Suc One_nat_def)
  then show ?case
    using 1[of ?l ?l' "acc @ [a, b, c, d, e]"] by simp
qed (simp_all add: b32_decode small32 join32 left32 table_end pad32
      del: push_bit_and push_bit_or push_bit_push_bit push_bit_Suc drop_bit_Suc One_nat_def)


lemma padded_ends:
  "padded ''======'' 6" "padded ''===='' 4" "padded ''==='' 3" "padded ''='' 1"
  by code_simp+

lemma b32_roundtrip: "DecodeBase32 (EncodeBase32 v) = (v, False)"
  using decode32_encode32[of 0 0 v "[]"] padded_ends by (auto simp: DecodeBase32_def EncodeBase32_def)

text \<open>
  C37. Base 64 and base 32: for every list of bytes the decoder reads back what the encoder prints and does
  not report an invalid encoding, whatever the length of the last group.
\<close>

theorem base64_base32_roundtrip:
  "DecodeBase64 (EncodeBase64 v) = (v, False) \<and> DecodeBase32 (EncodeBase32 v) = (v, False)"
  using b64_roundtrip b32_roundtrip by simp

end
