(* ===== verification/NumberText.thy ===== *)
theory NumberText
  imports BaseCodes Params Complex_Main
begin

unbundle bit_operations_syntax

text \<open>
  Numbers and amounts as text: decimal printing, the strict integer parsers, the split of host and port
  and fixed point numbers of src/src/utilstrencodings.cpp, the amounts of utilmoneystr.cpp, core_write.cpp
  and rpc/server.cpp, and the timing-resistant comparison. The parsers are proved to read back what the
  printers write.
\<close>

section \<open>Decimal numerals\<close>

definition digit_char :: "int \<Rightarrow> char" where
  "digit_char d = char_of (48 + d)"

text \<open>What \<^verbatim>\<open>strprintf("%d", n)\<close> prints.\<close>

function dec_str :: "int \<Rightarrow> string" where
  "dec_str n = (if n < 10 then [digit_char n] else dec_str (n div 10) @ [digit_char (n mod 10)])"
  by pat_completeness auto
termination
  by (relation "measure nat") auto

declare dec_str.simps [simp del]

definition i64tostr :: "int \<Rightarrow> string" where
  "i64tostr n = (if n < 0 then CHR ''-'' # dec_str (- n) else dec_str n)"

definition digits_val :: "string \<Rightarrow> int" where
  "digits_val ds = foldl (\<lambda>a c. a * 10 + (char_code c - 48)) 0 ds"

text \<open>
  The C library functions \<^verbatim>\<open>strtoll\<close> and \<^verbatim>\<open>strtoull\<close> in base 10: the value, the rest of the text and
  whether \<^verbatim>\<open>errno\<close> is set. Without digits nothing is consumed.
\<close>

definition strto_sign :: "string \<Rightarrow> bool \<times> string" where
  "strto_sign s = (case s of [] \<Rightarrow> (False, s)
     | c # r \<Rightarrow> if c = CHR ''-'' then (True, r) else if c = CHR ''+'' then (False, r) else (False, s))"

definition strtoll :: "string \<Rightarrow> int \<times> string \<times> bool" where
  "strtoll s = (case strto_sign (dropWhile isspace s) of (neg, t) \<Rightarrow>
     let ds = takeWhile isdigit t; n = (if neg then - digits_val ds else digits_val ds) in
     if ds = [] then (0, s, False)
     else if n > int64_max then (int64_max, dropWhile isdigit t, True)
     else if n < int64_min then (int64_min, dropWhile isdigit t, True)
     else (n, dropWhile isdigit t, False))"

definition strtoull :: "string \<Rightarrow> int \<times> string \<times> bool" where
  "strtoull s = (case strto_sign (dropWhile isspace s) of (neg, t) \<Rightarrow>
     let ds = takeWhile isdigit t; n = digits_val ds in
     if ds = [] then (0, s, False)
     else if n \<ge> 2 ^ 64 then (2 ^ 64 - 1, dropWhile isdigit t, True)
     else ((if neg then (- n) mod 2 ^ 64 else n), dropWhile isdigit t, False))"

definition ParsePrechecks :: "string \<Rightarrow> bool" where
  "ParsePrechecks str =
     (if str = [] then False
      else if length str \<ge> 1 \<and> (isspace (str ! 0) \<or> isspace (str ! (length str - 1))) then False
      else if CHR 0x00 \<in> set str then False
      else True)"

text \<open>
  The parsers return whether they succeed and the value they write to \<^verbatim>\<open>*out\<close>, which they do once the
  prechecks pass; the cast to 32 bits keeps the low bits. \<^verbatim>\<open>long\<close> has 64 bits, as on the 64-bit
  platforms the comments of the source name.
\<close>

definition ParseInt32 :: "string \<Rightarrow> bool \<times> int option" where
  "ParseInt32 str =
     (if \<not> ParsePrechecks str then (False, None)
      else case strtoll str of (n, endp, err) \<Rightarrow>
        (endp = [] \<and> \<not> err \<and> n \<ge> - (2 ^ 31) \<and> n \<le> 2 ^ 31 - 1, Some (sint (word_of_int n :: u32))))"

definition ParseInt64 :: "string \<Rightarrow> bool \<times> int option" where
  "ParseInt64 str =
     (if \<not> ParsePrechecks str then (False, None)
      else case strtoll str of (n, endp, err) \<Rightarrow>
        (endp = [] \<and> \<not> err \<and> n \<ge> int64_min \<and> n \<le> int64_max, Some n))"

definition ParseUInt32 :: "string \<Rightarrow> bool \<times> int option" where
  "ParseUInt32 str =
     (if \<not> ParsePrechecks str then (False, None)
      else if length str \<ge> 1 \<and> str ! 0 = CHR ''-'' then (False, None)
      else case strtoull str of (n, endp, err) \<Rightarrow>
        (endp = [] \<and> \<not> err \<and> n \<le> 2 ^ 32 - 1, Some (uint (word_of_int n :: u32))))"

definition ParseUInt64 :: "string \<Rightarrow> bool \<times> int option" where
  "ParseUInt64 str =
     (if \<not> ParsePrechecks str then (False, None)
      else if length str \<ge> 1 \<and> str ! 0 = CHR ''-'' then (False, None)
      else case strtoull str of (n, endp, err) \<Rightarrow> (endp = [] \<and> \<not> err \<and> n \<le> 2 ^ 64 - 1, Some n))"

definition atoi64 :: "string \<Rightarrow> int" where
  "atoi64 psz = fst (strtoll (takeWhile (\<lambda>c. c \<noteq> CHR 0x00) psz))"

text \<open>\<^verbatim>\<open>SplitHostPort\<close>: the port is written only when it is valid, so the result holds it as an option.\<close>

definition find_last_of :: "char \<Rightarrow> string \<Rightarrow> nat option" where
  "find_last_of c s = (case filter (\<lambda>i. s ! i = c) [0..<length s] of [] \<Rightarrow> None | is \<Rightarrow> Some (last is))"

definition SplitHostPort :: "string \<Rightarrow> int option \<times> string" where
  "SplitHostPort s =
     (let (port, s) = (case find_last_of CHR '':'' s of None \<Rightarrow> (None, s)
        | Some colon \<Rightarrow>
            let fBracketed = (c_at s 0 = CHR ''['' \<and> c_at s (colon - 1) = CHR '']'');
                fMultiColon = (if colon = 0 then True else find_last_of CHR '':'' (take colon s) \<noteq> None)
            in if colon = 0 \<or> fBracketed \<or> \<not> fMultiColon then
                 (case ParseInt32 (drop (colon + 1) s) of
                    (True, Some n) \<Rightarrow> if n > 0 \<and> n < 0x10000 then (Some n, take colon s) else (None, s)
                  | _ \<Rightarrow> (None, s))
               else (None, s))
      in (port, if length s > 0 \<and> s ! 0 = CHR ''['' \<and> s ! (length s - 1) = CHR '']''
                then take (length s - 2) (drop 1 s) else s))"

text \<open>
  \<^verbatim>\<open>TimingResistantEqual\<close> on bytes: the lengths and the bytes are combined by exclusive or, the second
  text read cyclically.
\<close>

definition TimingResistantEqual :: "bytes \<Rightarrow> bytes \<Rightarrow> bool" where
  "TimingResistantEqual a b =
     (if length b = 0 then length a = 0
      else fold (\<lambda>i acc. acc OR ucast (a ! i XOR b ! (i mod length b))) [0..<length a]
             (of_nat (length a) XOR of_nat (length b)) = (0 :: u64))"

section \<open>Fixed point numbers\<close>

definition UPPER_BOUND :: int where "UPPER_BOUND = 1000000000000000000 - 1"

text \<open>The inner loop of \<^verbatim>\<open>ProcessMantissaDigit\<close>: \<open>n\<close> multiplications by ten, or overflow.\<close>

fun times_ten :: "nat \<Rightarrow> int \<Rightarrow> int option" where
  "times_ten 0 m = Some m"
| "times_ten (Suc n) m = (if m > c_div UPPER_BOUND 10 then None else times_ten n (m * 10))"

definition ProcessMantissaDigit :: "char \<Rightarrow> int \<times> nat \<Rightarrow> (int \<times> nat) option" where
  "ProcessMantissaDigit ch st = (case st of (mantissa, mantissa_tzeros) \<Rightarrow>
     if ch = CHR ''0'' then Some (mantissa, mantissa_tzeros + 1)
     else map_option (\<lambda>m. (m + (char_code ch - 48), 0)) (times_ten (mantissa_tzeros + 1) mantissa))"

text \<open>A run of digits: the rest of the text, the mantissa and how many digits were read.\<close>

fun mantissa_loop :: "string \<Rightarrow> int \<times> nat \<Rightarrow> nat \<Rightarrow> (string \<times> (int \<times> nat) \<times> nat) option" where
  "mantissa_loop [] st n = Some ([], st, n)"
| "mantissa_loop (c # r) st n =
     (if isdigit c then (case ProcessMantissaDigit c st of None \<Rightarrow> None | Some st \<Rightarrow> mantissa_loop r st (n + 1))
      else Some (c # r, st, n))"

fun exponent_loop :: "string \<Rightarrow> int \<Rightarrow> (string \<times> int) option" where
  "exponent_loop [] e = Some ([], e)"
| "exponent_loop (c # r) e =
     (if isdigit c then if e > c_div UPPER_BOUND 10 then None else exponent_loop r (e * 10 + (char_code c - 48))
      else Some (c # r, e))"

definition starts_digit :: "string \<Rightarrow> bool" where
  "starts_digit s = (case s of [] \<Rightarrow> False | c # r \<Rightarrow> isdigit c)"

definition parse_integer :: "string \<Rightarrow> (string \<times> int \<times> nat) option" where
  "parse_integer s = (case s of [] \<Rightarrow> None
     | c # r \<Rightarrow> if c = CHR ''0'' then Some (r, 0, 0)
         else if isdigit c then map_option (\<lambda>(r, st, n). (r, st)) (mantissa_loop s (0, 0) 0)
         else None)"

definition parse_fraction :: "string \<times> int \<times> nat \<Rightarrow> (string \<times> (int \<times> nat) \<times> nat) option" where
  "parse_fraction p = (case p of (s, st) \<Rightarrow>
     (case s of c # r \<Rightarrow> if c = CHR ''.'' then if starts_digit r then mantissa_loop r st 0 else None
                         else Some (s, st, 0)
      | [] \<Rightarrow> Some (s, st, 0)))"

definition parse_exponent :: "string \<Rightarrow> (string \<times> int) option" where
  "parse_exponent s = (case s of [] \<Rightarrow> Some (s, 0)
     | c # r \<Rightarrow> if c = CHR ''e'' \<or> c = CHR ''E'' then
         (let (neg, r) = strto_sign r in
          if starts_digit r then map_option (\<lambda>(r, e). (r, if neg then - e else e)) (exponent_loop r 0) else None)
       else Some (s, 0))"

fun scale_loop :: "nat \<Rightarrow> int \<Rightarrow> int option" where
  "scale_loop 0 m = Some m"
| "scale_loop (Suc n) m =
     (if m > 420000000000000000 \<or> m < - c_div UPPER_BOUND 10 then None else scale_loop n (m * 10))"

definition ParseFixedPoint :: "string \<Rightarrow> int \<Rightarrow> int option" where
  "ParseFixedPoint val decimals =
     (let (mantissa_sign, s) = (case val of c # r \<Rightarrow> if c = CHR ''-'' then (True, r) else (False, val)
                                | [] \<Rightarrow> (False, val))
      in case parse_integer s of None \<Rightarrow> None
      | Some p \<Rightarrow> (case parse_fraction p of None \<Rightarrow> None
      | Some (s, (mantissa, mantissa_tzeros), point_ofs) \<Rightarrow> (case parse_exponent s of None \<Rightarrow> None
      | Some (s, exponent) \<Rightarrow>
          if s \<noteq> [] then None
          else let exponent = exponent - int point_ofs + int mantissa_tzeros;
                   mantissa = (if mantissa_sign then - mantissa else mantissa);
                   exponent = exponent + decimals
               in if exponent < 0 then None else if exponent \<ge> 18 then None
                  else (case scale_loop (nat exponent) mantissa of None \<Rightarrow> None
                        | Some m \<Rightarrow> if m > 4200000000000000000 \<or> m < - UPPER_BOUND then None else Some m))))"

section \<open>Amounts as text\<close>

fun trim_count :: "string \<Rightarrow> nat" where
  "trim_count (a # b # c # r) = (if a = CHR ''0'' \<and> isdigit c then Suc (trim_count (b # c # r)) else 0)"
| "trim_count _ = 0"

definition pad_to :: "nat \<Rightarrow> int \<Rightarrow> string" where
  "pad_to w n = replicate (w - length (dec_str n)) CHR ''0'' @ dec_str n"

definition FormatMoney :: "int \<Rightarrow> string" where
  "FormatMoney n =
     (let n_abs = (if n > 0 then n else - n);
          str = i64tostr (c_div n_abs COIN) @ ''.'' @ pad_to 8 (c_mod n_abs COIN);
          nTrim = trim_count (rev str);
          str = take (length str - nTrim) str
      in if n < 0 then CHR ''-'' # str else str)"

text \<open>
  \<^verbatim>\<open>ParseMoney\<close>: the digits before the point are gathered, up to eight digits after it are weighed; what
  follows must be spaces.
\<close>

fun money_fraction :: "string \<Rightarrow> int \<Rightarrow> int \<Rightarrow> string \<times> int" where
  "money_fraction [] nMult nUnits = ([], nUnits)"
| "money_fraction (c # p) nMult nUnits =
     (if isdigit c \<and> nMult > 0 then money_fraction p (c_div nMult 10) (nUnits + nMult * (char_code c - 48))
      else (c # p, nUnits))"

fun money_whole :: "string \<Rightarrow> string \<Rightarrow> (string \<times> string \<times> int) option" where
  "money_whole [] strWhole = Some ([], strWhole, 0)"
| "money_whole (c # p) strWhole =
     (if c = CHR ''.'' then (case money_fraction p (CENT * 10) 0 of (p, nUnits) \<Rightarrow> Some (p, strWhole, nUnits))
      else if isspace c then Some (c # p, strWhole, 0)
      else if \<not> isdigit c then None
      else money_whole p (strWhole @ [c]))"

definition ParseMoney :: "string \<Rightarrow> int option" where
  "ParseMoney pszIn =
     (case money_whole (dropWhile isspace pszIn) [] of None \<Rightarrow> None
      | Some (p, strWhole, nUnits) \<Rightarrow>
          if \<not> list_all isspace p then None
          else if length strWhole > 10 then None
          else if nUnits < 0 \<or> nUnits > COIN then None
          else Some (atoi64 strWhole * COIN + nUnits))"

text \<open>
  Amounts in JSON (src/src/core_write.cpp, rpc/server.cpp); the quotient by \<^verbatim>\<open>pow(10, 8 - units)\<close> of a
  remainder below \<open>10 ^ 8\<close> truncates to the integer quotient.
\<close>

definition ValueFromAmountString :: "int \<Rightarrow> nat \<Rightarrow> string" where
  "ValueFromAmountString amount units =
     (let sign = (amount < 0);
          n_abs = (if sign then - amount else amount);
          quotient = c_div n_abs COIN;
          remainder = c_div (c_mod n_abs COIN) (10 ^ (8 - units))
      in if units = 0 \<and> remainder = 0
         then (if sign then ''-'' else []) @ i64tostr quotient
         else (if sign then ''-'' else []) @ i64tostr quotient @ ''.'' @ pad_to units remainder)"

text \<open>
  \<^verbatim>\<open>AmountFromValue\<close> on the text of a JSON number or string; it throws a type error for other values.
  Callers leave \<^verbatim>\<open>p_iscmusicai\<close> at its default, true, except to distribute rewards in an asset.
\<close>

definition AmountFromValue :: "string \<Rightarrow> bool \<Rightarrow> int outcome" where
  "AmountFromValue v p_iscmusicai =
     (case ParseFixedPoint v 8 of None \<Rightarrow> Inl (Throw ''Invalid amount (3)'')
      | Some amount \<Rightarrow> if p_iscmusicai \<and> \<not> MoneyRange amount then Inl (Throw ''Amount out of range'')
                        else Inr amount)"

section \<open>Facts on numerals\<close>

lemma digit_char_facts:
  assumes "0 \<le> d" "d < 10"
  shows "isdigit (digit_char d)" "char_code (digit_char d) = 48 + d" "\<not> isspace (digit_char d)"
    "digit_char d \<notin> {CHR ''-'', CHR ''+'', CHR ''.'', CHR 0x00}"
proof -
  have "\<forall>n < (10 :: nat). isdigit (digit_char (int n)) \<and> char_code (digit_char (int n)) = 48 + int n \<and>
      \<not> isspace (digit_char (int n)) \<and> digit_char (int n) \<notin> {CHR ''-'', CHR ''+'', CHR ''.'', CHR 0x00}"
    by code_simp
  moreover have "nat d < 10" "int (nat d) = d"
    using assms by simp_all
  ultimately show "isdigit (digit_char d)" "char_code (digit_char d) = 48 + d" "\<not> isspace (digit_char d)"
    "digit_char d \<notin> {CHR ''-'', CHR ''+'', CHR ''.'', CHR 0x00}"
    by metis+
qed

lemma isdigit_facts:
  assumes "isdigit c"
  shows "\<not> isspace c" "c \<noteq> CHR ''-''" "c \<noteq> CHR ''+''" "c \<noteq> CHR ''.''" "c \<noteq> CHR 0x00"
  using assms by (auto simp: isdigit_def isspace_def char_code_def)

lemma digits_val_append: "digits_val (xs @ ys) = digits_val xs * 10 ^ length ys + digits_val ys"
proof (induction ys rule: rev_induct)
  case Nil
  then show ?case by (simp add: digits_val_def)
next
  case (snoc y ys)
  have e: "digits_val (zs @ [y]) = digits_val zs * 10 + (char_code y - 48)" for zs
    by (simp add: digits_val_def)
  show ?case
    using snoc e[of "xs @ ys"] e[of ys] by (simp add: algebra_simps)
qed

lemma digits_val_simps [simp]: "digits_val [] = 0" "digits_val [c] = char_code c - 48"
  by (simp_all add: digits_val_def)

lemma digits_val_Cons: "digits_val (c # ds) = (char_code c - 48) * 10 ^ length ds + digits_val ds"
  using digits_val_append[of "[c]" ds] by simp

lemma digits_val_zeros [simp]: "digits_val (replicate n CHR ''0'') = 0"
  by (induction n) (simp_all add: digits_val_Cons char_code_def)

lemma digits_val_bounds:
  assumes "\<forall>c \<in> set ds. isdigit c"
  shows "0 \<le> digits_val ds \<and> digits_val ds < 10 ^ length ds"
  using assms
proof (induction ds)
  case (Cons c ds)
  then have IH: "0 \<le> digits_val ds" "digits_val ds < 10 ^ length ds" and c: "0 \<le> char_code c - 48" "char_code c - 48 \<le> 9"
    by (simp_all add: isdigit_def)
  have "(char_code c - 48) * 10 ^ length ds \<le> 9 * 10 ^ length ds"
    using c(2) by (intro mult_right_mono) simp_all
  moreover have "0 \<le> (char_code c - 48) * 10 ^ length ds"
    using c(1) by (intro mult_nonneg_nonneg) simp_all
  moreover have "10 ^ length (c # ds) = 10 * (10 :: int) ^ length ds"
    by simp
  ultimately show ?case
    using IH unfolding digits_val_Cons by linarith
qed simp

lemma dec_str_facts:
  assumes "0 \<le> n"
  shows "(\<forall>c \<in> set (dec_str n). isdigit c) \<and> dec_str n \<noteq> [] \<and> digits_val (dec_str n) = n"
  using assms
proof (induction n rule: dec_str.induct)
  case (1 n)
  show ?case
  proof (cases "n < 10")
    case True
    then show ?thesis
      using 1(2) digit_char_facts[of n] by (simp add: dec_str.simps)
  next
    case False
    have d: "0 \<le> n mod 10" "n mod 10 < 10" by simp_all
    have "n div 10 * 10 + n mod 10 = n" by simp
    then show ?thesis
      using 1 False digit_char_facts[OF d] by (simp add: dec_str.simps[of n] digits_val_append)
  qed
qed

lemma div10_less: "(n :: int) < 10 * x \<Longrightarrow> n div 10 < x"
  by presburger

lemma dec_str_length:
  assumes "0 \<le> n" "n < 10 ^ k" "0 < k"
  shows "length (dec_str n) \<le> k"
  using assms
proof (induction n arbitrary: k rule: dec_str.induct)
  case (1 n)
  show ?case
  proof (cases "n < 10")
    case True
    then show ?thesis using 1(4) by (simp add: dec_str.simps)
  next
    case False
    obtain j where j: "k = Suc j"
      using 1(4) by (cases k) simp_all
    moreover have "j \<noteq> 0"
      using False 1(3) j by (intro notI) simp
    ultimately have k: "k = Suc j" "0 < j" by simp_all
    have "n div 10 < 10 ^ j"
      using 1(3) k(1) div10_less[of n "10 ^ j"] by simp
    then show ?thesis
      using 1(1)[OF False, of j] 1(2) False k by (simp add: dec_str.simps[of n])
  qed
qed

section \<open>Integers as text\<close>

lemma takeWhile_digits:
  assumes "\<forall>c \<in> set ds. isdigit c"
  shows "takeWhile isdigit ds = ds" "dropWhile isdigit ds = []" "dropWhile isspace ds = ds"
proof -
  show "takeWhile isdigit ds = ds" "dropWhile isdigit ds = []"
    using assms by (simp_all add: takeWhile_eq_all_conv dropWhile_eq_Nil_conv)
  show "dropWhile isspace ds = ds"
    using assms isdigit_facts(1) by (cases ds) auto
qed

lemma strto_sign_digits:
  "\<forall>c \<in> set ds. isdigit c \<Longrightarrow> strto_sign ds = (False, ds)"
  using isdigit_facts by (auto simp: strto_sign_def split: list.splits)

definition clamp64 :: "int \<Rightarrow> int" where
  "clamp64 n = max int64_min (min int64_max n)"

lemma strtoll_i64tostr: "strtoll (i64tostr n) = (clamp64 n, [], \<not> in_int64 n)"
proof (cases "n < 0")
  case True
  let ?d = "dec_str (- n)"
  have d: "\<forall>c \<in> set ?d. isdigit c" "?d \<noteq> []" "digits_val ?d = - n"
    using True dec_str_facts[of "- n"] by simp_all
  have "\<not> isspace CHR ''-''" by code_simp
  then show ?thesis
    using True d(2,3)
    by (simp add: max_def min_def takeWhile_digits[OF d(1)] strtoll_def i64tostr_def strto_sign_def Let_def clamp64_def in_int64_def int64_min_def int64_max_def)
next
  case False
  let ?d = "dec_str n"
  have d: "\<forall>c \<in> set ?d. isdigit c" "?d \<noteq> []" "digits_val ?d = n"
    using False dec_str_facts[of n] by simp_all
  then show ?thesis
    using False
    by (simp add: max_def min_def takeWhile_digits[OF d(1)] strto_sign_digits[OF d(1)] strtoll_def i64tostr_def Let_def clamp64_def in_int64_def int64_min_def int64_max_def)
qed

lemma strtoull_i64tostr:
  assumes "0 \<le> n"
  shows "strtoull (i64tostr n) = (min n (2 ^ 64 - 1), [], n \<ge> 2 ^ 64)"
proof -
  let ?d = "dec_str n"
  have d: "\<forall>c \<in> set ?d. isdigit c" "?d \<noteq> []" "digits_val ?d = n"
    using assms dec_str_facts[of n] by simp_all
  then show ?thesis
    using assms
    by (simp add: min_def takeWhile_digits[OF d(1)] strto_sign_digits[OF d(1)] strtoull_def i64tostr_def Let_def)
qed

lemma i64tostr_chars:
  "i64tostr n \<noteq> []" "\<forall>c \<in> set (i64tostr n). \<not> isspace c \<and> c \<noteq> CHR 0x00"
  "i64tostr n ! 0 = CHR ''-'' \<longleftrightarrow> n < 0"
proof -
  have m: "\<not> isspace CHR ''-''" by code_simp
  have d: "\<forall>c \<in> set (dec_str \<bar>n\<bar>). isdigit c" "dec_str \<bar>n\<bar> \<noteq> []"
    using dec_str_facts[of "\<bar>n\<bar>"] by simp_all
  then have "i64tostr n = (if n < 0 then CHR ''-'' # dec_str \<bar>n\<bar> else dec_str \<bar>n\<bar>)"
    by (simp add: i64tostr_def)
  moreover have "dec_str \<bar>n\<bar> ! 0 \<noteq> CHR ''-''"
    using d isdigit_facts(2) by (metis length_greater_0_conv nth_mem)
  ultimately show "i64tostr n \<noteq> []" "\<forall>c \<in> set (i64tostr n). \<not> isspace c \<and> c \<noteq> CHR 0x00"
    "i64tostr n ! 0 = CHR ''-'' \<longleftrightarrow> n < 0"
    using d isdigit_facts m by auto
qed

lemma ParsePrechecks_i64tostr: "ParsePrechecks (i64tostr n)"
  using i64tostr_chars[of n] by (auto simp: ParsePrechecks_def)

text \<open>
  C36. Integers as text: for every integer, the strict parsers accept what \<^verbatim>\<open>i64tostr\<close> prints exactly when
  the number is in the range of the type, and then write that number. Out of range they fail after
  writing: the 64-bit parsers the number clamped to their range, the 32-bit parsers the low 32 bits of
  the number clamped to 64 bits (so \<^verbatim>\<open>ParseInt32\<close> of \<open>2 ^ 31\<close> leaves \<open>- (2 ^ 31)\<close>). The unsigned
  parsers refuse a negative number before writing anything.
\<close>

theorem integer_text_roundtrip:
  "ParseInt64 (i64tostr n) = (in_int64 n, Some (clamp64 n)) \<and>
   ParseInt32 (i64tostr n) = (- (2 ^ 31) \<le> n \<and> n < 2 ^ 31, Some (sint (word_of_int (clamp64 n) :: u32))) \<and>
   ParseUInt64 (i64tostr n) = (if n < 0 then (False, None) else (n < 2 ^ 64, Some (min n (2 ^ 64 - 1)))) \<and>
   ParseUInt32 (i64tostr n) =
     (if n < 0 then (False, None) else (n < 2 ^ 32, Some (uint (word_of_int (min n (2 ^ 64 - 1)) :: u32))))"
proof -
  have "length (i64tostr n) \<ge> 1"
    using i64tostr_chars(1)[of n] by (cases "i64tostr n") auto
  then show ?thesis
    using i64tostr_chars(3)[of n] strtoull_i64tostr[of n]
    by (auto simp: ParseInt64_def ParseInt32_def ParseUInt64_def ParseUInt32_def ParsePrechecks_i64tostr
        strtoll_i64tostr clamp64_def in_int64_def int64_min_def int64_max_def)
qed

section \<open>Amounts as text\<close>

lemma trim_count_zeros: "take (trim_count t) t = replicate (trim_count t) CHR ''0''"
  by (induction t rule: trim_count.induct) auto

lemma trim_count_le: "\<not> isdigit (t ! Suc (Suc k)) \<Longrightarrow> Suc (Suc k) < length t \<Longrightarrow> trim_count t \<le> k"
proof (induction t arbitrary: k rule: trim_count.induct)
  case (1 a b c r)
  show ?case
  proof (cases k)
    case 0
    then show ?thesis using 1(2) by simp
  next
    case (Suc j)
    then show ?thesis
      using 1(1)[of j] 1(2,3) by auto
  qed
qed auto

lemma money_fraction_value:
  assumes "\<forall>c \<in> set ds. isdigit c" "length ds \<le> Suc k"
  shows "money_fraction ds (10 ^ k) acc = ([], acc + digits_val ds * 10 ^ (Suc k - length ds))"
  using assms
proof (induction ds arbitrary: k acc)
  case (Cons c ds)
  show ?case
  proof (cases k)
    case 0
    then show ?thesis using Cons.prems by simp
  next
    case (Suc j)
    have "money_fraction (c # ds) (10 ^ k) acc = money_fraction ds (10 ^ j) (acc + 10 ^ k * (char_code c - 48))"
      using Cons.prems(1) Suc by simp
    also have "\<dots> = ([], acc + 10 ^ k * (char_code c - 48) + digits_val ds * 10 ^ (Suc j - length ds))"
      using Cons.prems Suc by (intro Cons.IH) simp_all
    finally have m: "money_fraction (c # ds) (10 ^ k) acc =
      ([], acc + 10 ^ k * (char_code c - 48) + digits_val ds * 10 ^ (Suc j - length ds))" .
    have "(10 :: int) ^ k = 10 ^ length ds * 10 ^ (Suc j - length ds)"
      using Cons.prems(2) Suc by (simp flip: power_add)
    then have "acc + 10 ^ k * (char_code c - 48) + digits_val ds * 10 ^ (Suc j - length ds) =
        acc + digits_val (c # ds) * 10 ^ (Suc k - length (c # ds))"
      using Suc by (simp add: digits_val_Cons algebra_simps)
    then show ?thesis
      using m by simp
  qed
qed simp

lemma money_whole_digits:
  "\<forall>c \<in> set ds. isdigit c \<Longrightarrow> money_whole (ds @ CHR ''.'' # p) w =
     (case money_fraction p (CENT * 10) 0 of (p, nUnits) \<Rightarrow> Some (p, w @ ds, nUnits))"
  using isdigit_facts by (induction ds arbitrary: w) auto

lemma atoi64_digits:
  assumes "\<forall>c \<in> set ds. isdigit c" "ds \<noteq> []" "length ds \<le> 10"
  shows "atoi64 ds = digits_val ds"
proof -
  have "(10 :: int) ^ length ds \<le> 10 ^ 10"
    using assms(3) by (intro power_increasing) simp_all
  then have b: "0 \<le> digits_val ds" "digits_val ds < 10 ^ 10"
    using digits_val_bounds[OF assms(1)] by simp_all
  have t: "takeWhile (\<lambda>c. c \<noteq> CHR 0x00) ds = ds"
    using assms(1) isdigit_facts(5) by (auto simp: takeWhile_eq_all_conv)
  show ?thesis
    using assms(2) b by (simp add: t atoi64_def strtoll_def takeWhile_digits[OF assms(1)]
        strto_sign_digits[OF assms(1)] Let_def int64_max_def int64_min_def)
qed

lemma pad8_facts:
  assumes "0 \<le> r" "r < 10 ^ 8"
  shows "length (pad_to 8 r) = 8 \<and> (\<forall>c \<in> set (pad_to 8 r). isdigit c) \<and> digits_val (pad_to 8 r) = r"
proof -
  have "length (dec_str r) \<le> 8"
    by (rule dec_str_length[OF assms]) simp
  moreover have "isdigit CHR ''0''" by code_simp
  ultimately show ?thesis
    using dec_str_facts[OF assms(1)] by (auto simp: pad_to_def digits_val_append)
qed

text \<open>The text of an amount: the whole part, the point and at least two of the eight decimals.\<close>

lemma FormatMoney_value:
  assumes "0 \<le> n"
  obtains ds where "FormatMoney n = dec_str (n div COIN) @ CHR ''.'' # ds" "\<forall>c \<in> set ds. isdigit c"
    "length ds \<le> 8" "digits_val ds * 10 ^ (8 - length ds) = n mod COIN"
proof -
  let ?q = "dec_str (n div COIN)" and ?p = "pad_to 8 (n mod COIN)"
  let ?s = "?q @ CHR ''.'' # ?p"
  have p: "length ?p = 8" "\<forall>c \<in> set ?p. isdigit c" "digits_val ?p = n mod COIN"
    using pad8_facts[of "n mod COIN"] by (simp_all add: COIN_def)
  define k where "k = trim_count (rev ?s)"
  have "rev ?s ! 8 = CHR ''.''"
    using p(1) by (simp add: nth_append)
  moreover have "\<not> isdigit CHR ''.''" by code_simp
  ultimately have k: "k \<le> 6"
    using trim_count_le[of "rev ?s" 6] p(1) by (simp add: k_def numeral_eq_Suc)
  have "take k (rev ?s) = take k (rev ?p)"
    using k p(1) by simp
  then have z: "take k (rev ?p) = replicate k CHR ''0''"
    using trim_count_zeros[of "rev ?s"] by (simp add: k_def)
  define ds where "ds = take (8 - k) ?p"
  have "rev (take k (rev ?p)) = drop (8 - k) ?p"
    using p(1) k by (simp add: rev_take)
  then have pd: "?p = ds @ replicate k CHR ''0''"
    using z append_take_drop_id[of "8 - k" ?p] by (simp add: ds_def)
  have len: "length ds = 8 - k"
    using p(1) by (simp add: ds_def)
  have "FormatMoney n = take (length ?s - k) ?s"
    using assms by (simp add: FormatMoney_def Let_def k_def i64tostr_def COIN_def)
  also have "\<dots> = ?q @ CHR ''.'' # ds"
    using p(1) k by (simp add: ds_def take_Cons')
  finally have f: "FormatMoney n = ?q @ CHR ''.'' # ds" .
  have "digits_val ds * 10 ^ (8 - length ds) = n mod COIN"
    using p(3) pd k len by (simp add: digits_val_append)
  then show thesis
    using that[OF f] p(2) len by (simp add: ds_def) (metis in_set_takeD)
qed

section \<open>Fixed point numbers\<close>

lemma times_ten_Some: "times_ten n m = Some m' \<Longrightarrow> m' = m * 10 ^ n"
proof (induction n arbitrary: m)
  case (Suc n)
  then have "m' = m * 10 * 10 ^ n"
    by (auto split: if_splits)
  then show ?case by simp
qed simp

lemma times_ten_ok:
  assumes "0 \<le> m" "m * 10 ^ n < 10 ^ 18"
  shows "times_ten n m = Some (m * 10 ^ n)"
  using assms
proof (induction n arbitrary: m)
  case (Suc n)
  have "m * 10 * 10 ^ n < 10 ^ 18"
    using Suc.prems(2) by (simp add: mult.assoc)
  moreover have "m * 10 * 1 \<le> m * 10 * 10 ^ n"
    using Suc.prems(1) by (intro mult_left_mono) simp_all
  ultimately have "m \<le> c_div UPPER_BOUND 10"
    by (simp add: UPPER_BOUND_def)
  then show ?case
    using Suc.IH[of "m * 10"] Suc.prems by (simp add: mult.assoc)
qed simp

lemma zero_code: "char_code CHR ''0'' = 48"
  by (simp add: char_code_def)

lemma digit_nonzero:
  assumes "isdigit c" "c \<noteq> CHR ''0''"
  shows "48 < char_code c"
proof -
  have "char_code c \<noteq> char_code CHR ''0''"
    using assms(2) unfolding char_code_def of_char_eq_iff .
  then show ?thesis
    using assms(1) by (simp add: isdigit_def zero_code)
qed

text \<open>The mantissa and the zeros held back always stand for the digits read.\<close>

lemma mantissa_loop_value:
  assumes "mantissa_loop s (m, z) n = Some (r, (m', z'), n')"
  shows "\<exists>ds. s = ds @ r \<and> (\<forall>c \<in> set ds. isdigit c) \<and> \<not> starts_digit r \<and> n' = n + length ds \<and>
    m' * 10 ^ z' = m * 10 ^ z * 10 ^ length ds + digits_val ds"
  using assms
proof (induction s arbitrary: m z n)
  case Nil
  then show ?case by (simp add: starts_digit_def)
next
  case (Cons c s)
  show ?case
  proof (cases "isdigit c")
    case False
    then show ?thesis
      using Cons.prems by (auto simp: starts_digit_def)
  next
    case True
    then obtain m1 z1 where st: "ProcessMantissaDigit c (m, z) = Some (m1, z1)"
        "mantissa_loop s (m1, z1) (n + 1) = Some (r, (m', z'), n')"
      using Cons.prems by (auto split: option.splits)
    then obtain ds where ds: "s = ds @ r" "\<forall>c \<in> set ds. isdigit c" "\<not> starts_digit r" "n' = n + 1 + length ds"
        "m' * 10 ^ z' = m1 * 10 ^ z1 * 10 ^ length ds + digits_val ds"
      using Cons.IH by blast
    have e: "m1 * 10 ^ z1 = m * 10 ^ z * 10 + (char_code c - 48)"
      using st(1) by (auto simp: ProcessMantissaDigit_def zero_code split: if_splits dest!: times_ten_Some)
    have "m' * 10 ^ z' = m * 10 ^ z * 10 ^ length (c # ds) + digits_val (c # ds)"
      using ds(5) unfolding e by (simp add: digits_val_Cons algebra_simps)
    then show ?thesis
      using ds True by (intro exI[of _ "c # ds"]) simp
  qed
qed

lemma mantissa_loop_ok:
  assumes "\<forall>c \<in> set ds. isdigit c" "\<not> starts_digit r" "0 \<le> m" "m * 10 ^ z * 10 ^ length ds + digits_val ds < 10 ^ 18"
  shows "\<exists>m' z'. mantissa_loop (ds @ r) (m, z) n = Some (r, (m', z'), n + length ds) \<and> 0 \<le> m' \<and>
    (0 < m' \<and> 0 < m \<or> 0 < m' \<and> 0 < digits_val ds \<or> m' = m \<and> z' = z + length ds \<and> digits_val ds = 0)"
  using assms
proof (induction ds arbitrary: m z n)
  case Nil
  then show ?case
    by (cases r) (auto simp: starts_digit_def)
next
  case (Cons c ds)
  have c: "isdigit c" "0 \<le> char_code c - 48"
    using Cons.prems(1) by (auto simp: isdigit_def)
  have b: "0 \<le> digits_val ds"
    using Cons.prems(1) digits_val_bounds[of ds] by simp
  have total: "(m * 10 ^ (z + 1) + (char_code c - 48)) * 10 ^ length ds + digits_val ds < 10 ^ 18"
    using Cons.prems(4) by (simp add: digits_val_Cons algebra_simps)
  show ?case
  proof (cases "c = CHR ''0''")
    case True
    have e: "digits_val (c # ds) = digits_val ds"
      using True by (simp add: digits_val_Cons zero_code)
    have "m * 10 ^ Suc z * 10 ^ length ds + digits_val ds < 10 ^ 18"
      using total True by (simp add: zero_code)
    then show ?thesis
      using Cons.IH[of m "Suc z" "n + 1"] Cons.prems c(1) True unfolding e
      by (simp add: ProcessMantissaDigit_def)
  next
    case False
    let ?m = "m * 10 ^ (z + 1)"
    have pos: "0 < char_code c - 48"
      using digit_nonzero[OF c(1) False] by simp
    have "?m * 1 \<le> (?m + (char_code c - 48)) * 10 ^ length ds"
      using c(2) Cons.prems(3) by (intro mult_mono) simp_all
    then have "?m < 10 ^ 18"
      using total b by linarith
    then have t: "times_ten (z + 1) m = Some ?m"
      by (rule times_ten_ok[OF Cons.prems(3)])
    have m0: "0 \<le> ?m + (char_code c - 48)" "0 < ?m + (char_code c - 48)"
      using pos Cons.prems(3) by (simp_all add: add_nonneg_pos)
    have dpos: "0 < digits_val (c # ds)"
      using pos b by (simp add: digits_val_Cons add_pos_nonneg)
    show ?thesis
      using Cons.IH[of "?m + (char_code c - 48)" 0 "n + 1"] Cons.prems(1,2) total m0 c(1) False t dpos
      by (auto simp: ProcessMantissaDigit_def)
  qed
qed

text \<open>The JSON number syntax: sign, whole digits, decimals and the value of the exponent.\<close>

definition exponent_text :: "string \<Rightarrow> int \<Rightarrow> bool" where
  "exponent_text es e \<longleftrightarrow> es = [] \<and> e = 0 \<or>
     (\<exists>c ds. c \<in> {CHR ''e'', CHR ''E''} \<and> ds \<noteq> [] \<and> (\<forall>d \<in> set ds. isdigit d) \<and>
        (es = c # ds \<and> e = digits_val ds \<or> es = c # CHR ''+'' # ds \<and> e = digits_val ds \<or>
         es = c # CHR ''-'' # ds \<and> e = - digits_val ds))"

definition json_number :: "string \<Rightarrow> bool \<Rightarrow> string \<Rightarrow> string \<Rightarrow> int \<Rightarrow> bool" where
  "json_number val neg ip fp e \<longleftrightarrow>
     (\<exists>es. val = (if neg then ''-'' else []) @ ip @ (if fp = [] then [] else CHR ''.'' # fp) @ es \<and>
        exponent_text es e) \<and>
     (\<forall>c \<in> set (ip @ fp). isdigit c) \<and> (ip = ''0'' \<or> ip \<noteq> [] \<and> hd ip \<noteq> CHR ''0'')"

lemma exponent_loop_value:
  "exponent_loop s e0 = Some (r, e) \<Longrightarrow>
    \<exists>ds. s = ds @ r \<and> (\<forall>c \<in> set ds. isdigit c) \<and> \<not> starts_digit r \<and> e = e0 * 10 ^ length ds + digits_val ds"
proof (induction s arbitrary: e0)
  case Nil
  then show ?case by (simp add: starts_digit_def)
next
  case (Cons c s)
  show ?case
  proof (cases "isdigit c")
    case False
    then show ?thesis using Cons.prems by (auto simp: starts_digit_def)
  next
    case True
    then have "exponent_loop s (e0 * 10 + (char_code c - 48)) = Some (r, e)"
      using Cons.prems by (auto split: if_splits)
    then obtain ds where "s = ds @ r" "\<forall>c \<in> set ds. isdigit c" "\<not> starts_digit r"
        "e = (e0 * 10 + (char_code c - 48)) * 10 ^ length ds + digits_val ds"
      using Cons.IH by blast
    then show ?thesis
      using True by (intro exI[of _ "c # ds"]) (simp add: digits_val_Cons algebra_simps)
  qed
qed

lemma scale_loop_Some: "scale_loop n m = Some m' \<Longrightarrow> m' = m * 10 ^ n"
proof (induction n arbitrary: m)
  case (Suc n)
  then have "m' = m * 10 * 10 ^ n"
    by (auto split: if_splits)
  then show ?case by simp
qed simp

lemma parse_exponent_text:
  assumes "parse_exponent s = Some ([], e)"
  shows "exponent_text s e"
proof (cases s)
  case Nil
  then show ?thesis using assms by (simp add: parse_exponent_def exponent_text_def)
next
  case (Cons c r)
  obtain neg t where t: "strto_sign r = (neg, t)" by (cases "strto_sign r")
  have c: "c \<in> {CHR ''e'', CHR ''E''}"
    using assms Cons by (auto simp: parse_exponent_def split: if_splits)
  then obtain e' where st: "starts_digit t" "exponent_loop t 0 = Some ([], e')" "e = (if neg then - e' else e')"
    using assms Cons t by (auto simp: parse_exponent_def split: if_splits)
  then have ds: "\<forall>c \<in> set t. isdigit c" "e' = digits_val t" "t \<noteq> []"
    using exponent_loop_value[OF st(2)] by (auto simp: starts_digit_def)
  have "r = t \<and> \<not> neg \<or> r = CHR ''+'' # t \<and> \<not> neg \<or> r = CHR ''-'' # t \<and> neg"
    using t by (auto simp: strto_sign_def split: list.splits if_splits)
  then show ?thesis
    using c ds st(3) Cons unfolding exponent_text_def by auto
qed

lemma parse_integer_value:
  assumes "parse_integer s = Some (r, m, z)"
  shows "\<exists>ip. s = ip @ r \<and> (\<forall>c \<in> set ip. isdigit c) \<and> (ip = ''0'' \<or> ip \<noteq> [] \<and> hd ip \<noteq> CHR ''0'') \<and>
    m * 10 ^ z = digits_val ip"
proof (cases s)
  case Nil
  then show ?thesis using assms by (simp add: parse_integer_def)
next
  case (Cons c t)
  show ?thesis
  proof (cases "c = CHR ''0''")
    case True
    have "isdigit CHR ''0''" by code_simp
    then show ?thesis
      using True Cons assms by (intro exI[of _ "''0''"]) (auto simp: parse_integer_def zero_code)
  next
    case False
    then obtain n where "isdigit c" "mantissa_loop s (0, 0) 0 = Some (r, (m, z), n)"
      using assms Cons by (auto simp: parse_integer_def split: if_splits)
    then obtain ds where "s = ds @ r" "\<forall>c \<in> set ds. isdigit c" "\<not> starts_digit r" "m * 10 ^ z = digits_val ds"
      using mantissa_loop_value by force
    then show ?thesis
      using False Cons \<open>isdigit c\<close> by (intro exI[of _ ds]) (cases ds, auto simp: starts_digit_def)
  qed
qed

lemma parse_fraction_value:
  assumes "parse_fraction (s, m, z) = Some (r, (m', z'), n)"
  shows "\<exists>fp. s = (if fp = [] then [] else CHR ''.'' # fp) @ r \<and> (\<forall>c \<in> set fp. isdigit c) \<and> n = length fp \<and>
    m' * 10 ^ z' = m * 10 ^ z * 10 ^ length fp + digits_val fp"
proof (cases "\<exists>t. s = CHR ''.'' # t")
  case True
  then obtain t where t: "s = CHR ''.'' # t" "starts_digit t" "mantissa_loop t (m, z) 0 = Some (r, (m', z'), n)"
    using assms by (auto simp: parse_fraction_def split: if_splits)
  then obtain fp where fp: "t = fp @ r" "\<forall>c \<in> set fp. isdigit c" "\<not> starts_digit r" "n = length fp"
      "m' * 10 ^ z' = m * 10 ^ z * 10 ^ length fp + digits_val fp"
    using mantissa_loop_value by force
  moreover have "fp \<noteq> []"
    using fp(1,3) t(2) by auto
  ultimately show ?thesis
    using t(1) by auto
next
  case False
  then have "r = s \<and> m' = m \<and> z' = z \<and> n = 0"
    using assms by (auto simp: parse_fraction_def split: list.splits if_splits)
  then show ?thesis
    by (intro exI[of _ "[]"]) simp
qed

text \<open>
  C34. \<^verbatim>\<open>ParseFixedPoint\<close> is exact: a text it accepts is a JSON number, and the amount it returns is the
  value of that number times \<open>10 ^ decimals\<close>, with no digit lost or invented; it is above \<open>- 10 ^ 18\<close> and
  at most \<open>42 * 10 ^ 17\<close>.
\<close>

theorem ParseFixedPoint_exact:
  assumes "ParseFixedPoint val decimals = Some a"
  shows "\<exists>neg ip fp e. json_number val neg ip fp e \<and>
    (of_int a :: rat) = (if neg then - 1 else 1) * of_int (digits_val (ip @ fp)) *
      10 powi (e - int (length fp) + decimals) \<and>
    - (10 ^ 18) < a \<and> a \<le> 42 * 10 ^ 17"
proof -
  define neg where "neg = (\<exists>r. val = CHR ''-'' # r)"
  define s where "s = (if neg then tl val else val)"
  have v: "val = (if neg then ''-'' else []) @ s"
    by (auto simp: neg_def s_def)
  have split: "(case val of c # r \<Rightarrow> if c = CHR ''-'' then (True, r) else (False, val) | [] \<Rightarrow> (False, val)) = (neg, s)"
    by (auto simp: neg_def s_def split: list.splits)
  note eq = assms[unfolded ParseFixedPoint_def split Let_def prod.case]
  obtain t m z where t: "parse_integer s = Some (t, m, z)"
    using eq by (auto split: option.splits)
  obtain u m' z' n where u: "parse_fraction (t, m, z) = Some (u, (m', z'), n)"
    using eq t by (auto split: option.splits)
  obtain e where e: "parse_exponent u = Some ([], e)"
    using eq t u by (auto split: option.splits if_splits)
  let ?x = "e - int n + int z' + decimals" and ?m = "if neg then - m' else m'"
  have x: "0 \<le> ?x" and sc: "scale_loop (nat ?x) ?m = Some a" and a: "\<not> (a > 4200000000000000000 \<or> a < - UPPER_BOUND)"
    using eq t u e by (auto split: option.splits if_splits)
  obtain ip where ip: "s = ip @ t" "\<forall>c \<in> set ip. isdigit c" "ip = ''0'' \<or> ip \<noteq> [] \<and> hd ip \<noteq> CHR ''0''"
      "m * 10 ^ z = digits_val ip"
    using parse_integer_value[OF t] by blast
  obtain fp where fp: "t = (if fp = [] then [] else CHR ''.'' # fp) @ u" "\<forall>c \<in> set fp. isdigit c" "n = length fp"
      "m' * 10 ^ z' = m * 10 ^ z * 10 ^ length fp + digits_val fp"
    using parse_fraction_value[OF u] by blast
  have "json_number val neg ip fp e"
    using v ip(1-3) fp(1,2) parse_exponent_text[OF e] unfolding json_number_def by auto
  moreover have val: "m' * 10 ^ z' = digits_val (ip @ fp)"
    using fp(4) ip(4) by (simp add: digits_val_append)
  have p: "(10 :: rat) ^ nat ?x = 10 ^ z' * 10 powi (e - int (length fp) + decimals)"
  proof -
    have "(10 :: rat) ^ nat ?x = 10 powi ?x"
      using x by (simp add: power_int_def)
    moreover have xe: "?x = int z' + (e - int (length fp) + decimals)"
      using fp(3) by simp
    have "(10 :: rat) powi ?x = 10 powi int z' * 10 powi (e - int (length fp) + decimals)"
      by (subst xe, rule power_int_add) simp
    ultimately show ?thesis
      by (simp only: power_int_of_nat)
  qed
  have "(of_int a :: rat) = of_int ?m * 10 ^ nat ?x"
    using scale_loop_Some[OF sc] by simp
  then have "(of_int a :: rat) = (if neg then - 1 else 1) * of_int (m' * 10 ^ z') * 10 powi (e - int (length fp) + decimals)"
    unfolding p by simp
  ultimately show ?thesis
    using a unfolding val UPPER_BOUND_def by (intro exI[of _ neg] exI[of _ ip] exI[of _ fp] exI[of _ e]) simp
qed

theorem ParseFixedPoint_exact_witness:
  "ParseFixedPoint ''-12.50e2'' 8 = Some (- 125000000000) \<and>
   (\<exists>neg ip fp e. json_number ''-12.50e2'' neg ip fp e)"
proof -
  have "ParseFixedPoint ''-12.50e2'' 8 = Some (- 125000000000)"
    by code_simp
  then show ?thesis
    using ParseFixedPoint_exact[of "''-12.50e2''" 8] by blast
qed

lemma dec_str_head:
  assumes "0 < n"
  shows "hd (dec_str n) \<noteq> CHR ''0''"
  using assms
proof (induction n rule: dec_str.induct)
  case (1 n)
  show ?case
  proof (cases "n < 10")
    case True
    then have "char_code (digit_char n) \<noteq> 48"
      using 1(2) digit_char_facts(2)[of n] by simp
    then show ?thesis
      using True zero_code by (auto simp: dec_str.simps)
  next
    case False
    then have "dec_str (n div 10) \<noteq> []"
      using dec_str_facts[of "n div 10"] by simp
    then show ?thesis
      using 1(1)[OF False] False by (simp add: dec_str.simps[of n])
  qed
qed

lemma scale_loop_ok:
  assumes "\<bar>m\<bar> * 10 ^ n < 10 ^ 18"
  shows "scale_loop n m = Some (m * 10 ^ n)"
  using assms
proof (induction n arbitrary: m)
  case (Suc n)
  have l: "\<bar>m * 10\<bar> * 10 ^ n < 10 ^ 18"
    using Suc.prems by (simp add: abs_mult mult.assoc)
  moreover have "\<bar>m * 10\<bar> * 1 \<le> \<bar>m * 10\<bar> * 10 ^ n"
    by (intro mult_left_mono) simp_all
  ultimately have "\<bar>m\<bar> * 10 < 10 ^ 18"
    by (simp add: abs_mult)
  then have "\<not> (m > 420000000000000000 \<or> m < - c_div UPPER_BOUND 10)"
    unfolding UPPER_BOUND_def by simp linarith
  then show ?case
    using Suc.IH[OF l] by (simp add: mult.assoc)
qed simp

lemma parse_amount:
  assumes "0 \<le> q" "0 \<le> r" "r < 10 ^ 8" "q * 10 ^ 8 + r < 10 ^ 18"
  obtains m z where "parse_fraction (the (parse_integer (dec_str q @ CHR ''.'' # pad_to 8 r))) = Some ([], (m, z), 8)"
    "parse_integer (dec_str q @ CHR ''.'' # pad_to 8 r) \<noteq> None" "m * 10 ^ z = q * 10 ^ 8 + r" "z < 18"
proof -
  let ?p = "pad_to 8 r"
  note p = pad8_facts[OF assms(2,3)] and d = dec_str_facts[OF assms(1)]
  have nd: "\<not> starts_digit (CHR ''.'' # ?p)" "starts_digit ?p"
    using p by (cases ?p; simp add: starts_digit_def isdigit_def char_code_def)+
  have "\<exists>m0 z0. parse_integer (dec_str q @ CHR ''.'' # ?p) = Some (CHR ''.'' # ?p, m0, z0) \<and> 0 \<le> m0 \<and>
      m0 * 10 ^ z0 = q \<and> (0 < m0 \<or> q = 0 \<and> z0 = 0 \<and> m0 = 0)"
  proof (cases "q = 0")
    case True
    have "dec_str 0 = ''0''" by code_simp
    then show ?thesis
      using True by (simp add: parse_integer_def)
  next
    case False
    have "q < 10 ^ 18"
      using assms by simp
    then obtain m0 z0 where m0: "mantissa_loop (dec_str q @ CHR ''.'' # ?p) (0, 0) 0 =
        Some (CHR ''.'' # ?p, (m0, z0), length (dec_str q))" "0 < m0"
      using mantissa_loop_ok[of "dec_str q" "CHR ''.'' # ?p" 0 0 0] d nd(1) False assms(1) by force
    have "m0 * 10 ^ z0 = q"
      using mantissa_loop_value[OF m0(1)] d by auto
    moreover have "hd (dec_str q) \<noteq> CHR ''0''"
      by (rule dec_str_head) (use False assms(1) in simp)
    ultimately show ?thesis
      using m0 d by (cases "dec_str q") (auto simp: parse_integer_def)
  qed
  then obtain m0 z0 where m0: "parse_integer (dec_str q @ CHR ''.'' # ?p) = Some (CHR ''.'' # ?p, m0, z0)" "0 \<le> m0"
      "m0 * 10 ^ z0 = q" "0 < m0 \<or> q = 0 \<and> z0 = 0 \<and> m0 = 0" by blast
  obtain m z where m: "mantissa_loop ?p (m0, z0) 0 = Some ([], (m, z), 8)" "0 < m \<or> m = m0 \<and> z = z0 + 8"
    using mantissa_loop_ok[of ?p "[]" m0 z0 0] p m0(2,3) assms(4) by (auto simp: starts_digit_def)
  have v: "m * 10 ^ z = q * 10 ^ 8 + r"
    using mantissa_loop_value[OF m(1)] p m0(3) by auto
  have "z < 18"
  proof (cases "0 < m")
    case True
    then have "1 * 10 ^ z \<le> m * 10 ^ z"
      by (intro mult_right_mono) simp_all
    then have "(10 :: int) ^ z < 10 ^ 18"
      using v assms(4) by linarith
    then show ?thesis
      by (rule power_less_imp_less_exp[rotated]) simp
  qed (use m(2) m0(4) in auto)
  then show thesis
    using that[of m z] m0(1) m(1) v nd(2) by (simp add: parse_fraction_def)
qed

lemma amount_json_roundtrip:
  assumes "\<bar>n\<bar> < 10 ^ 18"
  shows "ParseFixedPoint (ValueFromAmountString n 8) 8 = Some n"
proof -
  let ?q = "\<bar>n\<bar> div COIN" and ?r = "\<bar>n\<bar> mod COIN"
  let ?s = "dec_str ?q @ CHR ''.'' # pad_to 8 ?r"
  have qr: "0 \<le> ?q" "0 \<le> ?r" "?r < 10 ^ 8" "?q * 10 ^ 8 + ?r = \<bar>n\<bar>"
    by (simp_all add: COIN_def)
  obtain m z where m: "parse_fraction (the (parse_integer ?s)) = Some ([], (m, z), 8)" "parse_integer ?s \<noteq> None"
      "m * 10 ^ z = \<bar>n\<bar>" "z < 18"
    using parse_amount[OF qr(1,2,3)] qr(4) assms by metis
  have fmt: "ValueFromAmountString n 8 = (if n < 0 then ''-'' else []) @ ?s"
  proof -
    have "(if n < 0 then - n else n) = \<bar>n\<bar>" "c_div \<bar>n\<bar> COIN = ?q" "c_mod \<bar>n\<bar> COIN = ?r" "c_div ?r 1 = ?r"
      using qr(2) by (simp_all add: COIN_def)
    moreover have "i64tostr ?q = dec_str ?q"
      using qr(1) by (simp only: i64tostr_def not_less[symmetric] if_False)
    ultimately show ?thesis
      by (simp only: ValueFromAmountString_def Let_def) simp
  qed
  have hd: "\<exists>c t. ?s = c # t \<and> c \<noteq> CHR ''-''"
    using dec_str_facts[OF qr(1)] isdigit_facts(2) by (cases "dec_str ?q") auto
  have sp: "(case ValueFromAmountString n 8 of c # r \<Rightarrow> if c = CHR ''-'' then (True, r)
      else (False, ValueFromAmountString n 8) | [] \<Rightarrow> (False, ValueFromAmountString n 8)) = (n < 0, ?s)"
    using hd unfolding fmt by auto
  have "scale_loop z (if n < 0 then - m else m) = Some n"
    using scale_loop_ok[of "if n < 0 then - m else m" z] m(3) assms by (auto simp: abs_mult split: if_splits)
  then show ?thesis
    using m assms unfolding ParseFixedPoint_def sp Let_def prod.case
    by (auto simp: parse_exponent_def UPPER_BOUND_def)
qed

lemma ParseMoney_FormatMoney:
  assumes "n < 10 ^ 10 * COIN"
  shows "ParseMoney (FormatMoney n) = (if 0 \<le> n then Some n else None)"
proof (cases "0 \<le> n")
  case True
  obtain ds where f: "FormatMoney n = dec_str (n div COIN) @ CHR ''.'' # ds" and
    ds: "\<forall>c \<in> set ds. isdigit c" "length ds \<le> 8" "digits_val ds * 10 ^ (8 - length ds) = n mod COIN"
    using FormatMoney_value[OF True] by metis
  have q: "0 \<le> n div COIN" "n div COIN < 10 ^ 10"
    using True assms by (simp_all add: COIN_def)
  note d = dec_str_facts[OF q(1)]
  have len: "length (dec_str (n div COIN)) \<le> 10"
    by (rule dec_str_length[OF q]) simp
  have "money_fraction ds (CENT * 10) 0 = ([], n mod COIN)"
    using money_fraction_value[OF ds(1), of 7 0] ds(2,3) by (simp add: CENT_def)
  moreover have "dropWhile isspace (FormatMoney n) = FormatMoney n"
    using d isdigit_facts(1) unfolding f by (cases "dec_str (n div COIN)") auto
  moreover have "0 \<le> n mod COIN" "n mod COIN < COIN"
    by (simp_all add: COIN_def)
  moreover have "atoi64 (dec_str (n div COIN)) = n div COIN"
    using atoi64_digits len d by simp
  ultimately show ?thesis
    using True d len by (simp add: ParseMoney_def f money_whole_digits)
next
  case False
  then obtain s where "FormatMoney n = CHR ''-'' # s"
    by (simp add: FormatMoney_def Let_def)
  moreover have "\<not> isspace CHR ''-''" "\<not> isdigit CHR ''-''"
    by code_simp+
  ultimately show ?thesis
    using False by (simp add: ParseMoney_def)
qed

text \<open>
  C35. Amounts as text, for every amount below ten billion coins in absolute value. With its default flag
  the amount parser of the remote interface reads back what the JSON printer writes when the amount is
  from 0 to \<^verbatim>\<open>MAX_MONEY\<close>, and throws \<^verbatim>\<open>Amount out of range\<close> for every other one, negative amounts included;
  without the flag it reads back every amount. \<^verbatim>\<open>ParseMoney\<close> reads back what \<^verbatim>\<open>FormatMoney\<close> prints and
  refuses the text of a negative amount.
\<close>

theorem amount_text_roundtrip:
  assumes "\<bar>n\<bar> < 10 ^ 10 * COIN"
  shows "AmountFromValue (ValueFromAmountString n 8) True =
      (if 0 \<le> n \<and> n \<le> MAX_MONEY then Inr n else Inl (Throw ''Amount out of range'')) \<and>
    AmountFromValue (ValueFromAmountString n 8) False = Inr n \<and>
    ParseMoney (FormatMoney n) = (if 0 \<le> n then Some n else None)"
  using assms ParseMoney_FormatMoney[of n] amount_json_roundtrip[of n]
  by (simp add: AmountFromValue_def COIN_def MoneyRange_def)

theorem amount_text_roundtrip_witness:
  "AmountFromValue (ValueFromAmountString (- 150000000) 8) False = Inr (- 150000000) \<and>
   AmountFromValue (ValueFromAmountString (- 1) 8) True = Inl (Throw ''Amount out of range'') \<and>
   AmountFromValue (ValueFromAmountString MAX_MONEY 8) True = Inr MAX_MONEY \<and>
   ParseMoney (FormatMoney MAX_MONEY) = Some MAX_MONEY"
  using amount_text_roundtrip[of MAX_MONEY] amount_text_roundtrip[of "- 150000000"] amount_text_roundtrip[of "- 1"]
  by (simp add: MAX_MONEY_def COIN_def)

section \<open>Timing-resistant comparison\<close>

lemma fold_or_0:
  "fold (\<lambda>i acc. acc OR f i) xs s = 0 \<longleftrightarrow> s = (0 :: 'a :: len word) \<and> (\<forall>i \<in> set xs. f i = 0)"
  by (induction xs arbitrary: s) (auto simp: or_eq_0_iff)

lemma xor_0_iff: "x XOR y = 0 \<longleftrightarrow> x = (y :: 'a :: len word)"
  by (auto simp: bit_eq_iff bit_simps)

lemma TimingResistantEqual_iff:
  assumes "length a < 2 ^ 64" "length b < 2 ^ 64"
  shows "TimingResistantEqual a b \<longleftrightarrow> a = b"
proof (cases "b = []")
  case False
  have u: "ucast (x :: u8) = (0 :: u64) \<longleftrightarrow> x = 0" for x
    by (simp add: unsigned_ucast_eq word_eq_iff_unsigned[where 'a = nat] take_bit_nat_eq_self less_trans[OF unsigned_less])
  have l: "(of_nat (length a) :: u64) = of_nat (length b) \<longleftrightarrow> length a = length b"
    using assms by (simp add: xor_0_iff word_of_nat_eq_iff take_bit_nat_eq_self)
  have "TimingResistantEqual a b \<longleftrightarrow> length a = length b \<and> (\<forall>i < length a. a ! i = b ! (i mod length b))"
    unfolding TimingResistantEqual_def fold_or_0 u xor_0_iff l using False by auto
  then show ?thesis
    by (auto simp: list_eq_iff_nth_eq)
qed (simp add: TimingResistantEqual_def)

end
