(* ===== verification/Base58.thy ===== *)
theory Base58
  imports Params
begin

unbundle bit_operations_syntax

text \<open>
  Base 58 and addresses (src/src/base58.cpp). A digit vector is kept from its last element to its first,
  the order in which the carry loops walk it. The double hash \<^verbatim>\<open>Hash\<close> is a parameter: any function that
  gives 32 bytes.
\<close>

section \<open>Base 58\<close>

definition pszBase58 :: string where
  "pszBase58 = ''123456789ABCDEFGHJKLMNPQRSTUVWXYZabcdefghijkmnopqrstuvwxyz''"

text \<open>
  \<^verbatim>\<open>for (it = rbegin; (carry != 0 || i < length) && it != rend; ++it, ++i)\<close>: the digits, the carry and the
  count after the loop, for \<^verbatim>\<open>digits = digits * mul + carry\<close> in the given base.
\<close>

fun carry_loop :: "nat \<Rightarrow> nat \<Rightarrow> nat \<Rightarrow> nat \<Rightarrow> nat \<Rightarrow> nat list \<Rightarrow> nat list \<times> nat \<times> nat" where
  "carry_loop b mul len i carry [] = ([], carry, i)"
| "carry_loop b mul len i carry (d # ds) =
     (if carry \<noteq> 0 \<or> i < len
      then (case carry_loop b mul len (i + 1) ((carry + mul * d) div b) ds of (ds', c, j) \<Rightarrow>
              (((carry + mul * d) mod b) # ds', c, j))
      else (d # ds, carry, i))"

text \<open>The loop over the input digits, most significant first.\<close>

fun convert_loop :: "nat \<Rightarrow> nat \<Rightarrow> nat list \<Rightarrow> nat list \<Rightarrow> nat \<Rightarrow> (nat list \<times> nat) outcome" where
  "convert_loop b mul [] ds len = Inr (ds, len)"
| "convert_loop b mul (x # xs) ds len =
     (case carry_loop b mul len 0 x ds of (ds', carry, i) \<Rightarrow>
        if carry \<noteq> 0 then Inl AssertFail else convert_loop b mul xs ds' i)"

text \<open>
  \<^verbatim>\<open>size\<close> is an \<^verbatim>\<open>int\<close> in the source and keeps its value for inputs below \<open>2 ^ 30\<close> bytes.
\<close>

definition EncodeBase58 :: "bytes \<Rightarrow> string outcome" where
  "EncodeBase58 v =
     (let zeroes = length (takeWhile (\<lambda>x. x = 0) v);
          rest = dropWhile (\<lambda>x. x = 0) v;
          size = length rest * 138 div 100 + 1
      in bind_out (convert_loop 58 256 (map unat rest) (replicate size 0) 0) (\<lambda>(ds, len).
        Inr (replicate zeroes CHR ''1'' @
             map (\<lambda>d. pszBase58 ! d) (dropWhile (\<lambda>d. d = 0) (rev (take len ds))))))"

text \<open>
  \<^verbatim>\<open>strchr(pszBase58, c) - pszBase58\<close>.
\<close>

definition base58_index :: "char \<Rightarrow> nat option" where
  "base58_index c = (case takeWhile (\<lambda>d. d \<noteq> c) pszBase58 of p \<Rightarrow>
     if length p < length pszBase58 then Some (length p) else None)"

text \<open>
  The characters up to a space are translated as the loop meets them: the first that is not a digit of
  base 58 ends the decoding with failure.
\<close>

fun decode58_loop :: "string \<Rightarrow> nat list \<Rightarrow> nat \<Rightarrow> (nat list \<times> nat \<times> string) option outcome" where
  "decode58_loop [] ds len = Inr (Some (ds, len, []))"
| "decode58_loop (c # p) ds len =
     (if isspace c then Inr (Some (ds, len, c # p))
      else case base58_index c of None \<Rightarrow> Inr None
      | Some x \<Rightarrow> (case carry_loop 256 58 len 0 x ds of (ds', carry, i) \<Rightarrow>
          if carry \<noteq> 0 then Inl AssertFail else decode58_loop p ds' i))"

definition DecodeBase58 :: "string \<Rightarrow> bytes option outcome" where
  "DecodeBase58 psz =
     (let psz = dropWhile isspace psz;
          zeroes = length (takeWhile (\<lambda>c. c = CHR ''1'') psz);
          psz = dropWhile (\<lambda>c. c = CHR ''1'') psz;
          size = length psz * 733 div 1000 + 1
      in bind_out (decode58_loop psz (replicate size 0) 0) (\<lambda>r.
        case r of None \<Rightarrow> Inr None
        | Some (ds, len, rest) \<Rightarrow>
            if dropWhile isspace rest \<noteq> [] then Inr None
            else Inr (Some (replicate zeroes 0 @
                   map of_nat (dropWhile (\<lambda>d. d = 0) (rev (take len ds)))))))"

section \<open>Checksums and addresses\<close>

definition EncodeBase58Check :: "(bytes \<Rightarrow> bytes) \<Rightarrow> bytes \<Rightarrow> string outcome" where
  "EncodeBase58Check Hash vchIn = EncodeBase58 (vchIn @ take 4 (Hash vchIn))"

definition DecodeBase58Check :: "(bytes \<Rightarrow> bytes) \<Rightarrow> string \<Rightarrow> bytes option outcome" where
  "DecodeBase58Check Hash psz = bind_out (DecodeBase58 psz) (\<lambda>r.
     case r of None \<Rightarrow> Inr None
     | Some vch \<Rightarrow>
         if length vch < 4 then Inr None
         else let body = take (length vch - 4) vch in
              if take 4 (Hash body) \<noteq> drop (length vch - 4) vch then Inr None else Inr (Some body))"

record CBase58Data =
  vchVersion :: bytes
  vchData :: bytes

definition SetData :: "bytes \<Rightarrow> bytes \<Rightarrow> CBase58Data" where
  "SetData vchVersionIn pdata = \<lparr>vchVersion = vchVersionIn, vchData = pdata\<rparr>"

definition b58_SetString :: "(bytes \<Rightarrow> bytes) \<Rightarrow> string \<Rightarrow> nat \<Rightarrow> (bool \<times> CBase58Data) outcome" where
  "b58_SetString Hash psz nVersionBytes = bind_out (DecodeBase58Check Hash psz) (\<lambda>r.
     case r of None \<Rightarrow> Inr (False, SetData [] [])
     | Some vchTemp \<Rightarrow>
         if length vchTemp < nVersionBytes then Inr (False, SetData [] [])
         else Inr (True, SetData (take nVersionBytes vchTemp) (drop nVersionBytes vchTemp)))"

definition b58_ToString :: "(bytes \<Rightarrow> bytes) \<Rightarrow> CBase58Data \<Rightarrow> string outcome" where
  "b58_ToString Hash d = EncodeBase58Check Hash (vchVersion d @ vchData d)"

text \<open>The destinations of an address; the prefixes are the chain's \<^verbatim>\<open>PUBKEY_ADDRESS\<close> and \<^verbatim>\<open>SCRIPT_ADDRESS\<close>.\<close>

datatype CTxDestination = CNoDestination | CKeyID bytes | CScriptID bytes

record base58_prefixes =
  PUBKEY_ADDRESS :: bytes
  SCRIPT_ADDRESS :: bytes
  SECRET_KEY :: bytes

definition address_Set :: "base58_prefixes \<Rightarrow> CTxDestination \<Rightarrow> CBase58Data" where
  "address_Set pre dest = (case dest of CKeyID d \<Rightarrow> SetData (PUBKEY_ADDRESS pre) d
     | CScriptID d \<Rightarrow> SetData (SCRIPT_ADDRESS pre) d
     | CNoDestination \<Rightarrow> SetData [] [])"

definition address_IsValid :: "base58_prefixes \<Rightarrow> CBase58Data \<Rightarrow> bool" where
  "address_IsValid pre a \<longleftrightarrow> length (vchData a) = 20 \<and>
     (vchVersion a = PUBKEY_ADDRESS pre \<or> vchVersion a = SCRIPT_ADDRESS pre)"

definition address_Get :: "base58_prefixes \<Rightarrow> CBase58Data \<Rightarrow> CTxDestination" where
  "address_Get pre a =
     (if \<not> address_IsValid pre a then CNoDestination
      else if vchVersion a = PUBKEY_ADDRESS pre then CKeyID (vchData a)
      else if vchVersion a = SCRIPT_ADDRESS pre then CScriptID (vchData a)
      else CNoDestination)"

definition GetIndexKey :: "base58_prefixes \<Rightarrow> CBase58Data \<Rightarrow> (bytes \<times> int) option" where
  "GetIndexKey pre a =
     (if \<not> address_IsValid pre a then None
      else if vchVersion a = PUBKEY_ADDRESS pre then Some (take 20 (vchData a), 1)
      else if vchVersion a = SCRIPT_ADDRESS pre then Some (take 20 (vchData a), 2)
      else None)"

definition EncodeDestination :: "(bytes \<Rightarrow> bytes) \<Rightarrow> base58_prefixes \<Rightarrow> CTxDestination \<Rightarrow> string outcome" where
  "EncodeDestination Hash pre dest =
     (let addr = address_Set pre dest in
      if \<not> address_IsValid pre addr then Inr [] else b58_ToString Hash addr)"

definition DecodeDestination :: "(bytes \<Rightarrow> bytes) \<Rightarrow> base58_prefixes \<Rightarrow> string \<Rightarrow> CTxDestination outcome" where
  "DecodeDestination Hash pre str =
     bind_out (b58_SetString Hash str 1) (\<lambda>(_, a). Inr (address_Get pre a))"

definition IsValidDestinationString :: "(bytes \<Rightarrow> bytes) \<Rightarrow> base58_prefixes \<Rightarrow> string \<Rightarrow> bool outcome" where
  "IsValidDestinationString Hash pre str =
     bind_out (b58_SetString Hash str 1) (\<lambda>(_, a). Inr (address_IsValid pre a))"

text \<open>
  Secret keys: 32 bytes, and a byte 1 when the public key is compressed; \<open>fValid\<close> is \<^verbatim>\<open>CKey::IsValid\<close>.
\<close>

definition secret_SetKey :: "base58_prefixes \<Rightarrow> bool \<Rightarrow> bytes \<Rightarrow> bool \<Rightarrow> CBase58Data outcome" where
  "secret_SetKey pre fValid vchSecret fCompressed = assert_out fValid
     (Inr (SetData (SECRET_KEY pre) (if fCompressed then vchSecret @ [1] else vchSecret)))"

definition secret_GetKey :: "CBase58Data \<Rightarrow> (bytes \<times> bool) outcome" where
  "secret_GetKey s = assert_out (length (vchData s) \<ge> 32)
     (Inr (take 32 (vchData s), length (vchData s) > 32 \<and> vchData s ! 32 = 1))"

definition secret_IsValid :: "base58_prefixes \<Rightarrow> CBase58Data \<Rightarrow> bool" where
  "secret_IsValid pre s \<longleftrightarrow> (length (vchData s) = 32 \<or> length (vchData s) = 33 \<and> vchData s ! 32 = 1) \<and>
     vchVersion s = SECRET_KEY pre"

definition secret_SetString :: "(bytes \<Rightarrow> bytes) \<Rightarrow> base58_prefixes \<Rightarrow> string \<Rightarrow> (bool \<times> CBase58Data) outcome" where
  "secret_SetString Hash pre str =
     bind_out (b58_SetString Hash str 1) (\<lambda>(ok, s). Inr (ok \<and> secret_IsValid pre s, s))"

section \<open>Digit lists as numbers\<close>

text \<open>\<open>lval\<close> reads digits from the least significant on, \<open>hval\<close> from the most significant on.\<close>

fun lval :: "nat \<Rightarrow> nat list \<Rightarrow> nat" where
  "lval b [] = 0"
| "lval b (d # ds) = d + b * lval b ds"

definition hval :: "nat \<Rightarrow> nat list \<Rightarrow> nat" where
  "hval b xs = foldl (\<lambda>a x. a * b + x) 0 xs"

lemma lval_append: "lval b (xs @ ys) = lval b xs + b ^ length xs * lval b ys"
  by (induction xs) (simp_all add: algebra_simps)

lemma lval_zeros: "\<forall>d \<in> set ds. d = 0 \<Longrightarrow> lval b ds = 0"
  by (induction ds) simp_all

lemma lval_less: "\<forall>d \<in> set ds. d < b \<Longrightarrow> lval b ds < b ^ length ds"
proof (induction ds)
  case (Cons d ds)
  then have "lval b ds + 1 \<le> b ^ length ds" "d < b"
    by auto
  then have "b * (lval b ds + 1) \<le> b * b ^ length ds"
    by (intro mult_le_mono2)
  then show ?case
    using \<open>d < b\<close> by simp
qed simp

lemma hval_rev: "hval b (rev ds) = lval b ds"
proof (induction ds)
  case (Cons d ds)
  then show ?case by (simp add: hval_def)
qed (simp add: hval_def)

lemma hval_dropWhile: "hval b (dropWhile (\<lambda>d. d = 0) xs) = hval b xs"
  by (induction xs) (simp_all add: hval_def)

lemma hval_foldl: "foldl (\<lambda>a x. a * b + x) a xs = a * b ^ length xs + hval b xs"
proof (induction xs rule: rev_induct)
  case (snoc x xs)
  then show ?case by (simp add: hval_def algebra_simps)
qed (simp add: hval_def)

lemma hval_Cons: "hval b (x # xs) = x * b ^ length xs + hval b xs"
  using hval_foldl[of b x xs] by (simp add: hval_def)

lemma hval_less: "\<forall>d \<in> set xs. d < b \<Longrightarrow> hval b xs < b ^ length xs"
  using lval_less[of "rev xs" b] hval_rev[of b "rev xs"] by simp

text \<open>Without leading zeros the digits are determined by the number.\<close>

lemma lval_unique:
  assumes "\<forall>d \<in> set xs. d < b" "\<forall>d \<in> set ys. d < b" "xs \<noteq> [] \<longrightarrow> last xs \<noteq> 0" "ys \<noteq> [] \<longrightarrow> last ys \<noteq> 0"
    and "lval b xs = lval b ys"
  shows "xs = ys"
  using assms
proof (induction xs arbitrary: ys)
  case Nil
  show ?case
  proof (rule ccontr)
    assume "[] \<noteq> ys"
    then obtain zs where "ys = zs @ [last ys]" by (metis append_butlast_last_id)
    then have "lval b ys = lval b zs + b ^ length zs * last ys"
      by (metis lval_append lval.simps mult_0_right add_0_right)
    then show False
      using Nil.prems(2,4,5) \<open>[] \<noteq> ys\<close> by (cases "b = 0") (auto simp: \<open>[] \<noteq> ys\<close>[symmetric])
  qed
next
  case (Cons x xs)
  show ?case
  proof (cases ys)
    case Nil
    obtain zs z where z: "x # xs = zs @ [z]" by (metis append_butlast_last_id list.distinct(1))
    then have "lval b (x # xs) = lval b zs + b ^ length zs * z"
      by (simp add: lval_append)
    moreover have "z \<noteq> 0"
      using Cons.prems(3) z by (metis last_snoc list.distinct(1))
    moreover have "0 < b"
      using Cons.prems(1) by auto
    ultimately show ?thesis
      using Cons.prems(5) Nil by simp
  next
    case (Cons y zs)
    have e: "x + b * lval b xs = y + b * lval b zs" and lt: "x < b" "y < b"
      using Cons Cons.prems by simp_all
    then have "x = y"
      by (metis mod_mult_self2 mod_less)
    moreover have "lval b xs = lval b zs"
      using e lt \<open>x = y\<close> by simp
    then have "xs = zs"
      using Cons.IH[of zs] Cons.prems \<open>ys = y # zs\<close> by (auto split: if_splits)
    ultimately show ?thesis
      using \<open>ys = y # zs\<close> by simp
  qed
qed

lemma hval_unique:
  assumes "\<forall>d \<in> set xs. d < b" "\<forall>d \<in> set ys. d < b" "xs \<noteq> [] \<longrightarrow> hd xs \<noteq> 0" "ys \<noteq> [] \<longrightarrow> hd ys \<noteq> 0"
    and "hval b xs = hval b ys"
  shows "xs = ys"
proof -
  have "rev xs = rev ys"
    using assms hval_rev[of b "rev xs"] hval_rev[of b "rev ys"]
    by (intro lval_unique[of _ b]) (simp_all add: last_rev)
  then show ?thesis by simp
qed

section \<open>The conversion loops\<close>

lemma carry_loop_value:
  assumes "1 < b" "\<forall>d \<in> set ds. d < b" "\<forall>d \<in> set (drop (len - i) ds). d = 0"
    and "carry_loop b mul len i carry ds = (ds', c, j)"
  shows "lval b ds' + c * b ^ length ds = mul * lval b ds + carry \<and> length ds' = length ds \<and>
    (\<forall>d \<in> set ds'. d < b) \<and> i \<le> j \<and> j \<le> i + length ds \<and> (\<forall>d \<in> set (drop (j - i) ds'). d = 0)"
  using assms(2-4)
proof (induction ds arbitrary: i carry ds')
  case (Cons d ds)
  show ?case
  proof (cases "carry \<noteq> 0 \<or> i < len")
    case False
    then have "d = 0 \<and> (\<forall>d \<in> set ds. d = 0)"
      using Cons.prems(2) by simp
    then show ?thesis
      using False Cons.prems lval_zeros[of ds b] by auto
  next
    case True
    let ?s = "carry + mul * d"
    obtain es where es: "carry_loop b mul len (i + 1) (?s div b) ds = (es, c, j)" "ds' = (?s mod b) # es"
      using Cons.prems(3) True by (auto split: prod.splits)
    have z: "\<forall>d \<in> set (drop (len - (i + 1)) ds). d = 0"
    proof (cases "i < len")
      case True
      then show ?thesis
        using Cons.prems(2) by (simp add: Suc_diff_Suc drop_Cons')
    next
      case False
      then show ?thesis
        using Cons.prems(2) by simp
    qed
    have IH: "lval b es + c * b ^ length ds = mul * lval b ds + ?s div b" "length es = length ds"
        "\<forall>d \<in> set es. d < b" "i + 1 \<le> j" "j \<le> i + 1 + length ds" "\<forall>d \<in> set (drop (j - (i + 1)) es). d = 0"
      using Cons.IH[OF _ z es(1)] Cons.prems(1) by auto
    have "b * (lval b es + c * b ^ length ds) = b * (mul * lval b ds + ?s div b)"
      using IH(1) by simp
    moreover have "carry + mul * d = b * (?s div b) + ?s mod b"
      by (rule mult_div_mod_eq[symmetric])
    ultimately have "?s mod b + b * lval b es + c * (b * b ^ length ds) = mul * (d + b * lval b ds) + carry"
      by (simp only: distrib_left mult.left_commute mult.assoc)
    then show ?thesis
      using IH assms(1) es(2) by (auto simp: drop_Cons' Suc_diff_Suc)
  qed
qed auto

lemma carry_loop_fits:
  assumes "1 < b" "\<forall>d \<in> set ds. d < b" "\<forall>d \<in> set (drop len ds). d = 0" "mul * lval b ds + x < b ^ length ds"
  obtains ds' j where "carry_loop b mul len 0 x ds = (ds', 0, j)" "lval b ds' = mul * lval b ds + x"
    "length ds' = length ds" "\<forall>d \<in> set ds'. d < b" "\<forall>d \<in> set (drop j ds'). d = 0"
proof -
  obtain ds' c j where r: "carry_loop b mul len 0 x ds = (ds', c, j)"
    by (metis prod_cases3)
  note v = carry_loop_value[OF assms(1,2) _ r, simplified, OF assms(3)]
  have "c = 0"
  proof (rule ccontr)
    assume "c \<noteq> 0"
    then have "1 * b ^ length ds \<le> c * b ^ length ds"
      by (intro mult_le_mono1) simp
    then show False
      using v assms(4) by linarith
  qed
  then show thesis
    using that[of ds' j] r v by simp
qed

lemma convert_loop_value:
  assumes "1 < b" "\<forall>d \<in> set ds. d < b" "\<forall>d \<in> set (drop len ds). d = 0" "0 < mul"
    and "foldl (\<lambda>a x. a * mul + x) (lval b ds) xs < b ^ length ds"
  shows "\<exists>ds' len'. convert_loop b mul xs ds len = Inr (ds', len') \<and> (\<forall>d \<in> set ds'. d < b) \<and>
    (\<forall>d \<in> set (drop len' ds'). d = 0) \<and> lval b ds' = foldl (\<lambda>a x. a * mul + x) (lval b ds) xs"
  using assms(2,3,5)
proof (induction xs arbitrary: ds len)
  case (Cons x xs)
  let ?a = "lval b ds * mul + x"
  have "?a * 1 \<le> ?a * mul ^ length xs"
    using assms(4) by (intro mult_le_mono2) simp
  also have "\<dots> \<le> foldl (\<lambda>a x. a * mul + x) ?a xs"
    by (simp add: hval_foldl)
  finally have "mul * lval b ds + x < b ^ length ds"
    using Cons.prems(3) by (simp add: mult.commute)
  then obtain ds' j where r: "carry_loop b mul len 0 x ds = (ds', 0, j)" "lval b ds' = mul * lval b ds + x"
      "length ds' = length ds" "\<forall>d \<in> set ds'. d < b" "\<forall>d \<in> set (drop j ds'). d = 0"
    using carry_loop_fits[OF assms(1) Cons.prems(1,2)] by metis
  then show ?case
    using Cons.IH[OF r(4,5)] Cons.prems(3) by (simp add: mult.commute)
qed simp

section \<open>The vectors are large enough\<close>

lemma size_enough:
  fixes a b :: nat
  assumes "a ^ q \<le> b ^ p" "p * Q \<le> P * q" "0 < q" "0 < Q" "1 \<le> b"
  shows "a ^ n \<le> b ^ (n * P div Q + 1)"
proof -
  let ?m = "n * P div Q + 1"
  have "n * p * Q \<le> n * P * q"
    using assms(2) by (metis mult.assoc mult_le_mono2)
  also have "n * P \<le> ?m * Q"
    using assms(4) by (simp add: dividend_less_div_times less_imp_le)
  then have "n * P * q \<le> ?m * Q * q"
    by (rule mult_le_mono1)
  finally have "n * p * Q \<le> (?m * q) * Q"
    by (simp only: mult.assoc mult.commute[of q Q])
  then have le: "n * p \<le> ?m * q"
    using assms(4) by (rule mult_le_cancel2[THEN iffD1, THEN mp])
  have "(a ^ n) ^ q = (a ^ q) ^ n"
    by (simp add: mult.commute flip: power_mult)
  also have "\<dots> \<le> (b ^ p) ^ n"
    using assms(1) by (intro power_mono) simp_all
  also have "\<dots> = b ^ (n * p)"
    by (simp add: mult.commute flip: power_mult)
  also have "\<dots> \<le> b ^ (?m * q)"
    using le assms(5) by (intro power_increasing) simp_all
  finally have "(a ^ n) ^ q \<le> (b ^ ?m) ^ q"
    by (simp only: power_mult)
  then show ?thesis
    by (rule power_mono_iff[THEN iffD1, rotated 3]) (simp_all add: assms(3))
qed

lemma size_58: "(256 :: nat) ^ n \<le> 58 ^ (n * 138 div 100 + 1)"
  by (rule size_enough[of 256 8 58 11]) simp_all

lemma size_256: "(58 :: nat) ^ n \<le> 256 ^ (n * 733 div 1000 + 1)"
  by (rule size_enough[of 58 71 256 52]) simp_all

section \<open>Round trip\<close>

lemma dropWhile_canonical:
  "xs' = dropWhile (\<lambda>d. d = (0 :: nat)) xs \<Longrightarrow> xs' \<noteq> [] \<longrightarrow> hd xs' \<noteq> 0"
  using hd_dropWhile[of "\<lambda>d. d = 0" xs] by auto

text \<open>Digits above the counted length are zero, so they do not matter.\<close>

lemma hval_take:
  assumes "\<forall>d \<in> set (drop len ds). d = 0"
  shows "hval b (dropWhile (\<lambda>d. d = 0) (rev (take len ds))) = lval b ds"
proof -
  have "lval b ds = lval b (take len ds)"
    using lval_append[of b "take len ds" "drop len ds"] lval_zeros[OF assms, of b] by simp
  then show ?thesis
    by (simp only: hval_dropWhile hval_rev)
qed

definition digits58 :: "bytes \<Rightarrow> nat list" where
  "digits58 rest = (case convert_loop 58 256 (map unat rest) (replicate (length rest * 138 div 100 + 1) 0) 0 of
     Inr (ds, len) \<Rightarrow> dropWhile (\<lambda>d. d = 0) (rev (take len ds)) | Inl e \<Rightarrow> [])"

lemma unat_bytes: "\<forall>d \<in> set (map unat (v :: bytes)). d < 256"
  using unsigned_less[where ?'a = nat and ?'b = 8] by auto

lemma EncodeBase58_value:
  fixes v :: bytes
  defines "rest \<equiv> dropWhile (\<lambda>x. x = 0) v"
  shows "EncodeBase58 v = Inr (replicate (length (takeWhile (\<lambda>x. x = 0) v)) CHR ''1'' @ map (\<lambda>d. pszBase58 ! d) (digits58 rest))"
    and "\<forall>d \<in> set (digits58 rest). d < 58" "digits58 rest \<noteq> [] \<longrightarrow> hd (digits58 rest) \<noteq> 0"
    and "hval 58 (digits58 rest) = hval 256 (map unat rest)"
proof -
  let ?n = "length rest * 138 div 100 + 1"
  let ?z = "replicate ?n (0 :: nat)"
  have z0: "lval 58 ?z = 0"
    by (rule lval_zeros) simp
  have "hval 256 (map unat rest) < 58 ^ ?n"
    using hval_less[OF unat_bytes, of rest] size_58[of "length rest"] by simp
  then have f: "foldl (\<lambda>a x. a * 256 + x) (lval 58 ?z) (map unat rest) < 58 ^ length ?z"
    by (simp only: z0 hval_def length_replicate)
  obtain ds len where c: "convert_loop 58 256 (map unat rest) ?z 0 = Inr (ds, len)" "\<forall>d \<in> set ds. d < 58"
      "\<forall>d \<in> set (drop len ds). d = 0" "lval 58 ds = foldl (\<lambda>a x. a * 256 + x) (lval 58 ?z) (map unat rest)"
    using convert_loop_value[OF _ _ _ _ f, of 0] by (auto simp del: replicate_Suc)
  from c(1) have d: "digits58 rest = dropWhile (\<lambda>d. d = 0) (rev (take len ds))"
    by (simp only: digits58_def sum.case prod.case)
  show "EncodeBase58 v = Inr (replicate (length (takeWhile (\<lambda>x. x = 0) v)) CHR ''1'' @ map (\<lambda>d. pszBase58 ! d) (digits58 rest))"
    using c(1) d by (simp only: EncodeBase58_def rest_def Let_def bind_out.simps prod.case)
  show "digits58 rest \<noteq> [] \<longrightarrow> hd (digits58 rest) \<noteq> 0"
    by (rule dropWhile_canonical[OF d])
  show "\<forall>d \<in> set (digits58 rest). d < 58"
    using c(2) unfolding d by (auto dest!: set_dropWhileD in_set_takeD)
  show "hval 58 (digits58 rest) = hval 256 (map unat rest)"
    using hval_take[OF c(3), of 58] c(4) by (simp only: d z0 hval_def)
qed

lemma base58_digit:
  assumes "d < 58"
  shows "base58_index (pszBase58 ! d) = Some d" "\<not> isspace (pszBase58 ! d)" "pszBase58 ! d = CHR ''1'' \<longleftrightarrow> d = 0"
proof -
  have "\<forall>d < 58. base58_index (pszBase58 ! d) = Some d \<and> \<not> isspace (pszBase58 ! d) \<and> (pszBase58 ! d = CHR ''1'' \<longleftrightarrow> d = 0)"
    by code_simp
  then show "base58_index (pszBase58 ! d) = Some d" "\<not> isspace (pszBase58 ! d)" "pszBase58 ! d = CHR ''1'' \<longleftrightarrow> d = 0"
    using assms by blast+
qed

lemma decode58_loop_digits:
  assumes "\<forall>d \<in> set xs. d < 58"
  shows "decode58_loop (map (\<lambda>d. pszBase58 ! d) xs) ds len =
    (case convert_loop 256 58 xs ds len of Inl e \<Rightarrow> Inl e | Inr (ds', len') \<Rightarrow> Inr (Some (ds', len', [])))"
  using assms
proof (induction xs arbitrary: ds len)
  case (Cons x xs)
  then show ?case
    using base58_digit[of x] by (auto split: prod.splits)
qed simp

lemma strip_replicate:
  assumes "ys \<noteq> [] \<longrightarrow> hd ys \<noteq> x"
  shows "takeWhile (\<lambda>c. c = x) (replicate k x @ ys) = replicate k x"
    "dropWhile (\<lambda>c. c = x) (replicate k x @ ys) = ys"
proof -
  have "takeWhile (\<lambda>c. c = x) ys = []" "dropWhile (\<lambda>c. c = x) ys = ys"
    using assms by (cases ys; simp)+
  then show "takeWhile (\<lambda>c. c = x) (replicate k x @ ys) = replicate k x"
      "dropWhile (\<lambda>c. c = x) (replicate k x @ ys) = ys"
    by (induction k) simp_all
qed

lemma base58_roundtrip:
  "\<exists>s. EncodeBase58 v = Inr s \<and> DecodeBase58 s = Inr (Some v)"
proof -
  define rest where "rest = dropWhile (\<lambda>x. x = 0) v"
  define k where "k = length (takeWhile (\<lambda>x. x = 0) v)"
  let ?xs = "digits58 rest"
  note e = EncodeBase58_value[of v, folded rest_def k_def]
  let ?s = "replicate k CHR ''1'' @ map (\<lambda>d. pszBase58 ! d) ?xs"
  have v: "v = replicate k 0 @ rest"
  proof -
    have "takeWhile (\<lambda>x. x = 0) v = replicate k 0"
      unfolding k_def by (rule replicate_eqI) (auto dest: set_takeWhileD)
    then show ?thesis
      using takeWhile_dropWhile_id[of "\<lambda>x. x = 0" v] by (simp add: rest_def)
  qed
  have sp: "\<not> isspace CHR ''1''" by code_simp
  have ns: "dropWhile isspace ?s = ?s"
    using sp e(2) base58_digit(2) by (cases k; cases ?xs) auto
  have h: "?xs \<noteq> [] \<longrightarrow> hd (map (\<lambda>d. pszBase58 ! d) ?xs) \<noteq> CHR ''1''"
    using e(2,3) base58_digit(3)[of "hd ?xs"] by (cases ?xs) auto
  have tw: "takeWhile (\<lambda>c. c = CHR ''1'') ?s = replicate k CHR ''1''"
    "dropWhile (\<lambda>c. c = CHR ''1'') ?s = map (\<lambda>d. pszBase58 ! d) ?xs"
    using strip_replicate[of "map (\<lambda>d. pszBase58 ! d) ?xs" "CHR ''1''" k] h by simp_all
  let ?n = "length ?xs * 733 div 1000 + 1"
  let ?z = "replicate ?n (0 :: nat)"
  have z0: "lval 256 ?z = 0"
    by (rule lval_zeros) simp
  have "hval 58 ?xs < 256 ^ ?n"
    using hval_less[OF e(2)] size_256[of "length ?xs"] by simp
  then have f: "foldl (\<lambda>a x. a * 58 + x) (lval 256 ?z) ?xs < 256 ^ length ?z"
    by (simp only: z0 hval_def length_replicate)
  obtain ds len where c: "convert_loop 256 58 ?xs ?z 0 = Inr (ds, len)" "\<forall>d \<in> set ds. d < 256"
      "\<forall>d \<in> set (drop len ds). d = 0" "lval 256 ds = foldl (\<lambda>a x. a * 58 + x) (lval 256 ?z) ?xs"
    using convert_loop_value[OF _ _ _ _ f, of 0] by (auto simp del: replicate_Suc)
  let ?b = "dropWhile (\<lambda>d. d = 0) (rev (take len ds))"
  have "hval 256 ?b = hval 256 (map unat rest)"
    using hval_take[OF c(3), of 256] c(4) e(4) by (simp only: z0 hval_def)
  moreover have "\<forall>d \<in> set ?b. d < 256"
    using c(2) by (auto dest!: set_dropWhileD in_set_takeD)
  moreover have "map unat rest \<noteq> [] \<longrightarrow> hd (map unat rest) \<noteq> 0"
    using hd_dropWhile[of "\<lambda>x. x = 0" v] by (auto simp: rest_def hd_map unat_eq_0)
  ultimately have "?b = map unat rest"
    using dropWhile_canonical[OF refl] unat_bytes by (intro hval_unique[of _ 256]) blast+
  then have b: "map of_nat ?b = rest"
    by (simp add: comp_def)
  have "decode58_loop (map (\<lambda>d. pszBase58 ! d) ?xs) ?z 0 = Inr (Some (ds, len, []))"
    unfolding decode58_loop_digits[OF e(2)] c(1) by simp
  then have "DecodeBase58 ?s = Inr (Some (replicate k 0 @ rest))"
    unfolding DecodeBase58_def Let_def ns tw length_map using b by (simp del: replicate_Suc)
  then show ?thesis
    using e(1) v by auto
qed

section \<open>Addresses\<close>

lemma base58check_roundtrip:
  assumes "\<forall>x. length (Hash x) = 32"
  shows "\<exists>s. EncodeBase58Check Hash v = Inr s \<and> DecodeBase58Check Hash s = Inr (Some v)"
proof -
  obtain s where s: "EncodeBase58 (v @ take 4 (Hash v)) = Inr s" "DecodeBase58 s = Inr (Some (v @ take 4 (Hash v)))"
    using base58_roundtrip by blast
  have "length (take 4 (Hash v)) = 4"
    using assms by simp
  then show ?thesis
    using s by (simp add: EncodeBase58Check_def DecodeBase58Check_def Let_def)
qed

lemma b58data_roundtrip:
  assumes "\<forall>x. length (Hash x) = 32"
  shows "\<exists>s. b58_ToString Hash d = Inr s \<and> b58_SetString Hash s (length (vchVersion d)) = Inr (True, d)"
proof -
  obtain s where "EncodeBase58Check Hash (vchVersion d @ vchData d) = Inr s"
      "DecodeBase58Check Hash s = Inr (Some (vchVersion d @ vchData d))"
    using base58check_roundtrip[OF assms] by blast
  then show ?thesis
    by (simp add: b58_ToString_def b58_SetString_def SetData_def)
qed

definition valid_dest :: "CTxDestination \<Rightarrow> bool" where
  "valid_dest dest \<longleftrightarrow> (case dest of CNoDestination \<Rightarrow> False | CKeyID d \<Rightarrow> length d = 20 | CScriptID d \<Rightarrow> length d = 20)"

text \<open>
  C33. Base 58 and addresses: \<^verbatim>\<open>EncodeBase58\<close> never fails its assertion and \<^verbatim>\<open>DecodeBase58\<close> reads back every
  list of bytes, leading zeros included. For any hash of 32 bytes and one-byte prefixes that differ, the
  address printed for a key or script destination is valid and decodes to that destination.
\<close>

theorem address_roundtrip:
  assumes "\<forall>x. length (Hash x) = 32" "length (PUBKEY_ADDRESS pre) = 1" "length (SCRIPT_ADDRESS pre) = 1"
    and "PUBKEY_ADDRESS pre \<noteq> SCRIPT_ADDRESS pre" "valid_dest dest"
  shows "(\<exists>s. EncodeBase58 v = Inr s \<and> DecodeBase58 s = Inr (Some v)) \<and>
    (\<exists>s. EncodeDestination Hash pre dest = Inr s \<and> DecodeDestination Hash pre s = Inr dest \<and>
       IsValidDestinationString Hash pre s = Inr True)"
proof -
  let ?a = "address_Set pre dest"
  have a: "address_IsValid pre ?a" "length (vchVersion ?a) = 1" "address_Get pre ?a = dest"
    using assms(2-5) by (cases dest; simp add: valid_dest_def address_Set_def SetData_def address_IsValid_def
        address_Get_def)+
  obtain s where "b58_ToString Hash ?a = Inr s" "b58_SetString Hash s 1 = Inr (True, ?a)"
    using b58data_roundtrip[OF assms(1), of ?a] a(2) by auto
  then have "EncodeDestination Hash pre dest = Inr s \<and> DecodeDestination Hash pre s = Inr dest \<and>
      IsValidDestinationString Hash pre s = Inr True"
    using a by (simp add: EncodeDestination_def DecodeDestination_def IsValidDestinationString_def Let_def)
  then show ?thesis
    using base58_roundtrip by blast
qed

definition main_prefixes :: base58_prefixes where
  "main_prefixes = \<lparr>PUBKEY_ADDRESS = [28], SCRIPT_ADDRESS = [122], SECRET_KEY = [112]\<rparr>"

theorem address_roundtrip_witness:
  "\<exists>s. EncodeDestination (\<lambda>x. replicate 32 7) main_prefixes (CKeyID (replicate 20 1)) = Inr s \<and>
     DecodeDestination (\<lambda>x. replicate 32 7) main_prefixes s = Inr (CKeyID (replicate 20 1))"
  using address_roundtrip[of "\<lambda>x. replicate 32 7" main_prefixes "CKeyID (replicate 20 1)" "[]"]
  by (auto simp: main_prefixes_def valid_dest_def)

text \<open>Secret keys come back with their compression flag.\<close>

lemma secret_roundtrip:
  assumes "length k = 32" "secret_SetKey pre True k c = Inr s"
  shows "secret_IsValid pre s \<and> secret_GetKey s = Inr (k, c)"
  using assms by (cases c) (auto simp: secret_SetKey_def SetData_def secret_IsValid_def secret_GetKey_def nth_append)

end
