(* ===== verification/Serialize.thy ===== *)
theory Serialize
  imports Uint256
begin

unbundle bit_operations_syntax

text \<open>
  \<^verbatim>\<open>serialize.h\<close> over byte lists: writing appends bytes, reading consumes a prefix or throws. Integers in
  both byte orders, compact sizes, variable-length integers, and vectors read in batches. The locale
  \<open>codec\<close> is the contract every pair of \<^verbatim>\<open>Serialize\<close> and \<^verbatim>\<open>Unserialize\<close> keeps: what was written is read
  back, whatever follows it in the stream.
\<close>

section \<open>Streams\<close>

type_synonym 'a reader = "bytes \<Rightarrow> ('a \<times> bytes) outcome"

text \<open>\<^verbatim>\<open>CDataStream::read\<close>: the unread part of the buffer is the rest of the list.\<close>

definition stream_read :: "nat \<Rightarrow> bytes reader" where
  "stream_read nSize s =
     (if nSize > length s then Inl (Throw ''CDataStream::read(): end of data'')
      else Inr (take nSize s, drop nSize s))"

definition map_read :: "('a \<Rightarrow> 'b) \<Rightarrow> 'a reader \<Rightarrow> 'b reader" where
  "map_read f r s = bind_out (r s) (\<lambda>(a, s'). Inr (f a, s'))"

definition bind_read :: "'a reader \<Rightarrow> ('a \<Rightarrow> 'b reader) \<Rightarrow> 'b reader" where
  "bind_read r f s = bind_out (r s) (\<lambda>(a, s'). f a s')"

section \<open>Integers\<close>

text \<open>The bytes of a register in little-endian order, and the register they make.\<close>

definition le_bytes :: "nat \<Rightarrow> 'a :: len word \<Rightarrow> bytes" where
  "le_bytes k w = map (\<lambda>i. ucast (drop_bit (8 * i) w)) [0..<k]"

fun le_word :: "bytes \<Rightarrow> 'a :: len word" where
  "le_word [] = 0"
| "le_word (b # bs) = ucast b OR push_bit 8 (le_word bs)"

definition ReadLE16 :: "bytes \<Rightarrow> u16" where "ReadLE16 p = le_word (take 2 p)"
definition ReadLE32 :: "bytes \<Rightarrow> u32" where "ReadLE32 p = le_word (take 4 p)"
definition WriteLE16 :: "u16 \<Rightarrow> bytes" where "WriteLE16 x = le_bytes 2 x"
definition WriteLE32 :: "u32 \<Rightarrow> bytes" where "WriteLE32 x = le_bytes 4 x"
definition WriteLE64 :: "u64 \<Rightarrow> bytes" where "WriteLE64 x = le_bytes 8 x"
definition ReadBE32 :: "bytes \<Rightarrow> u32" where "ReadBE32 p = le_word (rev (take 4 p))"
definition ReadBE64 :: "bytes \<Rightarrow> u64" where "ReadBE64 p = le_word (rev (take 8 p))"
definition WriteBE32 :: "u32 \<Rightarrow> bytes" where "WriteBE32 x = rev (le_bytes 4 x)"
definition WriteBE64 :: "u64 \<Rightarrow> bytes" where "WriteBE64 x = rev (le_bytes 8 x)"

definition ser_writedata8 :: "u8 \<Rightarrow> bytes" where "ser_writedata8 obj = [obj]"
definition ser_writedata16 :: "u16 \<Rightarrow> bytes" where "ser_writedata16 obj = le_bytes 2 obj"
definition ser_writedata32 :: "u32 \<Rightarrow> bytes" where "ser_writedata32 obj = le_bytes 4 obj"
definition ser_writedata32be :: "u32 \<Rightarrow> bytes" where "ser_writedata32be obj = rev (le_bytes 4 obj)"
definition ser_writedata64 :: "u64 \<Rightarrow> bytes" where "ser_writedata64 obj = le_bytes 8 obj"

definition ser_readdata8 :: "u8 reader" where "ser_readdata8 = map_read hd (stream_read 1)"
definition ser_readdata16 :: "u16 reader" where "ser_readdata16 = map_read le_word (stream_read 2)"
definition ser_readdata32 :: "u32 reader" where "ser_readdata32 = map_read le_word (stream_read 4)"
definition ser_readdata32be :: "u32 reader" where
  "ser_readdata32be = map_read (\<lambda>b. le_word (rev b)) (stream_read 4)"
definition ser_readdata64 :: "u64 reader" where "ser_readdata64 = map_read le_word (stream_read 8)"

text \<open>Signed integers are written and read through the unsigned register of their width.\<close>

definition ser_int32 :: "int \<Rightarrow> bytes" where "ser_int32 a = ser_writedata32 (word_of_int a)"
definition ser_int64 :: "int \<Rightarrow> bytes" where "ser_int64 a = ser_writedata64 (word_of_int a)"
definition unser_int32 :: "int reader" where "unser_int32 = map_read sint ser_readdata32"
definition unser_int64 :: "int reader" where "unser_int64 = map_read sint ser_readdata64"

definition ser_bool :: "bool \<Rightarrow> bytes" where "ser_bool a = ser_writedata8 (if a then 1 else 0)"
definition unser_bool :: "bool reader" where "unser_bool = map_read (\<lambda>f. f \<noteq> 0) ser_readdata8"

section \<open>Compact sizes\<close>

definition MAX_SIZE :: u64 where "MAX_SIZE = 0x02000000"

definition GetSizeOfCompactSize :: "u64 \<Rightarrow> nat" where
  "GetSizeOfCompactSize nSize =
     (if nSize < 253 then 1 else if nSize \<le> 0xFFFF then 1 + 2
      else if nSize \<le> 0xFFFFFFFF then 1 + 4 else 1 + 8)"

definition WriteCompactSize :: "u64 \<Rightarrow> bytes" where
  "WriteCompactSize nSize =
     (if nSize < 253 then ser_writedata8 (ucast nSize)
      else if nSize \<le> 0xFFFF then ser_writedata8 253 @ ser_writedata16 (ucast nSize)
      else if nSize \<le> 0xFFFFFFFF then ser_writedata8 254 @ ser_writedata32 (ucast nSize)
      else ser_writedata8 255 @ ser_writedata64 nSize)"

definition non_canonical :: fault where
  "non_canonical = Throw ''non-canonical ReadCompactSize()''"

definition size_checked :: "u64 \<Rightarrow> u64 reader" where
  "size_checked nSizeRet s =
     (if nSizeRet > MAX_SIZE then Inl (Throw ''ReadCompactSize(): size too large'')
      else Inr (nSizeRet, s))"

definition ReadCompactSize :: "u64 reader" where
  "ReadCompactSize =
     bind_read ser_readdata8 (\<lambda>chSize.
       if chSize < 253 then size_checked (ucast chSize)
       else if chSize = 253 then
         bind_read ser_readdata16 (\<lambda>v. let nSizeRet = ucast v in
           if nSizeRet < 253 then (\<lambda>_. Inl non_canonical) else size_checked nSizeRet)
       else if chSize = 254 then
         bind_read ser_readdata32 (\<lambda>v. let nSizeRet = ucast v in
           if nSizeRet < 0x10000 then (\<lambda>_. Inl non_canonical) else size_checked nSizeRet)
       else
         bind_read ser_readdata64 (\<lambda>nSizeRet.
           if nSizeRet < 0x100000000 then (\<lambda>_. Inl non_canonical) else size_checked nSizeRet))"

section \<open>Variable-length integers\<close>

text \<open>
  The digits of \<open>WriteVarInt\<close> from the last one to the first; the array they are collected in has
  \<open>(8 * sizeof(n) + 6) / 7\<close> entries.
\<close>

lemma varint_step_less: "\<not> n \<le> 0x7F \<Longrightarrow> unat (drop_bit 7 n - 1 :: u64) < unat n"
proof -
  assume "\<not> n \<le> 0x7F"
  then have n: "127 < unat n"
    by (simp add: word_le_nat_alt)
  have d: "unat (drop_bit 7 n) = unat n div 128"
    by (simp add: unat_drop_bit_div)
  have "unat (drop_bit 7 n - 1) \<le> unat (drop_bit 7 n)"
    using n d by (subst unat_sub) (auto simp: word_le_nat_alt)
  also have "\<dots> < unat n" using n d by simp
  finally show ?thesis .
qed

function varint_digits :: "bool \<Rightarrow> u64 \<Rightarrow> bytes" where
  "varint_digits more n =
     (let d = (ucast n AND 0x7F) OR (if more then 0x80 else 0x00) in
      if n \<le> 0x7F then [d] else d # varint_digits True (drop_bit 7 n - 1))"
  by auto
termination by (relation "measure (\<lambda>(_, n). unat n)") (simp_all add: varint_step_less)

declare varint_digits.simps [simp del]

definition WriteVarInt :: "u64 \<Rightarrow> bytes" where
  "WriteVarInt n = rev (varint_digits False n)"

function GetSizeOfVarInt :: "u64 \<Rightarrow> nat" where
  "GetSizeOfVarInt n = (if n \<le> 0x7F then 1 else 1 + GetSizeOfVarInt (drop_bit 7 n - 1))"
  by auto
termination by (relation "measure unat") (simp_all add: varint_step_less)

declare GetSizeOfVarInt.simps [simp del]

text \<open>\<open>ReadVarInt<Stream, I>\<close> for an unsigned type with the given maximum, the first argument.\<close>

fun read_var_int :: "u64 \<Rightarrow> u64 \<Rightarrow> u64 reader" where
  "read_var_int imax n [] = Inl (Throw ''CDataStream::read(): end of data'')"
| "read_var_int imax n (chData # s) =
     (if n > drop_bit 7 imax then Inl (Throw ''ReadVarInt(): size too large'')
      else let n = push_bit 7 n OR ucast (chData AND 0x7F) in
        if chData AND 0x80 \<noteq> 0 then
          (if n = imax then Inl (Throw ''ReadVarInt(): size too large'')
           else read_var_int imax (n + 1) s)
        else Inr (n, s))"

definition ReadVarInt :: "u64 \<Rightarrow> u64 reader" where
  "ReadVarInt imax = read_var_int imax 0"

section \<open>Vectors, strings and pairs\<close>

text \<open>
  Sizes of the steps in which \<open>Unserialize_impl\<close> grows a vector of \<open>n\<close> elements, at most \<open>step\<close> at a
  time.
\<close>

function batches :: "nat \<Rightarrow> nat \<Rightarrow> nat list" where
  "batches step n =
     (if n = 0 \<or> step = 0 then [] else min n step # batches step (n - min n step))"
  by auto
termination by (relation "measure snd") auto

declare batches.simps [simp del]

definition ser_bytes :: "bytes \<Rightarrow> bytes" where
  "ser_bytes v = WriteCompactSize (of_nat (length v)) @ v"

fun read_blocks :: "nat list \<Rightarrow> bytes reader" where
  "read_blocks [] s = Inr ([], s)"
| "read_blocks (blk # ks) s =
     bind_out (stream_read blk s) (\<lambda>(b, s). bind_out (read_blocks ks s) (\<lambda>(v, s). Inr (b @ v, s)))"

definition unser_bytes :: "bytes reader" where
  "unser_bytes = bind_read ReadCompactSize (\<lambda>nSize. read_blocks (batches 5000000 (unat nSize)))"

definition ser_vector :: "('a \<Rightarrow> bytes) \<Rightarrow> 'a list \<Rightarrow> bytes" where
  "ser_vector ser v = WriteCompactSize (of_nat (length v)) @ concat (map ser v)"

fun read_items :: "nat \<Rightarrow> 'a reader \<Rightarrow> 'a list reader" where
  "read_items 0 unser s = Inr ([], s)"
| "read_items (Suc k) unser s =
     bind_out (unser s) (\<lambda>(a, s). bind_out (read_items k unser s) (\<lambda>(v, s). Inr (a # v, s)))"

fun read_batches :: "nat list \<Rightarrow> 'a reader \<Rightarrow> 'a list reader" where
  "read_batches [] unser s = Inr ([], s)"
| "read_batches (k # ks) unser s =
     bind_out (read_items k unser s)
       (\<lambda>(a, s). bind_out (read_batches ks unser s) (\<lambda>(v, s). Inr (a @ v, s)))"

text \<open>\<open>sz\<close> is \<^verbatim>\<open>sizeof(T)\<close>.\<close>

definition unser_vector :: "nat \<Rightarrow> 'a reader \<Rightarrow> 'a list reader" where
  "unser_vector sz unser =
     bind_read ReadCompactSize
       (\<lambda>nSize. read_batches (batches (5000000 div sz) (unat nSize)) unser)"

definition ser_string :: "string \<Rightarrow> bytes" where
  "ser_string str = WriteCompactSize (of_nat (length str)) @ map of_char str"

definition unser_string :: "string reader" where
  "unser_string =
     bind_read ReadCompactSize (\<lambda>nSize. map_read (map (\<lambda>b. char_of (unat b))) (stream_read (unat nSize)))"

definition unser_limited_string :: "nat \<Rightarrow> string reader" where
  "unser_limited_string Limit =
     bind_read ReadCompactSize (\<lambda>size.
       if unat size > Limit then (\<lambda>_. Inl (Throw ''String length limit exceeded''))
       else map_read (map (\<lambda>b. char_of (unat b))) (stream_read (unat size)))"

definition ser_pair :: "('a \<Rightarrow> bytes) \<Rightarrow> ('b \<Rightarrow> bytes) \<Rightarrow> 'a \<times> 'b \<Rightarrow> bytes" where
  "ser_pair ser1 ser2 item = ser1 (fst item) @ ser2 (snd item)"

definition unser_pair :: "'a reader \<Rightarrow> 'b reader \<Rightarrow> ('a \<times> 'b) reader" where
  "unser_pair unser1 unser2 = bind_read unser1 (\<lambda>a. map_read (Pair a) unser2)"

text \<open>\<open>base_blob\<close>: the raw bytes of a fixed-width value.\<close>

definition ser_blob :: "base_blob \<Rightarrow> bytes" where "ser_blob b = b"
definition unser_blob :: "nat \<Rightarrow> base_blob reader" where "unser_blob width = stream_read width"

section \<open>The contract of a serialized type\<close>

lemma stream_read_append [simp]: "length b = k \<Longrightarrow> stream_read k (b @ s) = Inr (b, s)"
  by (auto simp: stream_read_def)

lemma map_read_Inr: "r s = Inr (a, s') \<Longrightarrow> map_read f r s = Inr (f a, s')"
  by (simp add: map_read_def)

lemma bind_read_Inr: "r s = Inr (a, s') \<Longrightarrow> bind_read r f s = f a s'"
  by (simp add: bind_read_def)

text \<open>
  A value that meets \<open>ok\<close> is read back from what was written, and exactly the written bytes are
  consumed.
\<close>

locale codec =
  fixes ser :: "'a \<Rightarrow> bytes" and unser :: "'a reader" and ok :: "'a \<Rightarrow> bool"
  assumes unser_ser: "ok a \<Longrightarrow> unser (ser a @ s) = Inr (a, s)"
begin

lemma ser_prefix_free:
  assumes "ok a" and "ok b" and "ser a @ s = ser b @ t"
  shows "a = b \<and> s = t"
  using unser_ser [OF assms(1), of s, unfolded assms(3)] unser_ser [OF assms(2), of t] by simp

lemma ser_inj: "ok a \<Longrightarrow> ok b \<Longrightarrow> ser a = ser b \<Longrightarrow> a = b"
  using ser_prefix_free [of a b "[]" "[]"] by simp

lemma read_items_ser:
  "list_all ok v \<Longrightarrow> read_items (length v) unser (concat (map ser v) @ s) = Inr (v, s)"
  by (induction v) (simp_all add: unser_ser)

lemma read_batches_ser:
  "list_all ok v \<Longrightarrow> length v = sum_list ks \<Longrightarrow>
   read_batches ks unser (concat (map ser v) @ s) = Inr (v, s)"
proof (induction ks arbitrary: v)
  case Nil
  then show ?case by simp
next
  case (Cons k ks)
  define a where "a = take k v"
  define b where "b = drop k v"
  have v: "v = a @ b" and l: "length a = k" "length b = sum_list ks"
    using Cons.prems(2) by (simp_all add: a_def b_def)
  have "list_all ok a" and "list_all ok b"
    using Cons.prems(1) by (simp_all add: v)
  then show ?case
    using Cons.IH [of b] l read_items_ser [of a "concat (map ser b) @ s"] by (simp add: v)
qed

lemma map_read_ser: "ok a \<Longrightarrow> map_read f unser (ser a @ s) = Inr (f a, s)"
  by (simp add: map_read_def unser_ser)

lemma bind_read_ser: "ok a \<Longrightarrow> bind_read unser f (ser a @ s) = f a s"
  by (simp add: bind_read_def unser_ser)

end

lemma sum_batches: "0 < step \<Longrightarrow> sum_list (batches step n) = n"
proof (induction step n rule: batches.induct)
  case (1 step n)
  then show ?case by (subst batches.simps) auto
qed

section \<open>Integers\<close>

lemma le_word_bits:
  "bit (le_word bs :: 'a :: len word) i \<longleftrightarrow> i < LENGTH('a) \<and> i div 8 < length bs \<and> bit (bs ! (i div 8)) (i mod 8)"
proof (induction bs arbitrary: i)
  case Nil
  then show ?case by simp
next
  case (Cons b bs)
  show ?case
  proof (cases "i < 8")
    case True
    then show ?thesis
      by (auto simp: bit_simps dest: bit_imp_le_length)
  next
    case False
    then obtain j where j: "i = j + 8"
      by (metis add.commute le_iff_add not_less)
    have "\<not> bit b (j + 8)"
      using bit_imp_le_length [of b "j + 8"] by auto
    moreover have "(j + 8) div 8 = Suc (j div 8)"
      by simp
    ultimately show ?thesis
      by (auto simp: j bit_simps Cons.IH simp del: div_add_self2)
  qed
qed

lemma le_word_bytes:
  assumes "LENGTH('a) = 8 * k"
  shows "le_word (le_bytes k (w :: 'a :: len word)) = w"
proof (rule bit_word_eqI)
  fix i
  assume i: "i < LENGTH('a)"
  then have "i div 8 < k"
    using assms by simp
  then show "bit (le_word (le_bytes k w) :: 'a word) i \<longleftrightarrow> bit w i"
    using i by (simp add: le_word_bits le_bytes_def bit_simps)
qed

lemma length_le_bytes [simp]: "length (le_bytes k w) = k"
  by (simp add: le_bytes_def)

interpretation u8: codec ser_writedata8 ser_readdata8 "\<lambda>_. True"
  by unfold_locales (simp add: ser_writedata8_def ser_readdata8_def map_read_def stream_read_def)

interpretation u16: codec ser_writedata16 ser_readdata16 "\<lambda>_. True"
  by unfold_locales (simp add: ser_writedata16_def ser_readdata16_def map_read_def le_word_bytes)

interpretation u32: codec ser_writedata32 ser_readdata32 "\<lambda>_. True"
  by unfold_locales (simp add: ser_writedata32_def ser_readdata32_def map_read_def le_word_bytes)

interpretation u32be: codec ser_writedata32be ser_readdata32be "\<lambda>_. True"
  by unfold_locales (simp add: ser_writedata32be_def ser_readdata32be_def map_read_def le_word_bytes)

interpretation u64: codec ser_writedata64 ser_readdata64 "\<lambda>_. True"
  by unfold_locales (simp add: ser_writedata64_def ser_readdata64_def map_read_def le_word_bytes)

definition in_int32 :: "int \<Rightarrow> bool" where
  "in_int32 x \<longleftrightarrow> - (2 ^ 31) \<le> x \<and> x < 2 ^ 31"

lemma sint_word_of_int32: "in_int32 a \<Longrightarrow> sint (word_of_int a :: u32) = a"
  by (simp add: in_int32_def sint_sbintrunc' signed_take_bit_int_eq_self)

lemma sint_word_of_int64: "in_int64 a \<Longrightarrow> sint (word_of_int a :: u64) = a"
  by (simp add: in_int64_def int64_min_def int64_max_def sint_sbintrunc' signed_take_bit_int_eq_self)

interpretation int32: codec ser_int32 unser_int32 in_int32
  by unfold_locales (simp add: ser_int32_def unser_int32_def u32.map_read_ser sint_word_of_int32)

interpretation int64: codec ser_int64 unser_int64 in_int64
  by unfold_locales (simp add: ser_int64_def unser_int64_def u64.map_read_ser sint_word_of_int64)

interpretation bool: codec ser_bool unser_bool "\<lambda>_. True"
  by unfold_locales (simp add: ser_bool_def unser_bool_def u8.map_read_ser)

interpretation blob: codec ser_blob "unser_blob width" "\<lambda>b. length b = width" for width
  by unfold_locales (simp add: ser_blob_def unser_blob_def)

section \<open>Sizes\<close>

lemma ucast_down_up:
  fixes w :: "'a :: len word"
  assumes "unat w < 2 ^ LENGTH('b :: len)"
  shows "ucast (ucast w :: 'b word) = w"
  using assms by (simp add: word_unat_eq_iff unsigned_ucast_eq unsigned_take_bit_eq take_bit_nat_eq_self)

lemma unat_ucast_small:
  fixes w :: "'a :: len word"
  assumes "unat w < 2 ^ LENGTH('b :: len)"
  shows "unat (ucast w :: 'b word) = unat w"
  using assms by (simp add: unsigned_ucast_eq unsigned_take_bit_eq take_bit_nat_eq_self)

lemma read_size:
  assumes "n \<le> MAX_SIZE"
  shows "size_checked n s = Inr (n, s)"
  using assms by (simp add: size_checked_def)

interpretation compact: codec WriteCompactSize ReadCompactSize "\<lambda>n. n \<le> MAX_SIZE"
proof
  fix n :: u64 and s
  assume n: "n \<le> MAX_SIZE"
  consider "n < 253" | "253 \<le> n" "n \<le> 0xFFFF" | "0xFFFF < n" "n \<le> 0xFFFFFFFF"
    using n by (force simp: MAX_SIZE_def word_less_nat_alt word_le_nat_alt)
  then show "ReadCompactSize (WriteCompactSize n @ s) = Inr (n, s)"
  proof cases
    case 1
    then have "unat n < 253" by (simp add: word_less_nat_alt)
    then have "ucast (ucast n :: u8) = n" and "(ucast n :: u8) < 253"
      by (simp_all add: ucast_down_up word_less_nat_alt unat_ucast_small)
    with 1 n show ?thesis
      by (simp add: WriteCompactSize_def ReadCompactSize_def u8.bind_read_ser read_size)
  next
    case 2
    then have "unat n < 65536" by (simp add: word_le_nat_alt)
    then have "ucast (ucast n :: u16) = n" by (simp add: ucast_down_up)
    moreover have "\<not> n < 253" using 2(1) by simp
    ultimately show ?thesis using 2(2) n
      by (simp add: WriteCompactSize_def ReadCompactSize_def u8.bind_read_ser u16.bind_read_ser read_size
          Let_def)
  next
    case 3
    then have "unat n < 4294967296" by (simp add: word_le_nat_alt)
    then have "ucast (ucast n :: u32) = n" by (simp add: ucast_down_up)
    moreover have "\<not> n < 0x10000" "\<not> n < 253" "\<not> n \<le> 0xFFFF"
      using 3(1) by (auto simp: word_less_nat_alt word_le_nat_alt)
    ultimately show ?thesis using 3(2) n
      by (simp add: WriteCompactSize_def ReadCompactSize_def u8.bind_read_ser u32.bind_read_ser read_size Let_def)
  qed
qed

lemma GetSizeOfCompactSize_length: "GetSizeOfCompactSize n = length (WriteCompactSize n)"
  by (simp add: GetSizeOfCompactSize_def WriteCompactSize_def ser_writedata8_def ser_writedata16_def
      ser_writedata32_def ser_writedata64_def)

section \<open>Variable-length integers\<close>

lemma varint_low_bits:
  "ucast (((ucast n AND 0x7F) OR (if b then 0x80 else 0x00) :: u8) AND 0x7F) = (n AND 0x7F :: u64)"
proof -
  have "((ucast n AND 0x7F) OR (if b then 0x80 else 0x00) :: u8) AND 0x7F = ucast n AND mask 7"
    by (simp add: bit.conj_disj_distrib2 mask_numeral)
  moreover have "ucast (ucast n AND mask 7 :: u8) = n AND (mask 7 :: u64)"
    by (rule bit_eqI) (auto simp: bit_simps)
  ultimately show ?thesis
    by (simp add: mask_numeral)
qed

lemma varint_more_bit:
  "((ucast n AND 0x7F) OR (if b then 0x80 else 0x00) :: u8) AND 0x80 = (if b then 0x80 else 0)"
  by (simp add: bit.conj_disj_distrib2 and.assoc)

lemma and_mask7: "n AND 0x7F = (take_bit 7 n :: u64)"
  by (simp add: take_bit_eq_mask mask_numeral)

lemma varint_small: "n \<le> 0x7F \<Longrightarrow> n AND 0x7F = (n :: u64)"
  by (simp add: and_mask7 word_unat_eq_iff unsigned_take_bit_eq take_bit_nat_eq_self word_le_nat_alt)

lemma varint_join: "push_bit 7 (drop_bit 7 n) OR (n AND 0x7F) = (n :: u64)"
  unfolding and_mask7 by (rule bit_eqI) (auto simp: bit_simps)

lemma read_varint_digits:
  assumes "n \<le> imax" and "b \<longrightarrow> n < imax"
  shows "read_var_int imax 0 (rev (varint_digits b n) @ s) =
           (if b then read_var_int imax (n + 1) s else Inr (n, s))"
  using assms
proof (induction b n arbitrary: s rule: varint_digits.induct)
  case (1 b n)
  show ?case
  proof (cases "n \<le> 0x7F")
    case True
    with "1.prems" show ?thesis
      by (subst varint_digits.simps) (auto simp: Let_def varint_low_bits varint_more_bit varint_small)
  next
    case False
    define m where "m = drop_bit 7 n - 1"
    have d0: "drop_bit 7 n \<le> drop_bit 7 imax"
      using "1.prems"(1) by (simp add: word_le_nat_alt unat_drop_bit_div div_le_mono)
    have "unat m < unat n"
      unfolding m_def using False by (rule varint_step_less)
    then have m: "m < imax" "m \<le> imax"
      using "1.prems"(1) by (simp_all add: word_less_nat_alt word_le_nat_alt)
    define d :: u8 where "d = (ucast n AND 0x7F) OR (if b then 0x80 else 0x00)"
    have dl: "ucast (d AND 0x7F) = (n AND 0x7F :: u64)" and dm: "d AND 0x80 = (if b then 0x80 else 0)"
      unfolding d_def by (rule varint_low_bits, rule varint_more_bit)
    have r: "rev (varint_digits b n) = rev (varint_digits True m) @ [d]"
      using False by (subst varint_digits.simps) (simp add: Let_def m_def d_def)
    have "read_var_int imax 0 (rev (varint_digits b n) @ s) = read_var_int imax (drop_bit 7 n) (d # s)"
      using "1.IH" [OF refl False, folded m_def] m by (simp add: r) (simp add: m_def)
    also have "\<dots> = (if b then read_var_int imax (n + 1) s else Inr (n, s))"
      using d0 "1.prems" by (auto simp: dl dm varint_join Let_def)
    finally show ?thesis .
  qed
qed

lemma GetSizeOfVarInt_length: "GetSizeOfVarInt n = length (varint_digits b n)"
proof (induction n arbitrary: b rule: GetSizeOfVarInt.induct)
  case (1 n)
  then show ?case
    by (subst GetSizeOfVarInt.simps, subst varint_digits.simps) (simp add: Let_def)
qed

interpretation varint: codec WriteVarInt "ReadVarInt imax" "\<lambda>n. n \<le> imax" for imax
  by unfold_locales (simp add: WriteVarInt_def ReadVarInt_def read_varint_digits)

section \<open>Vectors, strings and pairs\<close>

text \<open>The lengths \<open>ReadCompactSize\<close> admits.\<close>

definition len_ok :: "nat \<Rightarrow> bool" where "len_ok k \<longleftrightarrow> k \<le> 0x02000000"

lemma len_okD:
  assumes "len_ok k"
  shows "(of_nat k :: u64) \<le> MAX_SIZE" and "unat (of_nat k :: u64) = k"
proof -
  have "k < 2 ^ 64" using assms by (simp add: len_ok_def)
  then show u: "unat (of_nat k :: u64) = k"
    by (simp add: unat_of_nat take_bit_nat_eq_self)
  then show "(of_nat k :: u64) \<le> MAX_SIZE"
    using assms by (simp add: word_le_nat_alt MAX_SIZE_def len_ok_def)
qed

lemma read_compact_len:
  "len_ok k \<Longrightarrow> bind_read ReadCompactSize f (WriteCompactSize (of_nat k) @ s) = f (of_nat k) s"
  by (simp add: compact.bind_read_ser len_okD)

lemma read_blocks_sum:
  "length v = sum_list ks \<Longrightarrow> read_blocks ks (v @ s) = Inr (v, s)"
proof (induction ks arbitrary: v)
  case Nil
  then show ?case by simp
next
  case (Cons k ks)
  then have "stream_read k (v @ s) = Inr (take k v, drop k v @ s)"
    by (simp add: stream_read_def)
  with Cons show ?case by simp
qed

interpretation byte_vector: codec ser_bytes unser_bytes "\<lambda>v. len_ok (length v)"
  by unfold_locales
    (simp add: ser_bytes_def unser_bytes_def read_compact_len len_okD read_blocks_sum sum_batches)

lemma char_of_unat_of_char: "char_of (unat (of_char c :: u8)) = c"
proof -
  have "unat (of_char c :: u8) = (of_char c :: nat)"
    by (subst of_nat_of_char [symmetric]) (simp add: unat_of_nat take_bit_nat_eq_self)
  then show ?thesis by simp
qed

interpretation str: codec ser_string unser_string "\<lambda>v. len_ok (length v)"
  by unfold_locales
    (simp add: ser_string_def unser_string_def read_compact_len len_okD map_read_def o_def
      char_of_unat_of_char)

context codec
begin

lemma unser_vector_ser:
  assumes "list_all ok v" and "len_ok (length v)" and "0 < sz" and "sz \<le> 5000000"
  shows "unser_vector sz unser (ser_vector ser v @ s) = Inr (v, s)"
proof -
  have "0 < 5000000 div sz"
    using assms by (simp add: div_greater_zero_iff)
  with assms show ?thesis
    by (simp add: unser_vector_def ser_vector_def read_compact_len len_okD read_batches_ser sum_batches)
qed

end

section \<open>Encodings are unique\<close>

lemma stream_read_Inr: "stream_read k b = Inr (a, s) \<longleftrightarrow> b = a @ s \<and> length a = k"
  by (auto simp: stream_read_def split: if_splits)

lemma bind_read_Inr_iff: "bind_read r f b = Inr x \<longleftrightarrow> (\<exists>a s. r b = Inr (a, s) \<and> f a s = Inr x)"
  by (auto simp: bind_read_def bind_out_Inr_iff)

lemma map_read_Inr_iff: "map_read f r b = Inr (x, s) \<longleftrightarrow> (\<exists>a. r b = Inr (a, s) \<and> x = f a)"
  by (auto simp: map_read_def bind_out_Inr_iff)

lemma le_bytes_word:
  assumes "LENGTH('a) = 8 * length b"
  shows "le_bytes (length b) (le_word b :: 'a :: len word) = b"
proof (rule nth_equalityI)
  fix i
  assume "i < length (le_bytes (length b) (le_word b :: 'a word))"
  then have i: "i < length b" by simp
  show "le_bytes (length b) (le_word b :: 'a word) ! i = b ! i"
  proof (rule bit_word_eqI)
    fix j
    assume "j < LENGTH(8)"
    then have "(8 * i + j) div 8 = i" "(8 * i + j) mod 8 = j" "8 * i + j < LENGTH('a)"
      using i assms by simp_all
    with i \<open>j < LENGTH(8)\<close> show "bit (le_bytes (length b) (le_word b :: 'a word) ! i) j = bit (b ! i) j"
      by (simp add: le_bytes_def bit_simps le_word_bits)
  qed
qed simp

lemma u8_read: "ser_readdata8 b = Inr (v, s) \<longleftrightarrow> b = ser_writedata8 v @ s"
  by (auto simp: ser_readdata8_def ser_writedata8_def map_read_Inr_iff stream_read_Inr length_Suc_conv)

lemma u16_read: "ser_readdata16 b = Inr (v, s) \<longleftrightarrow> b = ser_writedata16 v @ s"
proof
  assume "ser_readdata16 b = Inr (v, s)"
  then obtain a where a: "b = a @ s" "length a = 2" "v = le_word a"
    by (auto simp: ser_readdata16_def map_read_Inr_iff stream_read_Inr)
  then show "b = ser_writedata16 v @ s"
    using le_bytes_word [of a, where ?'a = 16] by (simp add: ser_writedata16_def)
qed (simp add: u16.unser_ser)

lemma u32_read: "ser_readdata32 b = Inr (v, s) \<longleftrightarrow> b = ser_writedata32 v @ s"
proof
  assume "ser_readdata32 b = Inr (v, s)"
  then obtain a where a: "b = a @ s" "length a = 4" "v = le_word a"
    by (auto simp: ser_readdata32_def map_read_Inr_iff stream_read_Inr)
  then show "b = ser_writedata32 v @ s"
    using le_bytes_word [of a, where ?'a = 32] by (simp add: ser_writedata32_def)
qed (simp add: u32.unser_ser)

lemma u64_read: "ser_readdata64 b = Inr (v, s) \<longleftrightarrow> b = ser_writedata64 v @ s"
proof
  assume "ser_readdata64 b = Inr (v, s)"
  then obtain a where a: "b = a @ s" "length a = 8" "v = le_word a"
    by (auto simp: ser_readdata64_def map_read_Inr_iff stream_read_Inr)
  then show "b = ser_writedata64 v @ s"
    using le_bytes_word [of a, where ?'a = 64] by (simp add: ser_writedata64_def)
qed (simp add: u64.unser_ser)

lemma unat_ucast_up:
  fixes v :: "'a :: len word"
  assumes "LENGTH('a) \<le> LENGTH('b :: len)"
  shows "unat (ucast v :: 'b word) = unat v"
proof (rule unat_ucast_small)
  have "unat v < 2 ^ LENGTH('a)" by simp
  also have "\<dots> \<le> 2 ^ LENGTH('b)" using assms by (intro power_increasing) simp_all
  finally show "unat v < 2 ^ LENGTH('b)" .
qed

lemma ucast_up_down:
  fixes v :: "'a :: len word"
  assumes "LENGTH('a) \<le> LENGTH('b :: len)"
  shows "ucast (ucast v :: 'b word) = v"
proof -
  have "unat (ucast (ucast v :: 'b word) :: 'a word) = unat (ucast v :: 'b word)"
    by (rule unat_ucast_small) (simp add: unat_ucast_up [OF assms])
  then show ?thesis
    by (simp add: word_unat_eq_iff unat_ucast_up [OF assms])
qed

lemma size_checked_Inr:
  "size_checked v t = Inr (n, s) \<longleftrightarrow> v \<le> MAX_SIZE \<and> n = v \<and> s = t"
  by (auto simp: size_checked_def)

lemma ReadCompactSize_canonical:
  assumes "ReadCompactSize b = Inr (n, s)"
  shows "b = WriteCompactSize n @ s" and "n \<le> MAX_SIZE"
proof -
  from assms obtain ch t where b: "b = ser_writedata8 ch @ t"
    and r: "(if ch < 253 then size_checked (ucast ch)
       else if ch = 253 then
         bind_read ser_readdata16 (\<lambda>v. let nSizeRet = ucast v in
           if nSizeRet < 253 then (\<lambda>_. Inl non_canonical) else size_checked nSizeRet)
       else if ch = 254 then
         bind_read ser_readdata32 (\<lambda>v. let nSizeRet = ucast v in
           if nSizeRet < 0x10000 then (\<lambda>_. Inl non_canonical) else size_checked nSizeRet)
       else
         bind_read ser_readdata64 (\<lambda>nSizeRet.
           if nSizeRet < 0x100000000 then (\<lambda>_. Inl non_canonical) else size_checked nSizeRet)) t = Inr (n, s)"
    by (auto simp: ReadCompactSize_def bind_read_Inr_iff u8_read)
  have max: "unat ch \<le> 255" using unsigned_less [of ch, where ?'a = nat] by simp
  consider "ch < 253" | "ch = 253" | "ch = 254" | "ch = 255"
  proof -
    have "unat ch < 253 \<or> unat ch = 253 \<or> unat ch = 254 \<or> unat ch = 255" using max by linarith
    then show ?thesis using that by (auto simp: word_less_nat_alt word_unat_eq_iff)
  qed
  then have "b = WriteCompactSize n @ s \<and> n \<le> MAX_SIZE"
  proof cases
    case 1
    with r have n: "n = ucast ch" "s = t" "n \<le> MAX_SIZE"
      by (auto simp: size_checked_Inr)
    have "unat n < 253" using 1 by (simp add: n unat_ucast_up word_less_nat_alt)
    then show ?thesis
      by (simp add: b n(3) WriteCompactSize_def word_less_nat_alt) (simp add: n ucast_up_down)
  next
    case 2
    with r obtain v where v: "t = ser_writedata16 v @ s" "n = ucast v" "\<not> n < 253" "n \<le> MAX_SIZE"
      by (auto simp: bind_read_Inr_iff u16_read size_checked_Inr Let_def split: if_splits)
    have "unat n \<le> 0xFFFF"
      using unsigned_less [of v, where ?'a = nat] by (simp add: v(2) unat_ucast_up)
    then have "n \<le> 0xFFFF" by (simp add: word_le_nat_alt)
    moreover have "ucast n = v" by (simp add: v(2) ucast_up_down)
    ultimately show ?thesis
      using v(3,4) by (simp add: b 2 v(1) WriteCompactSize_def)
  next
    case 3
    with r obtain v where v: "t = ser_writedata32 v @ s" "n = ucast v" "\<not> n < 0x10000" "n \<le> MAX_SIZE"
      by (auto simp: bind_read_Inr_iff u32_read size_checked_Inr Let_def split: if_splits)
    have "unat n \<le> 0xFFFFFFFF"
      using unsigned_less [of v, where ?'a = nat] by (simp add: v(2) unat_ucast_up)
    then have "n \<le> 0xFFFFFFFF" by (simp add: word_le_nat_alt)
    moreover have "ucast n = v" by (simp add: v(2) ucast_up_down)
    moreover have "\<not> n < 253" "\<not> n \<le> 0xFFFF"
      using v(3) by (auto simp: word_less_nat_alt word_le_nat_alt)
    ultimately show ?thesis
      using v(4) by (simp add: b 3 v(1) WriteCompactSize_def)
  next
    case 4
    with r have "\<not> n < 0x100000000" "n \<le> MAX_SIZE"
      by (auto simp: bind_read_Inr_iff size_checked_Inr split: if_splits)
    then show ?thesis
      by (simp add: MAX_SIZE_def word_less_nat_alt word_le_nat_alt)
  qed
  then show "b = WriteCompactSize n @ s" and "n \<le> MAX_SIZE" by auto
qed

lemma and_exp_bit: "(w :: 'a :: len word) AND 2 ^ k = (if bit w k then 2 ^ k else 0)"
  by (rule bit_eqI) (auto simp: bit_simps)

lemma varint_acc_unat:
  assumes "unat acc < 2 ^ 57"
  shows "unat (push_bit 7 acc OR ucast (ch AND 0x7F) :: u64) = unat acc * 128 + unat (ch :: u8) mod 128"
proof -
  have l: "unat (ch AND 0x7F) = unat ch mod 128"
  proof -
    have "ch AND 0x7F = take_bit 7 ch"
      by (simp add: take_bit_eq_mask mask_numeral)
    then show ?thesis
      by (simp add: take_bit_eq_mod unat_mod)
  qed
  have u: "unat (ucast (ch AND 0x7F) :: u64) = unat ch mod 128"
    by (simp add: unat_ucast_up l)
  have p: "unat (push_bit 7 acc) = unat acc * 128"
    using assms by (simp add: push_bit_eq_mult unat_word_ariths)
  have "push_bit 7 acc OR ucast (ch AND 0x7F) = push_bit 7 acc + ucast (ch AND 0x7F)"
    by (rule or_eq_add_disjoint) (simp add: u)
  moreover have "unat (push_bit 7 acc + ucast (ch AND 0x7F)) = unat acc * 128 + unat ch mod 128"
    using assms by (subst unat_add_lem [THEN iffD1]) (simp_all add: p u)
  ultimately show ?thesis by simp
qed

text \<open>The digits already read when the accumulator is \<open>acc\<close>.\<close>

definition digits_read :: "u64 \<Rightarrow> bytes" where
  "digits_read acc = (if acc = 0 then [] else rev (varint_digits True (acc - 1)))"

lemma digits_read_step:
  fixes ch :: u8
  assumes a: "unat acc < 2 ^ 57" and n: "n = push_bit 7 acc OR ucast (ch AND 0x7F)"
    and b: "b \<longleftrightarrow> ch AND 0x80 \<noteq> 0"
  shows "rev (varint_digits b n) = digits_read acc @ [ch]"
proof -
  have u: "unat n = unat acc * 128 + unat ch mod 128"
    unfolding n by (rule varint_acc_unat [OF a])
  have d: "(ucast n AND 0x7F) OR (if b then 0x80 else 0x00) = ch"
  proof -
    have "ch AND 2 ^ 7 = (if bit ch 7 then 2 ^ 7 else 0)"
      by (rule and_exp_bit)
    then have "(if b then 0x80 else 0x00) = ch AND 0x80"
      by (simp add: b)
    moreover have "ucast n AND 0x7F = ch AND 0x7F"
    proof -
      have mask7: "(0x7F :: u8) = mask 7" by (simp add: mask_numeral)
      have "ucast n AND mask 7 = ch AND mask 7"
        unfolding n mask7 by (rule bit_eqI) (auto simp: bit_simps)
      then show ?thesis by (simp add: mask_numeral)
    qed
    moreover have "(ch AND 0x7F) OR (ch AND 0x80) = ch AND mask 8"
      by (simp add: bit.conj_disj_distrib [symmetric] mask_numeral)
    ultimately show ?thesis by (simp add: take_bit_eq_mask [symmetric] take_bit_word_eq_self)
  qed
  show ?thesis
  proof (cases "acc = 0")
    case True
    then have "n \<le> 0x7F" using u by (simp add: word_le_nat_alt)
    with d show ?thesis
      by (subst varint_digits.simps) (simp add: digits_read_def True)
  next
    case False
    then have "0 < unat acc" by (simp add: unat_gt_0)
    then have "\<not> n \<le> 0x7F" using u by (simp add: word_le_nat_alt)
    moreover have "drop_bit 7 n = acc"
      using u by (simp add: word_unat_eq_iff unat_drop_bit_div)
    ultimately show ?thesis
      using d False by (subst varint_digits.simps) (simp add: digits_read_def Let_def)
  qed
qed

lemma read_var_int_canonical:
  assumes "read_var_int imax acc b = Inr (n, s)" and "unat imax mod 128 = 127"
  shows "digits_read acc @ b = WriteVarInt n @ s \<and> n \<le> imax"
  using assms
proof (induction imax acc b rule: read_var_int.induct)
  case (1 imax n)
  then show ?case by simp
next
  case (2 imax acc ch t)
  define m where "m = push_bit 7 acc OR ucast (ch AND 0x7F)"
  have a: "unat acc \<le> unat imax div 128" and r: "(if ch AND 0x80 \<noteq> 0 then
      if m = imax then Inl (Throw ''ReadVarInt(): size too large'') else read_var_int imax (m + 1) t
      else Inr (m, t)) = Inr (n, s)"
    using "2.prems"(1) by (auto simp: Let_def m_def word_le_nat_alt unat_drop_bit_div not_less split: if_splits)
  have a57: "unat acc < 2 ^ 57"
    using a unsigned_less [of imax, where ?'a = nat] by simp
  have u: "unat m = unat acc * 128 + unat ch mod 128"
    unfolding m_def by (rule varint_acc_unat [OF a57])
  have le: "m \<le> imax"
  proof -
    have "unat imax = unat imax div 128 * 128 + 127"
      using "2.prems"(2) div_mult_mod_eq [of "unat imax" 128] by linarith
    moreover have "unat ch mod 128 \<le> 127" by (simp add: less_Suc_eq_le [symmetric])
    ultimately have "unat m \<le> unat imax" using u a by linarith
    then show ?thesis by (simp add: word_le_nat_alt)
  qed
  note step = digits_read_step [OF a57 m_def refl]
  show ?case
  proof (cases "ch AND 0x80 = 0")
    case True
    then have "n = m" "s = t" using r by simp_all
    then show ?thesis using step True le by (simp add: WriteVarInt_def)
  next
    case False
    then have m: "m \<noteq> imax" and r': "read_var_int imax (m + 1) t = Inr (n, s)"
      using r by (auto split: if_splits)
    then have "m < imax" using le by simp
    then have "m + 1 \<noteq> 0"
      by (auto simp flip: eq_neg_iff_add_eq_0 simp: word_order.extremum_strict)
    then have "digits_read (m + 1) = rev (varint_digits True m)"
      by (simp add: digits_read_def)
    then show ?thesis
      using "2.IH" [OF _ m_def False m r' "2.prems"(2)] step False a
      by (simp add: word_le_nat_alt unat_drop_bit_div not_less)
  qed
qed

text \<open>
  C40. The encodings of sizes and of variable-length integers are one to one: a compact size up to
  \<open>MAX_SIZE\<close>, and every 32-bit and 64-bit variable-length integer, is read back from what was written and leaves
  the rest of the stream; conversely whenever a reader accepts a stream, the stream starts with
  exactly the bytes the writer produces for the value read. The size computations agree with what
  is written.
\<close>

theorem size_encodings_bijective:
  assumes "imax = 0xFFFFFFFF \<or> imax = 0xFFFFFFFFFFFFFFFF"
  shows "(ReadCompactSize b = Inr (n, s) \<longleftrightarrow> b = WriteCompactSize n @ s \<and> n \<le> MAX_SIZE) \<and>
    (ReadVarInt imax b = Inr (n, s) \<longleftrightarrow> b = WriteVarInt n @ s \<and> n \<le> imax) \<and>
    GetSizeOfCompactSize n = length (WriteCompactSize n) \<and>
    GetSizeOfVarInt n = length (WriteVarInt n)"
proof (intro conjI)
  have "unat imax mod 128 = 127" using assms by auto
  then show "ReadVarInt imax b = Inr (n, s) \<longleftrightarrow> b = WriteVarInt n @ s \<and> n \<le> imax"
    using read_var_int_canonical [of imax 0 b n s] varint.unser_ser [of n imax s]
    by (auto simp: ReadVarInt_def digits_read_def)
  show "ReadCompactSize b = Inr (n, s) \<longleftrightarrow> b = WriteCompactSize n @ s \<and> n \<le> MAX_SIZE"
    using compact.unser_ser [of n s] by (auto dest: ReadCompactSize_canonical)
qed (simp_all add: GetSizeOfCompactSize_length GetSizeOfVarInt_length [of _ False] WriteVarInt_def)

theorem size_encodings_bijective_witness:
  "ReadVarInt 0xFFFFFFFF ([0x8E, 0xFE, 0xFE, 0xFE, 0x7F] @ [7]) = Inr (0xFFFFFFFF, [7])"
proof -
  have "[0x8E, 0xFE, 0xFE, 0xFE, 0x7F] = WriteVarInt 0xFFFFFFFF" by code_simp
  then show ?thesis
    using size_encodings_bijective [of "0xFFFFFFFF" "[0x8E, 0xFE, 0xFE, 0xFE, 0x7F] @ [7]" "0xFFFFFFFF" "[7]"]
    by simp
qed

end
