(* ===== verification/AssetData.thy ===== *)
theory AssetData
  imports Serialize Params
begin

unbundle bit_operations_syntax

text \<open>
  The asset records a script carries (\<^verbatim>\<open>assets/assettypes.h\<close>): issuance, transfer, reissue, tags and verifier
  strings, with the serialization each class defines. An IPFS or transaction hash is optional at
  the end of a record, so what is read depends on how many bytes are left in the stream.
\<close>

section \<open>Kinds of assets\<close>

datatype AssetType =
  ROOT | SUB | UNIQUE | MSGCHANNEL | QUALIFIER | SUB_QUALIFIER | RESTRICTED | VOTE | REISSUE |
  OWNER | NULL_ADD_QUALIFIER | INVALID

datatype QualifierType = REMOVE_QUALIFIER | ADD_QUALIFIER

datatype RestrictedType = UNFREEZE_ADDRESS | FREEZE_ADDRESS | GLOBAL_UNFREEZE | GLOBAL_FREEZE

fun IntFromAssetType :: "AssetType \<Rightarrow> nat" where
  "IntFromAssetType ROOT = 0"
| "IntFromAssetType SUB = 1"
| "IntFromAssetType UNIQUE = 2"
| "IntFromAssetType MSGCHANNEL = 3"
| "IntFromAssetType QUALIFIER = 4"
| "IntFromAssetType SUB_QUALIFIER = 5"
| "IntFromAssetType RESTRICTED = 6"
| "IntFromAssetType VOTE = 7"
| "IntFromAssetType REISSUE = 8"
| "IntFromAssetType OWNER = 9"
| "IntFromAssetType NULL_ADD_QUALIFIER = 10"
| "IntFromAssetType INVALID = 11"

definition MAX_UNIT :: int where "MAX_UNIT = 8"
definition MIN_UNIT :: int where "MIN_UNIT = 0"

section \<open>Optional hashes\<close>

definition in_int8 :: "int \<Rightarrow> bool" where "in_int8 x \<longleftrightarrow> - 128 \<le> x \<and> x < 128"
definition ser_int8 :: "int \<Rightarrow> bytes" where "ser_int8 a = ser_writedata8 (word_of_int a)"
definition unser_int8 :: "int reader" where "unser_int8 = map_read sint ser_readdata8"

definition IPFS_SHA2_256 :: u8 where "IPFS_SHA2_256 = 0x12"
definition TXID_NOTIFIER :: u8 where "TXID_NOTIFIER = 0x54"
definition IPFS_SHA2_256_LEN :: u8 where "IPFS_SHA2_256_LEN = 0x20"

definition chr :: "u8 \<Rightarrow> char" where "chr b = char_of (unat b)"

definition write_asset_hash :: "string \<Rightarrow> bytes \<times> bool" where
  "write_asset_hash strIPFSHash =
     (if length strIPFSHash = 34 then
        (ser_writedata8 IPFS_SHA2_256 @ ser_string (drop 2 strIPFSHash), True)
      else if length strIPFSHash = 32 then
        (ser_writedata8 TXID_NOTIFIER @ ser_string strIPFSHash, True)
      else ([], False))"

definition read_asset_hash :: "(string \<times> bool) reader" where
  "read_asset_hash s =
     (if s \<noteq> [] \<and> length s \<ge> 33 then
        bind_read ser_readdata8 (\<lambda>sha2_256.
          map_read (\<lambda>hash.
              ((if sha2_256 = IPFS_SHA2_256 then [chr IPFS_SHA2_256, chr IPFS_SHA2_256_LEN] else []) @
               take 32 hash, True))
            unser_string) s
      else Inr ((''''  , False), s))"

section \<open>Records\<close>

record CNewAsset =
  na_strName :: string
  na_nAmount :: CAmount
  na_units :: int
  na_nReissuable :: int
  na_nHasIPFS :: int
  na_strIPFSHash :: string

definition new_asset_null :: CNewAsset where
  "new_asset_null = \<lparr>na_strName = '''', na_nAmount = 0, na_units = MAX_UNIT, na_nReissuable = 0,
     na_nHasIPFS = 0, na_strIPFSHash = ''''\<rparr>"

definition ser_new_asset :: "CNewAsset \<Rightarrow> bytes" where
  "ser_new_asset a =
     ser_string (na_strName a) @ ser_int64 (na_nAmount a) @ ser_int8 (na_units a) @
     ser_int8 (na_nReissuable a) @ ser_int8 (na_nHasIPFS a) @
     (if na_nHasIPFS a = 1 then fst (write_asset_hash (na_strIPFSHash a)) else [])"

definition unser_new_asset :: "CNewAsset reader" where
  "unser_new_asset =
     bind_read unser_string (\<lambda>nm. bind_read unser_int64 (\<lambda>amt. bind_read unser_int8 (\<lambda>un.
     bind_read unser_int8 (\<lambda>re. bind_read unser_int8 (\<lambda>ip.
     let a = new_asset_null\<lparr>na_strName := nm, na_nAmount := amt, na_units := un,
               na_nReissuable := re, na_nHasIPFS := ip\<rparr>
     in if ip = 1 then map_read (\<lambda>(h, _). a\<lparr>na_strIPFSHash := h\<rparr>) read_asset_hash
        else (\<lambda>s. Inr (a, s)))))))"

record CAssetTransfer =
  tr_strName :: string
  tr_nAmount :: CAmount
  tr_message :: string
  tr_nExpireTime :: int

definition ser_asset_transfer :: "CAssetTransfer \<Rightarrow> bytes" where
  "ser_asset_transfer t =
     (let (h, validIPFS) = write_asset_hash (tr_message t) in
      ser_string (tr_strName t) @ ser_int64 (tr_nAmount t) @ h @
      (if validIPFS \<and> tr_nExpireTime t \<noteq> 0 then ser_int64 (tr_nExpireTime t) else []))"

definition unser_asset_transfer :: "CAssetTransfer reader" where
  "unser_asset_transfer =
     bind_read unser_string (\<lambda>nm. bind_read unser_int64 (\<lambda>amt. bind_read read_asset_hash (\<lambda>(h, validIPFS) s.
       let t = \<lparr>tr_strName = nm, tr_nAmount = amt, tr_message = h, tr_nExpireTime = 0\<rparr> in
       if validIPFS \<and> s \<noteq> [] \<and> length s \<ge> 8
       then map_read (\<lambda>e. t\<lparr>tr_nExpireTime := e\<rparr>) unser_int64 s
       else Inr (t, s))))"

record CReissueAsset =
  re_strName :: string
  re_nAmount :: CAmount
  re_nUnits :: int
  re_nReissuable :: int
  re_strIPFSHash :: string

definition ser_reissue_asset :: "CReissueAsset \<Rightarrow> bytes" where
  "ser_reissue_asset a =
     ser_string (re_strName a) @ ser_int64 (re_nAmount a) @ ser_int8 (re_nUnits a) @
     ser_int8 (re_nReissuable a) @ fst (write_asset_hash (re_strIPFSHash a))"

definition unser_reissue_asset :: "CReissueAsset reader" where
  "unser_reissue_asset =
     bind_read unser_string (\<lambda>nm. bind_read unser_int64 (\<lambda>amt. bind_read unser_int8 (\<lambda>un.
     bind_read unser_int8 (\<lambda>re. map_read (\<lambda>(h, _).
       \<lparr>re_strName = nm, re_nAmount = amt, re_nUnits = un, re_nReissuable = re, re_strIPFSHash = h\<rparr>)
       read_asset_hash))))"

record CNullAssetTxData =
  nd_asset_name :: string
  nd_flag :: int

definition ser_null_asset_data :: "CNullAssetTxData \<Rightarrow> bytes" where
  "ser_null_asset_data d = ser_string (nd_asset_name d) @ ser_int8 (nd_flag d)"

definition unser_null_asset_data :: "CNullAssetTxData reader" where
  "unser_null_asset_data =
     bind_read unser_string (\<lambda>nm. map_read (\<lambda>f. \<lparr>nd_asset_name = nm, nd_flag = f\<rparr>) unser_int8)"

section \<open>Reading back what was written\<close>

lemma sint_word_of_int8: "in_int8 a \<Longrightarrow> sint (word_of_int a :: u8) = a"
  by (simp add: in_int8_def sint_sbintrunc' signed_take_bit_int_eq_self)

interpretation int8: codec ser_int8 unser_int8 in_int8
  by unfold_locales (simp add: ser_int8_def unser_int8_def u8.map_read_ser sint_word_of_int8)

interpretation null_asset_data: codec ser_null_asset_data unser_null_asset_data
  "\<lambda>d. len_ok (length (nd_asset_name d)) \<and> in_int8 (nd_flag d)"
  by unfold_locales
    (simp add: ser_null_asset_data_def unser_null_asset_data_def str.bind_read_ser int8.map_read_ser)

text \<open>
  The hashes that survive: an IPFS hash of 34 bytes with its two leading bytes, a transaction hash
  of 32 bytes, or none.
\<close>

definition hash_ok :: "string \<Rightarrow> bool" where
  "hash_ok h \<longleftrightarrow> h = '''' \<or> length h = 32 \<or>
     length h = 34 \<and> take 2 h = [chr IPFS_SHA2_256, chr IPFS_SHA2_256_LEN]"

lemma len_ok_small: "k \<le> 1000 \<Longrightarrow> len_ok k"
  by (simp add: len_ok_def)

lemma length_ser_string32: "length h = 32 \<Longrightarrow> length (ser_string h) = 33"
  by (simp add: ser_string_def WriteCompactSize_def ser_writedata8_def)

lemma read_write_asset_hash:
  assumes "hash_ok h" and "h \<noteq> ''''"
  shows "read_asset_hash (fst (write_asset_hash h) @ s) = Inr ((h, True), s)"
    and "snd (write_asset_hash h)"
proof -
  consider "length h = 34" "take 2 h = [chr IPFS_SHA2_256, chr IPFS_SHA2_256_LEN]" | "length h = 32"
    using assms by (auto simp: hash_ok_def)
  then have "read_asset_hash (fst (write_asset_hash h) @ s) = Inr ((h, True), s) \<and> snd (write_asset_hash h)"
  proof cases
    case 1
    have "length (ser_string (drop 2 h)) = 33"
      by (rule length_ser_string32) (simp add: 1)
    moreover have "[chr IPFS_SHA2_256, chr IPFS_SHA2_256_LEN] @ drop 2 h = h"
      using append_take_drop_id [of 2 h] by (simp add: 1)
    ultimately show ?thesis
      using 1 by (auto simp: write_asset_hash_def read_asset_hash_def u8.bind_read_ser str.map_read_ser
          len_ok_small)
  next
    case 2
    have "ser_string h \<noteq> []"
      using length_ser_string32 [OF 2] by force
    with 2 show ?thesis
      by (auto simp: write_asset_hash_def read_asset_hash_def u8.bind_read_ser str.map_read_ser
          len_ok_small length_ser_string32 TXID_NOTIFIER_def IPFS_SHA2_256_def)
  qed
  then show "read_asset_hash (fst (write_asset_hash h) @ s) = Inr ((h, True), s)"
    and "snd (write_asset_hash h)" by auto
qed

text \<open>
  Amounts, units and flags that fit their fields, a name short enough to be read, and a hash that
  survives.
\<close>

definition new_asset_ok :: "CNewAsset \<Rightarrow> bool" where
  "new_asset_ok a \<longleftrightarrow> len_ok (length (na_strName a)) \<and> in_int64 (na_nAmount a) \<and>
     in_int8 (na_units a) \<and> in_int8 (na_nReissuable a) \<and> in_int8 (na_nHasIPFS a) \<and>
     (if na_nHasIPFS a = 1 then hash_ok (na_strIPFSHash a) \<and> na_strIPFSHash a \<noteq> ''''
      else na_strIPFSHash a = '''')"

interpretation new_asset: codec ser_new_asset unser_new_asset new_asset_ok
proof
  fix a :: CNewAsset and s
  assume ok: "new_asset_ok a"
  show "unser_new_asset (ser_new_asset a @ s) = Inr (a, s)"
  proof (cases "na_nHasIPFS a = 1")
    case True
    with ok show ?thesis
      by (simp add: new_asset_ok_def ser_new_asset_def unser_new_asset_def str.bind_read_ser
          int64.bind_read_ser int8.bind_read_ser map_read_def read_write_asset_hash new_asset_null_def)
  next
    case False
    with ok show ?thesis
      by (simp add: new_asset_ok_def ser_new_asset_def unser_new_asset_def str.bind_read_ser
          int64.bind_read_ser int8.bind_read_ser new_asset_null_def)
  qed
qed

lemma read_asset_hash_short: "length s < 33 \<Longrightarrow> read_asset_hash s = Inr (('''', False), s)"
  by (simp add: read_asset_hash_def)

definition reissue_asset_ok :: "CReissueAsset \<Rightarrow> bool" where
  "reissue_asset_ok a \<longleftrightarrow> len_ok (length (re_strName a)) \<and> in_int64 (re_nAmount a) \<and>
     in_int8 (re_nUnits a) \<and> in_int8 (re_nReissuable a) \<and> hash_ok (re_strIPFSHash a)"

lemma unser_reissue_asset_ser:
  assumes "reissue_asset_ok a"
  shows "unser_reissue_asset (ser_reissue_asset a) = Inr (a, [])"
proof (cases "re_strIPFSHash a = ''''")
  case True
  with assms show ?thesis
    using int8.unser_ser [of "re_nReissuable a" "[]"]
    by (simp add: reissue_asset_ok_def ser_reissue_asset_def unser_reissue_asset_def
        str.unser_ser int64.unser_ser int8.unser_ser
        bind_read_def write_asset_hash_def map_read_def read_asset_hash_short)
next
  case False
  with assms show ?thesis
    using read_write_asset_hash(1) [of "re_strIPFSHash a" "[]"]
    by (simp add: reissue_asset_ok_def ser_reissue_asset_def unser_reissue_asset_def str.bind_read_ser
        int64.bind_read_ser int8.bind_read_ser map_read_def)
qed

definition asset_transfer_ok :: "CAssetTransfer \<Rightarrow> bool" where
  "asset_transfer_ok t \<longleftrightarrow> len_ok (length (tr_strName t)) \<and> in_int64 (tr_nAmount t) \<and>
     in_int64 (tr_nExpireTime t) \<and> hash_ok (tr_message t) \<and>
     (tr_message t = '''' \<longrightarrow> tr_nExpireTime t = 0)"

lemma unser_asset_transfer_ser:
  assumes "asset_transfer_ok t"
  shows "unser_asset_transfer (ser_asset_transfer t) = Inr (t, [])"
proof (cases "tr_message t = ''''")
  case True
  with assms show ?thesis
    using int64.unser_ser [of "tr_nAmount t" "[]"]
    by (simp add: asset_transfer_ok_def ser_asset_transfer_def unser_asset_transfer_def str.unser_ser
        bind_read_def write_asset_hash_def read_asset_hash_short)
next
  case False
  obtain h where h: "write_asset_hash (tr_message t) = (h, True)"
    using read_write_asset_hash(2) [of "tr_message t"] False assms
    by (cases "write_asset_hash (tr_message t)") (auto simp: asset_transfer_ok_def)
  have r: "read_asset_hash (h @ s) = Inr ((tr_message t, True), s)" for s
    using read_write_asset_hash(1) [of "tr_message t" s] False assms
    by (simp add: h asset_transfer_ok_def)
  have l: "length (ser_int64 e) = 8" for e
    by (simp add: ser_int64_def ser_writedata64_def)
  then have ne: "ser_int64 e \<noteq> []" for e
    by (metis length_0_conv zero_neq_numeral)
  show ?thesis
  proof (cases "tr_nExpireTime t = 0")
    case True
    then show ?thesis
      using assms r [of "[]"]
      by (simp add: asset_transfer_ok_def ser_asset_transfer_def unser_asset_transfer_def
          str.unser_ser int64.unser_ser bind_read_def h)
  next
    case False
    then show ?thesis
      using assms r int64.unser_ser [of "tr_nExpireTime t" "[]"]
      by (auto simp: asset_transfer_ok_def ser_asset_transfer_def unser_asset_transfer_def
          str.unser_ser int64.unser_ser bind_read_def map_read_def h l ne Let_def)
  qed
qed

end
