(* ===== verification/Script.thy ===== *)
theory Script
  imports AssetData
begin

unbundle bit_operations_syntax

text \<open>
  \<^verbatim>\<open>script/script.h\<close> and \<^verbatim>\<open>script/script.cpp\<close>: opcodes, script numbers, pushing to and reading from a script, the
  recognition of standard and asset scripts, and the counting of signature operations. A script is
  its byte list; a position in it is the list of the bytes from there on.
\<close>

section \<open>Limits and opcodes\<close>

definition MAX_SCRIPT_ELEMENT_SIZE :: nat where "MAX_SCRIPT_ELEMENT_SIZE = 520"
definition MAX_OPS_PER_SCRIPT :: int where "MAX_OPS_PER_SCRIPT = 201"
definition MAX_PUBKEYS_PER_MULTISIG :: int where "MAX_PUBKEYS_PER_MULTISIG = 20"
definition MAX_SCRIPT_SIZE :: nat where "MAX_SCRIPT_SIZE = 10000"
definition MAX_STACK_SIZE :: nat where "MAX_STACK_SIZE = 1000"
definition LOCKTIME_THRESHOLD :: int where "LOCKTIME_THRESHOLD = 500000000"

type_synonym opcodetype = u8
type_synonym CScript = bytes
type_synonym valtype = bytes

abbreviation OP_0 :: u8 where "OP_0 \<equiv> 0x00"
abbreviation OP_FALSE :: u8 where "OP_FALSE \<equiv> OP_0"
abbreviation OP_PUSHDATA1 :: u8 where "OP_PUSHDATA1 \<equiv> 0x4c"
abbreviation OP_PUSHDATA2 :: u8 where "OP_PUSHDATA2 \<equiv> 0x4d"
abbreviation OP_PUSHDATA4 :: u8 where "OP_PUSHDATA4 \<equiv> 0x4e"
abbreviation OP_1NEGATE :: u8 where "OP_1NEGATE \<equiv> 0x4f"
abbreviation OP_RESERVED :: u8 where "OP_RESERVED \<equiv> 0x50"
abbreviation OP_1 :: u8 where "OP_1 \<equiv> 0x51"
abbreviation OP_TRUE :: u8 where "OP_TRUE \<equiv> OP_1"
abbreviation OP_2 :: u8 where "OP_2 \<equiv> 0x52"
abbreviation OP_3 :: u8 where "OP_3 \<equiv> 0x53"
abbreviation OP_4 :: u8 where "OP_4 \<equiv> 0x54"
abbreviation OP_5 :: u8 where "OP_5 \<equiv> 0x55"
abbreviation OP_6 :: u8 where "OP_6 \<equiv> 0x56"
abbreviation OP_7 :: u8 where "OP_7 \<equiv> 0x57"
abbreviation OP_8 :: u8 where "OP_8 \<equiv> 0x58"
abbreviation OP_9 :: u8 where "OP_9 \<equiv> 0x59"
abbreviation OP_10 :: u8 where "OP_10 \<equiv> 0x5a"
abbreviation OP_11 :: u8 where "OP_11 \<equiv> 0x5b"
abbreviation OP_12 :: u8 where "OP_12 \<equiv> 0x5c"
abbreviation OP_13 :: u8 where "OP_13 \<equiv> 0x5d"
abbreviation OP_14 :: u8 where "OP_14 \<equiv> 0x5e"
abbreviation OP_15 :: u8 where "OP_15 \<equiv> 0x5f"
abbreviation OP_16 :: u8 where "OP_16 \<equiv> 0x60"
abbreviation OP_NOP :: u8 where "OP_NOP \<equiv> 0x61"
abbreviation OP_VER :: u8 where "OP_VER \<equiv> 0x62"
abbreviation OP_IF :: u8 where "OP_IF \<equiv> 0x63"
abbreviation OP_NOTIF :: u8 where "OP_NOTIF \<equiv> 0x64"
abbreviation OP_VERIF :: u8 where "OP_VERIF \<equiv> 0x65"
abbreviation OP_VERNOTIF :: u8 where "OP_VERNOTIF \<equiv> 0x66"
abbreviation OP_ELSE :: u8 where "OP_ELSE \<equiv> 0x67"
abbreviation OP_ENDIF :: u8 where "OP_ENDIF \<equiv> 0x68"
abbreviation OP_VERIFY :: u8 where "OP_VERIFY \<equiv> 0x69"
abbreviation OP_RETURN :: u8 where "OP_RETURN \<equiv> 0x6a"
abbreviation OP_TOALTSTACK :: u8 where "OP_TOALTSTACK \<equiv> 0x6b"
abbreviation OP_FROMALTSTACK :: u8 where "OP_FROMALTSTACK \<equiv> 0x6c"
abbreviation OP_2DROP :: u8 where "OP_2DROP \<equiv> 0x6d"
abbreviation OP_2DUP :: u8 where "OP_2DUP \<equiv> 0x6e"
abbreviation OP_3DUP :: u8 where "OP_3DUP \<equiv> 0x6f"
abbreviation OP_2OVER :: u8 where "OP_2OVER \<equiv> 0x70"
abbreviation OP_2ROT :: u8 where "OP_2ROT \<equiv> 0x71"
abbreviation OP_2SWAP :: u8 where "OP_2SWAP \<equiv> 0x72"
abbreviation OP_IFDUP :: u8 where "OP_IFDUP \<equiv> 0x73"
abbreviation OP_DEPTH :: u8 where "OP_DEPTH \<equiv> 0x74"
abbreviation OP_DROP :: u8 where "OP_DROP \<equiv> 0x75"
abbreviation OP_DUP :: u8 where "OP_DUP \<equiv> 0x76"
abbreviation OP_NIP :: u8 where "OP_NIP \<equiv> 0x77"
abbreviation OP_OVER :: u8 where "OP_OVER \<equiv> 0x78"
abbreviation OP_PICK :: u8 where "OP_PICK \<equiv> 0x79"
abbreviation OP_ROLL :: u8 where "OP_ROLL \<equiv> 0x7a"
abbreviation OP_ROT :: u8 where "OP_ROT \<equiv> 0x7b"
abbreviation OP_SWAP :: u8 where "OP_SWAP \<equiv> 0x7c"
abbreviation OP_TUCK :: u8 where "OP_TUCK \<equiv> 0x7d"
abbreviation OP_CAT :: u8 where "OP_CAT \<equiv> 0x7e"
abbreviation OP_SUBSTR :: u8 where "OP_SUBSTR \<equiv> 0x7f"
abbreviation OP_LEFT :: u8 where "OP_LEFT \<equiv> 0x80"
abbreviation OP_RIGHT :: u8 where "OP_RIGHT \<equiv> 0x81"
abbreviation OP_SIZE :: u8 where "OP_SIZE \<equiv> 0x82"
abbreviation OP_INVERT :: u8 where "OP_INVERT \<equiv> 0x83"
abbreviation OP_AND :: u8 where "OP_AND \<equiv> 0x84"
abbreviation OP_OR :: u8 where "OP_OR \<equiv> 0x85"
abbreviation OP_XOR :: u8 where "OP_XOR \<equiv> 0x86"
abbreviation OP_EQUAL :: u8 where "OP_EQUAL \<equiv> 0x87"
abbreviation OP_EQUALVERIFY :: u8 where "OP_EQUALVERIFY \<equiv> 0x88"
abbreviation OP_RESERVED1 :: u8 where "OP_RESERVED1 \<equiv> 0x89"
abbreviation OP_RESERVED2 :: u8 where "OP_RESERVED2 \<equiv> 0x8a"
abbreviation OP_1ADD :: u8 where "OP_1ADD \<equiv> 0x8b"
abbreviation OP_1SUB :: u8 where "OP_1SUB \<equiv> 0x8c"
abbreviation OP_2MUL :: u8 where "OP_2MUL \<equiv> 0x8d"
abbreviation OP_2DIV :: u8 where "OP_2DIV \<equiv> 0x8e"
abbreviation OP_NEGATE :: u8 where "OP_NEGATE \<equiv> 0x8f"
abbreviation OP_ABS :: u8 where "OP_ABS \<equiv> 0x90"
abbreviation OP_NOT :: u8 where "OP_NOT \<equiv> 0x91"
abbreviation OP_0NOTEQUAL :: u8 where "OP_0NOTEQUAL \<equiv> 0x92"
abbreviation OP_ADD :: u8 where "OP_ADD \<equiv> 0x93"
abbreviation OP_SUB :: u8 where "OP_SUB \<equiv> 0x94"
abbreviation OP_MUL :: u8 where "OP_MUL \<equiv> 0x95"
abbreviation OP_DIV :: u8 where "OP_DIV \<equiv> 0x96"
abbreviation OP_MOD :: u8 where "OP_MOD \<equiv> 0x97"
abbreviation OP_LSHIFT :: u8 where "OP_LSHIFT \<equiv> 0x98"
abbreviation OP_RSHIFT :: u8 where "OP_RSHIFT \<equiv> 0x99"
abbreviation OP_BOOLAND :: u8 where "OP_BOOLAND \<equiv> 0x9a"
abbreviation OP_BOOLOR :: u8 where "OP_BOOLOR \<equiv> 0x9b"
abbreviation OP_NUMEQUAL :: u8 where "OP_NUMEQUAL \<equiv> 0x9c"
abbreviation OP_NUMEQUALVERIFY :: u8 where "OP_NUMEQUALVERIFY \<equiv> 0x9d"
abbreviation OP_NUMNOTEQUAL :: u8 where "OP_NUMNOTEQUAL \<equiv> 0x9e"
abbreviation OP_LESSTHAN :: u8 where "OP_LESSTHAN \<equiv> 0x9f"
abbreviation OP_GREATERTHAN :: u8 where "OP_GREATERTHAN \<equiv> 0xa0"
abbreviation OP_LESSTHANOREQUAL :: u8 where "OP_LESSTHANOREQUAL \<equiv> 0xa1"
abbreviation OP_GREATERTHANOREQUAL :: u8 where "OP_GREATERTHANOREQUAL \<equiv> 0xa2"
abbreviation OP_MIN :: u8 where "OP_MIN \<equiv> 0xa3"
abbreviation OP_MAX :: u8 where "OP_MAX \<equiv> 0xa4"
abbreviation OP_WITHIN :: u8 where "OP_WITHIN \<equiv> 0xa5"
abbreviation OP_RIPEMD160 :: u8 where "OP_RIPEMD160 \<equiv> 0xa6"
abbreviation OP_SHA1 :: u8 where "OP_SHA1 \<equiv> 0xa7"
abbreviation OP_SHA256 :: u8 where "OP_SHA256 \<equiv> 0xa8"
abbreviation OP_HASH160 :: u8 where "OP_HASH160 \<equiv> 0xa9"
abbreviation OP_HASH256 :: u8 where "OP_HASH256 \<equiv> 0xaa"
abbreviation OP_CODESEPARATOR :: u8 where "OP_CODESEPARATOR \<equiv> 0xab"
abbreviation OP_CHECKSIG :: u8 where "OP_CHECKSIG \<equiv> 0xac"
abbreviation OP_CHECKSIGVERIFY :: u8 where "OP_CHECKSIGVERIFY \<equiv> 0xad"
abbreviation OP_CHECKMULTISIG :: u8 where "OP_CHECKMULTISIG \<equiv> 0xae"
abbreviation OP_CHECKMULTISIGVERIFY :: u8 where "OP_CHECKMULTISIGVERIFY \<equiv> 0xaf"
abbreviation OP_NOP1 :: u8 where "OP_NOP1 \<equiv> 0xb0"
abbreviation OP_CHECKLOCKTIMEVERIFY :: u8 where "OP_CHECKLOCKTIMEVERIFY \<equiv> 0xb1"
abbreviation OP_NOP2 :: u8 where "OP_NOP2 \<equiv> OP_CHECKLOCKTIMEVERIFY"
abbreviation OP_CHECKSEQUENCEVERIFY :: u8 where "OP_CHECKSEQUENCEVERIFY \<equiv> 0xb2"
abbreviation OP_NOP3 :: u8 where "OP_NOP3 \<equiv> OP_CHECKSEQUENCEVERIFY"
abbreviation OP_NOP4 :: u8 where "OP_NOP4 \<equiv> 0xb3"
abbreviation OP_NOP5 :: u8 where "OP_NOP5 \<equiv> 0xb4"
abbreviation OP_NOP6 :: u8 where "OP_NOP6 \<equiv> 0xb5"
abbreviation OP_NOP7 :: u8 where "OP_NOP7 \<equiv> 0xb6"
abbreviation OP_NOP8 :: u8 where "OP_NOP8 \<equiv> 0xb7"
abbreviation OP_NOP9 :: u8 where "OP_NOP9 \<equiv> 0xb8"
abbreviation OP_NOP10 :: u8 where "OP_NOP10 \<equiv> 0xb9"
abbreviation OP_cmusicai_ASSET :: u8 where "OP_cmusicai_ASSET \<equiv> 0xc0"
abbreviation OP_SMALLINTEGER :: u8 where "OP_SMALLINTEGER \<equiv> 0xfa"
abbreviation OP_PUBKEYS :: u8 where "OP_PUBKEYS \<equiv> 0xfb"
abbreviation OP_PUBKEYHASH :: u8 where "OP_PUBKEYHASH \<equiv> 0xfd"
abbreviation OP_PUBKEY :: u8 where "OP_PUBKEY \<equiv> 0xfe"
abbreviation OP_INVALIDOPCODE :: u8 where "OP_INVALIDOPCODE \<equiv> 0xff"
abbreviation MAX_OPCODE :: u8 where "MAX_OPCODE \<equiv> OP_NOP10"

section \<open>Script numbers\<close>

text \<open>
  \<^verbatim>\<open>CScriptNum\<close> holds an \<^verbatim>\<open>int64_t\<close>, here an \<open>int\<close> in that range. The bytes of the absolute value from the
  lowest up:
\<close>

function abs_bytes :: "u64 \<Rightarrow> bytes" where
  "abs_bytes absvalue = (if absvalue = 0 then [] else ucast (absvalue AND 0xff) # abs_bytes (drop_bit 8 absvalue))"
  by auto
termination
proof (relation "measure unat")
  fix v :: u64
  assume "v \<noteq> 0"
  then have "0 < unat v" by (simp add: unat_gt_0)
  then show "(drop_bit 8 v, v) \<in> measure unat"
    by (simp add: unat_drop_bit_div)
qed simp

declare abs_bytes.simps [simp del]

definition scriptnum_serialize :: "int \<Rightarrow> bytes" where
  "scriptnum_serialize v =
     (if v = 0 then []
      else let neg = v < 0;
               absvalue = (if neg then word_of_int (- v) else word_of_int v) :: u64;
               result = abs_bytes absvalue in
        if last result AND 0x80 \<noteq> 0 then result @ [if neg then 0x80 else 0]
        else if neg then butlast result @ [last result OR 0x80]
        else result)"

definition set_vch :: "bytes \<Rightarrow> int" where
  "set_vch vch =
     (if vch = [] then 0
      else let result = fold (\<lambda>i r. r OR push_bit (8 * i) (ucast (vch ! i))) [0..<length vch] (0 :: u64) in
        if last vch AND 0x80 \<noteq> 0
        then - sint (result AND NOT (push_bit (8 * (length vch - 1)) 0x80))
        else sint result)"

definition CScriptNum :: "bytes \<Rightarrow> bool \<Rightarrow> nat \<Rightarrow> int outcome" where
  "CScriptNum vch fRequireMinimal nMaxNumSize =
     (if length vch > nMaxNumSize then Inl (Throw ''script number overflow'')
      else bind_out
        (if fRequireMinimal \<and> length vch > 0 then
           bind_out (vector_at_end vch 1) (\<lambda>top.
             if top AND 0x7f = 0 then
               (if length vch \<le> 1 then Inr True
                else bind_out (vector_at_end vch 2) (\<lambda>next. Inr (next AND 0x80 = 0)))
             else Inr False)
         else Inr False)
        (\<lambda>fNotMinimal.
          if fNotMinimal then Inl (Throw ''non-minimally encoded script number'') else Inr (set_vch vch)))"

definition nDefaultMaxNumSize :: nat where "nDefaultMaxNumSize = 4"

definition scriptnum_plus :: "int \<Rightarrow> int \<Rightarrow> int" where "scriptnum_plus a b = wrap64 (a + b)"
definition scriptnum_minus :: "int \<Rightarrow> int \<Rightarrow> int" where "scriptnum_minus a b = wrap64 (a - b)"

definition scriptnum_neg :: "int \<Rightarrow> int outcome" where
  "scriptnum_neg a = assert_out (a \<noteq> int64_min) (Inr (- a))"

definition scriptnum_add_assign :: "int \<Rightarrow> int \<Rightarrow> int outcome" where
  "scriptnum_add_assign a rhs =
     assert_out (rhs = 0 \<or> (rhs > 0 \<and> a \<le> int64_max - rhs) \<or> (rhs < 0 \<and> a \<ge> int64_min - rhs))
       (Inr (a + rhs))"

definition scriptnum_sub_assign :: "int \<Rightarrow> int \<Rightarrow> int outcome" where
  "scriptnum_sub_assign a rhs =
     assert_out (rhs = 0 \<or> (rhs > 0 \<and> a \<ge> int64_min + rhs) \<or> (rhs < 0 \<and> a \<le> int64_max + rhs))
       (Inr (a - rhs))"

definition scriptnum_and :: "int \<Rightarrow> int \<Rightarrow> int" where "scriptnum_and a b = a AND b"

definition getint :: "int \<Rightarrow> int" where
  "getint v = (if v > 2 ^ 31 - 1 then 2 ^ 31 - 1 else if v < - (2 ^ 31) then - (2 ^ 31) else v)"

section \<open>Writing scripts\<close>

definition push_opcode :: "CScript \<Rightarrow> opcodetype \<Rightarrow> CScript" where
  "push_opcode s opcode = s @ [opcode]"

definition push_data :: "CScript \<Rightarrow> bytes \<Rightarrow> CScript" where
  "push_data s b =
     (if length b < 0x4c then s @ [of_nat (length b)]
      else if length b \<le> 0xff then s @ [OP_PUSHDATA1, of_nat (length b)]
      else if length b \<le> 0xffff then s @ [OP_PUSHDATA2] @ WriteLE16 (of_nat (length b))
      else s @ [OP_PUSHDATA4] @ WriteLE32 (of_nat (length b))) @ b"

definition push_int64 :: "CScript \<Rightarrow> int \<Rightarrow> CScript" where
  "push_int64 s v =
     (if v = - 1 \<or> (v \<ge> 1 \<and> v \<le> 16) then s @ [word_of_int (v + (uint OP_1 - 1))]
      else if v = 0 then s @ [OP_0]
      else push_data s (scriptnum_serialize v))"

section \<open>Reading scripts\<close>

text \<open>
  \<open>GetOp2\<close> returns its verdict, the opcode, the pushed bytes and the position it leaves \<open>pc\<close> at, which
  has moved even when the operand is cut short.
\<close>

definition read_operand :: "opcodetype \<Rightarrow> bytes \<Rightarrow> (nat \<times> bytes) option" where
  "read_operand opcode pc =
     (if opcode < OP_PUSHDATA1 then Some (unat opcode, pc)
      else if opcode = OP_PUSHDATA1 then
        (if length pc < 1 then None else Some (unat (pc ! 0), drop 1 pc))
      else if opcode = OP_PUSHDATA2 then
        (if length pc < 2 then None else Some (unat (ReadLE16 pc), drop 2 pc))
      else
        (if length pc < 4 then None else Some (unat (ReadLE32 pc), drop 4 pc)))"

definition GetOp2 :: "bytes \<Rightarrow> bool \<times> opcodetype \<times> bytes \<times> bytes" where
  "GetOp2 pc =
     (case pc of [] \<Rightarrow> (False, OP_INVALIDOPCODE, [], [])
      | opcode # pc \<Rightarrow>
        (if opcode \<le> OP_PUSHDATA4 then
           (case read_operand opcode pc of
              None \<Rightarrow> (False, OP_INVALIDOPCODE, [], pc)
            | Some (nSize, pc) \<Rightarrow>
                if length pc < nSize then (False, OP_INVALIDOPCODE, [], pc)
                else (True, opcode, take nSize pc, drop nSize pc))
         else if opcode = OP_cmusicai_ASSET then (True, opcode, pc, [])
         else (True, opcode, [], pc)))"

definition DecodeOP_N :: "opcodetype \<Rightarrow> int outcome" where
  "DecodeOP_N opcode =
     (if opcode = OP_0 then Inr 0
      else assert_out (opcode \<ge> OP_1 \<and> opcode \<le> OP_16) (Inr (uint opcode - (uint OP_1 - 1))))"

definition EncodeOP_N :: "int \<Rightarrow> opcodetype outcome" where
  "EncodeOP_N k =
     assert_out (k \<ge> 0 \<and> k \<le> 16) (Inr (if k = 0 then OP_0 else word_of_int (uint OP_1 + k - 1)))"

lemma read_operand_length: "read_operand opcode pc = Some (k, pc') \<Longrightarrow> length pc' \<le> length pc"
  by (auto simp: read_operand_def split: if_splits)

lemma GetOp2_length:
  "GetOp2 pc = (r, opcode, v, pc') \<Longrightarrow> length pc' \<le> length pc \<and> (pc \<noteq> [] \<longrightarrow> length pc' < length pc)"
  by (auto simp: GetOp2_def split: list.splits if_splits option.splits dest!: read_operand_length)

lemma GetOp2_decreases [simp]:
  "GetOp2 pc = (r, opcode, v, pc') \<Longrightarrow> pc \<noteq> [] \<Longrightarrow> length pc' < length pc"
  using GetOp2_length by blast

text \<open>Removal of every occurrence of \<open>b\<close> at the start of an instruction.\<close>

function skip_matches :: "CScript \<Rightarrow> bytes \<Rightarrow> nat \<times> bytes" where
  "skip_matches b pc =
     (if b \<noteq> [] \<and> length pc \<ge> length b \<and> take (length b) pc = b
      then (let (k, pc) = skip_matches b (drop (length b) pc) in (k + 1, pc))
      else (0, pc))"
  by auto
termination by (relation "measure (\<lambda>(b, pc). length pc)") (auto intro!: diff_less)

declare skip_matches.simps [simp del]

lemma skip_matches_length: "length (snd (skip_matches b pc)) \<le> length pc"
proof (induction b pc rule: skip_matches.induct)
  case (1 b pc)
  show ?case
  proof (cases "b \<noteq> [] \<and> length pc \<ge> length b \<and> take (length b) pc = b")
    case True
    then show ?thesis
      using 1 by (subst skip_matches.simps) (auto simp: case_prod_beta intro: order_trans)
  next
    case False
    then show ?thesis by (subst skip_matches.simps) auto
  qed
qed

text \<open>
  The loop returns what it kept, the matches and the position \<open>pc2\<close>; \<open>chunk\<close> is the text between \<open>pc2\<close>
  and \<open>pc\<close> when it is entered.
\<close>

function find_and_delete :: "CScript \<Rightarrow> bytes \<Rightarrow> bytes \<Rightarrow> bytes \<Rightarrow> nat \<Rightarrow> bytes \<times> nat \<times> bytes" where
  "find_and_delete b chunk pc result nFound =
     (let result = result @ chunk;
          (k, pc2) = skip_matches b pc;
          nFound = nFound + k;
          (ok, opcode, v, pc) = GetOp2 pc2
      in if ok then find_and_delete b (take (length pc2 - length pc) pc2) pc result nFound
         else (result, nFound, pc2))"
  by auto
termination
proof (relation "measure (\<lambda>(b, chunk, pc, r, k). length pc)", goal_cases)
  case 1
  then show ?case by simp
next
  case (2 b chunk pc result nFound result' x k pc2 nFound' y ok y' opcode y'' v pc')
  have "length pc2 \<le> length pc"
    using skip_matches_length [of b pc] 2 by (metis snd_conv)
  moreover have "pc2 \<noteq> []"
    using 2 by (auto simp: GetOp2_def)
  then have "length pc' < length pc2"
    using GetOp2_length [of pc2 ok opcode v pc'] 2 by simp
  ultimately show ?case by simp
qed

declare find_and_delete.simps [simp del]

definition FindAndDelete :: "CScript \<Rightarrow> CScript \<Rightarrow> nat \<times> CScript" where
  "FindAndDelete s b =
     (if b = [] then (0, s)
      else let (result, nFound, pc2) = find_and_delete b [] s [] 0 in
        if nFound > 0 then (nFound, result @ pc2) else (nFound, s))"

lemma GetOp2_decreases_sym:
  "(r, opcode, v, pc') = GetOp2 pc \<Longrightarrow> pc \<noteq> [] \<Longrightarrow> length pc' < length pc"
  using GetOp2_length [of pc r opcode v pc'] by simp

section \<open>Scanning scripts\<close>

function find_op_loop :: "opcodetype \<Rightarrow> bytes \<Rightarrow> nat \<Rightarrow> nat" where
  "find_op_loop op pc nFound =
     (if pc = [] then nFound
      else let (ok, opcode, v, pc) = GetOp2 pc in
        if ok then find_op_loop op pc (if opcode = op then nFound + 1 else nFound) else nFound)"
  by auto
termination
  by (relation "measure (\<lambda>(op, pc, k). length pc)") (auto dest: GetOp2_decreases_sym)

definition script_Find :: "CScript \<Rightarrow> opcodetype \<Rightarrow> nat" where
  "script_Find s op = find_op_loop op s 0"

function sigop_loop :: "bool \<Rightarrow> opcodetype \<Rightarrow> bytes \<Rightarrow> int \<Rightarrow> int outcome" where
  "sigop_loop fAccurate lastOpcode pc k =
     (if pc = [] then Inr k
      else let (ok, opcode, v, pc) = GetOp2 pc in
        if \<not> ok then Inr k
        else if opcode = OP_CHECKSIG \<or> opcode = OP_CHECKSIGVERIFY
          then sigop_loop fAccurate opcode pc (k + 1)
        else if opcode = OP_CHECKMULTISIG \<or> opcode = OP_CHECKMULTISIGVERIFY then
          (if fAccurate \<and> lastOpcode \<ge> OP_1 \<and> lastOpcode \<le> OP_16
           then bind_out (DecodeOP_N lastOpcode) (\<lambda>d. sigop_loop fAccurate opcode pc (k + d))
           else sigop_loop fAccurate opcode pc (k + MAX_PUBKEYS_PER_MULTISIG))
        else sigop_loop fAccurate opcode pc k)"
  by auto
termination
  by (relation "measure (\<lambda>(a, l, pc, k). length pc)") (auto dest: GetOp2_decreases_sym)

definition GetSigOpCount :: "CScript \<Rightarrow> bool \<Rightarrow> int outcome" where
  "GetSigOpCount s fAccurate = sigop_loop fAccurate OP_INVALIDOPCODE s 0"

definition IsPayToPublicKeyHash :: "CScript \<Rightarrow> bool" where
  "IsPayToPublicKeyHash s \<longleftrightarrow>
     length s = 25 \<and> s ! 0 = OP_DUP \<and> s ! 1 = OP_HASH160 \<and> s ! 2 = 0x14 \<and>
     s ! 23 = OP_EQUALVERIFY \<and> s ! 24 = OP_CHECKSIG"

definition IsPayToScriptHash :: "CScript \<Rightarrow> bool" where
  "IsPayToScriptHash s \<longleftrightarrow>
     length s = 23 \<and> s ! 0 = OP_HASH160 \<and> s ! 1 = 0x14 \<and> s ! 22 = OP_EQUAL"

text \<open>The last item a push-only script pushes; \<open>None\<close> when it is not one.\<close>

function last_push_loop :: "bytes \<Rightarrow> bytes \<Rightarrow> bytes option" where
  "last_push_loop pc vData =
     (if pc = [] then Some vData
      else let (ok, opcode, vData, pc) = GetOp2 pc in
        if \<not> ok then None else if opcode > OP_16 then None else last_push_loop pc vData)"
  by auto
termination
  by (relation "measure (\<lambda>(pc, v). length pc)") (auto dest: GetOp2_decreases_sym)

definition GetSigOpCount_P2SH :: "CScript \<Rightarrow> CScript \<Rightarrow> int outcome" where
  "GetSigOpCount_P2SH s scriptSig =
     (if \<not> IsPayToScriptHash s then GetSigOpCount s True
      else case last_push_loop scriptSig [] of
          None \<Rightarrow> Inr 0
        | Some vData \<Rightarrow> GetSigOpCount vData True)"

definition IsPayToWitnessScriptHash :: "CScript \<Rightarrow> bool" where
  "IsPayToWitnessScriptHash s \<longleftrightarrow> length s = 34 \<and> s ! 0 = OP_0 \<and> s ! 1 = 0x20"

definition IsWitnessProgram :: "CScript \<Rightarrow> (int \<times> bytes) option outcome" where
  "IsWitnessProgram s =
     (if length s < 4 \<or> length s > 42 then Inr None
      else if s ! 0 \<noteq> OP_0 \<and> (s ! 0 < OP_1 \<or> s ! 0 > OP_16) then Inr None
      else if unat (s ! 1) + 2 = length s
        then bind_out (DecodeOP_N (s ! 0)) (\<lambda>version. Inr (Some (version, drop 2 s)))
      else Inr None)"

definition IsPayToPublicKey :: "CScript \<Rightarrow> bool" where
  "IsPayToPublicKey s =
     (if length s = 35 then (s ! 1 = 0x02 \<or> s ! 1 = 0x03) \<and> s ! 34 = OP_CHECKSIG
      else if length s = 67 then s ! 1 = 0x04 \<and> s ! 66 = OP_CHECKSIG
      else False)"

function IsPushOnly :: "bytes \<Rightarrow> bool" where
  "IsPushOnly pc =
     (if pc = [] then True
      else let (ok, opcode, v, pc) = GetOp2 pc in
        if \<not> ok then False else if opcode > OP_16 then False else IsPushOnly pc)"
  by auto
termination
  by (relation "measure length") (auto dest: GetOp2_decreases_sym)

function HasValidOps :: "bytes \<Rightarrow> bool" where
  "HasValidOps it =
     (if it = [] then True
      else let (ok, opcode, item, it) = GetOp2 it in
        if \<not> ok \<or> opcode > MAX_OPCODE \<or> length item > MAX_SCRIPT_ELEMENT_SIZE then False
        else HasValidOps it)"
  by auto
termination
  by (relation "measure length") (auto dest: GetOp2_decreases_sym)

declare find_op_loop.simps [simp del] sigop_loop.simps [simp del] last_push_loop.simps [simp del]
  IsPushOnly.simps [simp del] HasValidOps.simps [simp del]

section \<open>Asset scripts\<close>

definition cmusicai_N :: u8 where "cmusicai_N = 114"
definition cmusicai_E :: u8 where "cmusicai_E = 118"
definition cmusicai_X :: u8 where "cmusicai_X = 110"
definition cmusicai_Q :: u8 where "cmusicai_Q = 113"
definition cmusicai_T :: u8 where "cmusicai_T = 116"
definition cmusicai_O :: u8 where "cmusicai_O = 111"
definition OWNER_ASSET_AMOUNT :: CAmount where "OWNER_ASSET_AMOUNT = 1 * COIN"

datatype txnouttype =
  TX_NONSTANDARD | TX_PUBKEY | TX_PUBKEYHASH | TX_SCRIPTHASH | TX_MULTISIG | TX_NULL_DATA |
  TX_WITNESS_V0_SCRIPTHASH | TX_WITNESS_V0_KEYHASH | TX_NEW_ASSET | TX_REISSUE_ASSET |
  TX_TRANSFER_ASSET | TX_RESTRICTED_ASSET_DATA

text \<open>The index of the letter after the marker, which starts at 27 or at 28.\<close>

definition marker_index :: "CScript \<Rightarrow> nat option" where
  "marker_index s =
     (if s ! 27 = cmusicai_N then
        (if s ! 28 = cmusicai_E \<and> s ! 29 = cmusicai_X then Some 30 else None)
      else
        (if s ! 28 = cmusicai_N \<and> s ! 29 = cmusicai_E \<and> s ! 30 = cmusicai_X then Some 31 else None))"

text \<open>\<open>nType\<close>, \<open>fIsOwner\<close> (false where the code leaves it alone) and \<open>nStartingIndex\<close>.\<close>

definition IsAssetScript :: "CScript \<Rightarrow> (txnouttype \<times> bool \<times> nat) option" where
  "IsAssetScript s =
     (if length s > 31 \<and> s ! 25 = OP_cmusicai_ASSET then
        (case marker_index s of None \<Rightarrow> None
         | Some index \<Rightarrow>
             if s ! index = cmusicai_T then Some (TX_TRANSFER_ASSET, False, index + 1)
             else if s ! index = cmusicai_Q \<and> length s > 39 then Some (TX_NEW_ASSET, False, index + 1)
             else if s ! index = cmusicai_O then Some (TX_NEW_ASSET, True, index + 1)
             else if s ! index = cmusicai_N then Some (TX_REISSUE_ASSET, False, index + 1)
             else None)
      else None)"

definition script_IsNewAsset :: "CScript \<Rightarrow> bool" where
  "script_IsNewAsset s =
     (case IsAssetScript s of Some (t, fIsOwner, _) \<Rightarrow> \<not> fIsOwner \<and> t = TX_NEW_ASSET | None \<Rightarrow> False)"

definition script_IsOwnerAsset :: "CScript \<Rightarrow> bool" where
  "script_IsOwnerAsset s =
     (case IsAssetScript s of Some (t, fIsOwner, _) \<Rightarrow> fIsOwner \<and> t = TX_NEW_ASSET | None \<Rightarrow> False)"

definition script_IsReissueAsset :: "CScript \<Rightarrow> bool" where
  "script_IsReissueAsset s =
     (case IsAssetScript s of Some (t, _, _) \<Rightarrow> t = TX_REISSUE_ASSET | None \<Rightarrow> False)"

definition script_IsTransferAsset :: "CScript \<Rightarrow> bool" where
  "script_IsTransferAsset s =
     (case IsAssetScript s of Some (t, _, _) \<Rightarrow> t = TX_TRANSFER_ASSET | None \<Rightarrow> False)"

definition IsNullAssetTxDataScript :: "CScript \<Rightarrow> bool" where
  "IsNullAssetTxDataScript s \<longleftrightarrow> length s > 23 \<and> s ! 0 = OP_cmusicai_ASSET \<and> s ! 1 = 0x14"

definition IsNullGlobalRestrictionAssetTxDataScript :: "CScript \<Rightarrow> bool" where
  "IsNullGlobalRestrictionAssetTxDataScript s \<longleftrightarrow>
     length s > 6 \<and> s ! 0 = OP_cmusicai_ASSET \<and> s ! 1 = OP_RESERVED \<and> s ! 2 = OP_RESERVED"

definition IsNullAssetVerifierTxDataScript :: "CScript \<Rightarrow> bool" where
  "IsNullAssetVerifierTxDataScript s \<longleftrightarrow>
     length s > 3 \<and> s ! 0 = OP_cmusicai_ASSET \<and> s ! 1 = OP_RESERVED \<and> s ! 2 \<noteq> OP_RESERVED"

definition IsNullAsset :: "CScript \<Rightarrow> bool" where
  "IsNullAsset s \<longleftrightarrow>
     IsNullAssetTxDataScript s \<or> IsNullGlobalRestrictionAssetTxDataScript s \<or>
     IsNullAssetVerifierTxDataScript s"

text \<open>The starting index each of the three kinds of record has in its script.\<close>

definition ScriptNewAsset :: "CScript \<Rightarrow> nat option" where
  "ScriptNewAsset s =
     (case IsAssetScript s of
        Some (t, fIsOwner, start) \<Rightarrow> if t = TX_NEW_ASSET \<and> \<not> fIsOwner then Some start else None
      | None \<Rightarrow> None)"

definition ScriptTransferAsset :: "CScript \<Rightarrow> nat option" where
  "ScriptTransferAsset s =
     (case IsAssetScript s of
        Some (t, _, start) \<Rightarrow> if t = TX_TRANSFER_ASSET then Some start else None | None \<Rightarrow> None)"

definition ScriptReissueAsset :: "CScript \<Rightarrow> nat option" where
  "ScriptReissueAsset s =
     (case IsAssetScript s of
        Some (t, _, start) \<Rightarrow> if t = TX_REISSUE_ASSET then Some start else None | None \<Rightarrow> None)"

text \<open>The exceptions of the readers are caught: \<open>None\<close> is the result \<^verbatim>\<open>false\<close>.\<close>

definition read_amount :: "nat option \<Rightarrow> 'a reader \<Rightarrow> ('a \<Rightarrow> CAmount) \<Rightarrow> CScript \<Rightarrow> CAmount option" where
  "read_amount start unser amount s =
     (case start of None \<Rightarrow> None
      | Some i \<Rightarrow> (case unser (drop i s) of Inl _ \<Rightarrow> None | Inr (a, _) \<Rightarrow> Some (amount a)))"

definition AmountFromNewAssetScript :: "CScript \<Rightarrow> CAmount option" where
  "AmountFromNewAssetScript s = read_amount (ScriptNewAsset s) unser_new_asset na_nAmount s"

definition AmountFromTransferScript :: "CScript \<Rightarrow> CAmount option" where
  "AmountFromTransferScript s = read_amount (ScriptTransferAsset s) unser_asset_transfer tr_nAmount s"

definition AmountFromReissueScript :: "CScript \<Rightarrow> CAmount option" where
  "AmountFromReissueScript s = read_amount (ScriptReissueAsset s) unser_reissue_asset re_nAmount s"

definition GetAssetAmountFromScript :: "CScript \<Rightarrow> CAmount option" where
  "GetAssetAmountFromScript s =
     (case IsAssetScript s of None \<Rightarrow> None
      | Some (type, fIsOwner, _) \<Rightarrow>
          if type = TX_NEW_ASSET \<and> \<not> fIsOwner then AmountFromNewAssetScript s
          else if type = TX_TRANSFER_ASSET then AmountFromTransferScript s
          else if type = TX_NEW_ASSET \<and> fIsOwner then Some OWNER_ASSET_AMOUNT
          else if type = TX_REISSUE_ASSET then AmountFromReissueScript s
          else None)"

definition IsUnspendable :: "CScript \<Rightarrow> bool" where
  "IsUnspendable s \<longleftrightarrow>
     (length s > 0 \<and> hd s = OP_RETURN) \<or> (length s > 0 \<and> hd s = OP_cmusicai_ASSET) \<or>
     length s > MAX_SCRIPT_SIZE \<or>
     (case GetAssetAmountFromScript s of Some nAmount \<Rightarrow> nAmount = 0 | None \<Rightarrow> False)"

section \<open>Script numbers denote integers\<close>

text \<open>The number a byte list denotes, lowest byte first.\<close>

fun bval :: "bytes \<Rightarrow> nat" where
  "bval [] = 0"
| "bval (b # bs) = unat b + 256 * bval bs"

lemma unat_u8_less: "unat (b :: u8) < 256"
  using unsigned_less [of b, where ?'a = nat] by simp

lemma bval_append: "bval (xs @ ys) = bval xs + 256 ^ length xs * bval ys"
  by (induction xs) (simp_all add: algebra_simps)

lemma bval_less: "bval bs < 256 ^ length bs"
proof (induction bs)
  case (Cons b bs)
  have "unat b + 256 * bval bs < 256 + 256 * bval bs" using unat_u8_less [of b] by simp
  also have "\<dots> \<le> 256 * 256 ^ length bs" using Cons by (simp add: Suc_leI)
  finally show ?case by simp
qed simp

lemma and_ff: "unat (ucast (v AND 0xff :: u64) :: u8) = unat v mod 256"
proof -
  have "v AND 0xff = take_bit 8 v" by (simp add: take_bit_eq_mask mask_numeral)
  then have "(ucast (v AND 0xff) :: u8) = ucast v" 
    by (auto intro!: bit_word_eqI simp: bit_simps)
  then show ?thesis
    by (simp add: unsigned_ucast_eq unsigned_take_bit_eq take_bit_eq_mod)
qed

lemma bval_abs_bytes: "bval (abs_bytes v) = unat v"
proof (induction v rule: abs_bytes.induct)
  case (1 v)
  show ?case
  proof (cases "v = 0")
    case True
    then show ?thesis by (simp add: abs_bytes.simps)
  next
    case False
    have "bval (abs_bytes v) = unat v mod 256 + 256 * unat (drop_bit 8 v)"
      by (subst abs_bytes.simps) (simp only: False if_False bval.simps and_ff "1" [OF False])
    also have "unat (drop_bit 8 v) = unat v div 256"
      by (simp add: unat_drop_bit_div)
    finally show ?thesis by (simp only: mod_mult_div_eq)
  qed
qed

lemma last_abs_bytes: "v \<noteq> 0 \<Longrightarrow> abs_bytes v \<noteq> [] \<and> last (abs_bytes v) \<noteq> 0"
proof (induction v rule: abs_bytes.induct)
  case (1 v)
  show ?case
  proof (cases "drop_bit 8 v = 0")
    case True
    then have "unat v div 256 = 0"
      using unat_drop_bit_div [of 8 v] by simp
    then have "unat (ucast (v AND 0xff) :: u8) = unat v"
      by (subst and_ff) (simp add: div_eq_0_iff)
    then have "(ucast (v AND 0xff) :: u8) \<noteq> 0"
      using \<open>v \<noteq> 0\<close> by (metis unat_0 unat_eq_0)
    moreover have "abs_bytes v = [ucast (v AND 0xff)]"
      using \<open>v \<noteq> 0\<close> by (subst abs_bytes.simps, subst abs_bytes.simps) (simp add: True)
    ultimately show ?thesis by simp
  next
    case False
    have "abs_bytes v = ucast (v AND 0xff) # abs_bytes (drop_bit 8 v)"
      using \<open>v \<noteq> 0\<close> by (subst abs_bytes.simps) simp
    then show ?thesis
      using "1.IH" [OF \<open>v \<noteq> 0\<close> False] by simp
  qed
qed

lemma unat_eqD: "unat (x :: 'a :: len word) = k \<Longrightarrow> x = of_nat k"
  by auto

lemma abs_bytes_bval:
  assumes "bs = [] \<or> last bs \<noteq> 0" and "length bs \<le> 8"
  shows "abs_bytes (of_nat (bval bs)) = bs"
  using assms
proof (induction bs)
  case Nil
  then show ?case by (simp add: abs_bytes.simps)
next
  case (Cons b bs)
  have "bval (b # bs) < 256 ^ length (b # bs)" by (rule bval_less)
  also have "\<dots> \<le> 256 ^ 8" using Cons.prems(2) by (intro power_increasing) simp_all
  finally have u: "unat (of_nat (bval (b # bs)) :: u64) = bval (b # bs)"
    by (simp add: unat_of_nat take_bit_nat_eq_self del: bval.simps)
  have "bval (b # bs) \<noteq> 0"
  proof (cases bs rule: rev_cases)
    case Nil
    then show ?thesis using Cons.prems(1) by (auto simp: unat_eq_0)
  next
    case (snoc ys y)
    then have "unat y \<noteq> 0" using Cons.prems(1) by (auto simp: unat_eq_0)
    then show ?thesis by (simp add: snoc bval_append)
  qed
  then have nz: "(of_nat (bval (b # bs)) :: u64) \<noteq> 0" using u by (metis unat_0)
  have "drop_bit 8 (of_nat (bval (b # bs)) :: u64) = of_nat (bval bs)"
  proof -
    have "unat (drop_bit 8 (of_nat (bval (b # bs)) :: u64)) = bval bs"
      using unat_u8_less [of b] by (simp add: unat_drop_bit_div u del: bval.simps) simp
    then show ?thesis by (rule unat_eqD)
  qed
  moreover have "(ucast ((of_nat (bval (b # bs)) :: u64) AND 0xff) :: u8) = b"
  proof -
    have "unat (ucast ((of_nat (bval (b # bs)) :: u64) AND 0xff) :: u8) = bval (b # bs) mod 256"
      by (simp only: and_ff u)
    also have "\<dots> = unat b" using unat_u8_less [of b] by simp
    finally show ?thesis by (simp only: word_unat_eq_iff)
  qed
  moreover have "abs_bytes (of_nat (bval bs)) = bs"
    using Cons by (cases "bs = []") (auto simp: abs_bytes.simps)
  ultimately show ?case
    using nz by (subst abs_bytes.simps) simp
qed

lemma length_abs_bytes: "length (abs_bytes v) \<le> 8"
proof (cases "v = 0")
  case False
  define bs where "bs = abs_bytes v"
  have "last bs \<noteq> 0" and "bs \<noteq> []" using last_abs_bytes [OF False] by (simp_all add: bs_def)
  then have "256 ^ (length bs - 1) \<le> bval bs"
    by (cases bs rule: rev_cases) (auto simp: bval_append unat_gt_0 Suc_le_eq intro!: trans_le_add2)
  also have "\<dots> < 256 ^ 8"
    using unsigned_less [of v, where ?'a = nat] by (simp add: bs_def bval_abs_bytes)
  finally have "length bs - 1 < 8" by (simp only: power_strict_increasing_iff one_less_numeral_iff num.simps semiring_norm)
  then show ?thesis by (simp add: bs_def)
qed (simp add: abs_bytes.simps)

lemma unat_push_bit:
  assumes "unat (w :: 'a :: len word) * 2 ^ k < 2 ^ LENGTH('a)"
  shows "unat (push_bit k w) = unat w * 2 ^ k"
  using assms unfolding unsigned_push_bit_eq by (simp only: push_bit_eq_mult take_bit_nat_eq_self)

lemma fold_bytes_or:
  assumes "k \<le> length vch" and "length vch \<le> 8"
  shows "unat (fold (\<lambda>i r. r OR push_bit (8 * i) (ucast (vch ! i))) [0..<k] (0 :: u64)) = bval (take k vch)"
  using assms(1)
proof (induction k)
  case (Suc k)
  define r where "r = fold (\<lambda>i r. r OR push_bit (8 * i) (ucast (vch ! i))) [0..<k] (0 :: u64)"
  have r: "unat r = bval (take k vch)" using Suc by (simp add: r_def)
  have rl: "unat r < 2 ^ (8 * k)"
    using bval_less [of "take k vch"] Suc.prems by (simp add: r power_mult)
  have b: "unat (ucast (vch ! k) :: u64) = unat (vch ! k)" by (simp add: unat_ucast_up)
  have "unat (vch ! k) * 256 ^ k < 256 ^ Suc k"
    using unat_u8_less [of "vch ! k"] by simp
  also have "\<dots> \<le> 256 ^ 8" using Suc.prems assms(2) by (intro power_increasing) simp_all
  finally have p: "unat (push_bit (8 * k) (ucast (vch ! k)) :: u64) = unat (vch ! k) * 256 ^ k"
    by (subst unat_push_bit) (simp_all add: b power_mult)
  have "r OR push_bit (8 * k) (ucast (vch ! k)) = push_bit (8 * k) (ucast (vch ! k)) + r"
    using or_eq_add_disjoint [OF rl, of "ucast (vch ! k)"] by (simp only: or.commute [of r])
  moreover have "unat (push_bit (8 * k) (ucast (vch ! k)) + r) = bval (take (Suc k) vch)"
  proof -
    have t: "unat (push_bit (8 * k) (ucast (vch ! k)) :: u64) + unat r = bval (take (Suc k) vch)"
      unfolding p r using Suc.prems by (simp add: take_Suc_conv_app_nth bval_append)
    have "bval (take (Suc k) vch) < 256 ^ Suc k"
      using bval_less [of "take (Suc k) vch"] Suc.prems by simp
    also have "\<dots> \<le> 256 ^ 8" using Suc.prems assms(2) by (intro power_increasing) simp_all
    finally have "unat (push_bit (8 * k) (ucast (vch ! k)) :: u64) + unat r < 2 ^ LENGTH(64)"
      unfolding t by simp
    then show ?thesis
      unfolding t [symmetric] by (simp only: unat_add_lem)
  qed
  ultimately show ?case by (simp add: r_def)
qed simp

lemma and_80: "(t :: u8) AND 0x80 = (if unat t \<ge> 128 then 0x80 else 0)"
proof -
  have "t AND 2 ^ 7 = (if bit t 7 then 2 ^ 7 else 0)" by (rule and_exp_bit)
  moreover have "bit t 7 \<longleftrightarrow> unat t \<ge> 128"
  proof -
    have "bit t 7 \<longleftrightarrow> odd (unat t div 2 ^ 7)"
      by (simp only: bit_iff_odd [symmetric] bit_unsigned_iff) (auto dest: bit_imp_le_length)
    also have "\<dots> \<longleftrightarrow> unat t \<ge> 128"
    proof -
      have "unat t div 128 < 2" using unat_u8_less [of t] by (simp add: less_mult_imp_div_less)
      then have "unat t div 128 = 0 \<or> unat t div 128 = 1" by linarith
      then show ?thesis by (auto simp: div_eq_0_iff)
    qed
    finally show ?thesis .
  qed
  ultimately show ?thesis by simp
qed

lemma sint_small: "unat (w :: u64) < 2 ^ 63 \<Longrightarrow> sint w = int (unat w)"
proof -
  assume a: "unat w < 2 ^ 63"
  obtain k where k: "unat w = k" by simp
  have "in_int64 (int k)"
    using a unfolding k by (simp add: in_int64_def int64_min_def int64_max_def)
  then have "sint (word_of_int (int k) :: u64) = int k"
    by (rule sint_word_of_int64)
  moreover have "w = of_nat k" using k by (rule unat_eqD)
  ultimately show ?thesis using k by simp
qed

lemma set_vch_snoc:
  assumes "length ys < 8"
  shows "set_vch (ys @ [t]) =
    (if unat t \<ge> 128 then - int (bval ys + 256 ^ length ys * (unat t - 128))
     else int (bval ys + 256 ^ length ys * unat t))"
proof -
  define m where "m = length ys"
  define R where "R = fold (\<lambda>i r. r OR push_bit (8 * i) (ucast ((ys @ [t]) ! i))) [0..<length (ys @ [t])] (0 :: u64)"
  have R: "unat R = bval ys + 256 ^ m * unat t"
    using fold_bytes_or [of "length (ys @ [t])" "ys @ [t]"] assms
    by (simp add: R_def bval_append m_def del: upt_Suc fold_append fold_simps)
  have y: "bval ys < 256 ^ m" unfolding m_def by (rule bval_less)
  have p: "256 ^ m * 256 \<le> (256 :: nat) ^ 8"
    using assms power_increasing [of "Suc m" 8 "256 :: nat"] by (simp add: m_def mult.commute)
  have s: "set_vch (ys @ [t]) =
      (if unat t \<ge> 128 then - sint (R AND NOT (push_bit (8 * m) 0x80)) else sint R)"
    by (simp add: set_vch_def and_80 R_def m_def Let_def del: upt_Suc)
  show ?thesis
  proof (cases "unat t \<ge> 128")
    case False
    have "unat R < 256 ^ m * (unat t + 1)" using R y by (simp add: algebra_simps)
    also have "\<dots> \<le> 256 ^ m * 128" using False by (intro mult_le_mono2) simp
    also have "\<dots> \<le> 2 ^ 63" using p by simp
    finally show ?thesis using False s R by (simp add: sint_small m_def)
  next
    case True
    define M :: u64 where "M = push_bit (8 * m) 0x80"
    have M: "M = 2 ^ (8 * m + 7)"
      by (simp add: M_def push_bit_eq_mult power_add)
    have uM: "unat M = 256 ^ m * 128"
      using p unfolding M_def by (subst unat_push_bit) (simp_all add: power_mult)
    have "unat R div 2 ^ (8 * m + 7) = 1"
    proof -
      have "unat R div 2 ^ (8 * m) = unat t"
        using y by (simp add: R power_mult div_mult_self2 add.commute)
      then have "unat R div 2 ^ (8 * m) div 2 ^ 7 = 1"
        using True unat_u8_less [of t] by (simp add: div_nat_eqI)
      then show ?thesis by (simp only: power_add div_mult2_eq)
    qed
    then have "bit R (8 * m + 7)"
      by (metis bit_iff_odd bit_unsigned_iff odd_one)
    then have "R AND M = M"
      unfolding M and_exp_bit by simp
    then have "R AND NOT M = R - M"
    proof -
      have "(R AND NOT M) AND (R AND M) = 0" by (rule bit_eqI) (simp add: bit_simps)
      then have "(R AND NOT M) + (R AND M) = (R AND NOT M) OR (R AND M)"
        by (rule disjunctive_add_eq_or)
      also have "\<dots> = R" by (rule bit_eqI) (auto simp: bit_simps)
      finally show ?thesis using \<open>R AND M = M\<close> by (simp add: eq_diff_eq)
    qed
    moreover have le: "unat M \<le> unat R"
      using True uM R by (simp add: trans_le_add2)
    ultimately have u: "unat (R AND NOT M) = bval ys + 256 ^ m * (unat t - 128)"
      using uM R by (simp add: unat_sub word_le_nat_alt diff_mult_distrib2 True)
    have "\<dots> < 256 ^ m * (unat t - 128 + 1)" using y by (simp add: algebra_simps)
    also have "\<dots> \<le> 256 ^ m * 128"
      using unat_u8_less [of t] by (intro mult_le_mono2) simp
    also have "\<dots> \<le> 2 ^ 63" using p by simp
    finally show ?thesis using True s u by (simp add: sint_small M_def m_def)
  qed
qed

lemma or_80: "unat (t :: u8) < 128 \<Longrightarrow> unat (t OR 0x80) = unat t + 128"
proof -
  assume t: "unat t < 128"
  have "push_bit 7 1 OR t = push_bit 7 1 + t"
    by (rule or_eq_add_disjoint) (use t in simp)
  then have "t OR 0x80 = 0x80 + t" by (simp add: push_bit_eq_mult or.commute)
  then show ?thesis using t by (simp add: unat_word_ariths)
qed

text \<open>The magnitude of a script number, and the three shapes its encoding has.\<close>

lemma serialize_shape:
  assumes "v \<noteq> 0" and "\<bar>v\<bar> < 2 ^ 63"
  obtains ys t where "bval (ys @ [t]) = nat \<bar>v\<bar>" "t \<noteq> 0" "length ys < 8" "abs_bytes (word_of_int \<bar>v\<bar>) = ys @ [t]"
    "scriptnum_serialize v =
      (if unat t \<ge> 128 then ys @ [t, if v < 0 then 0x80 else 0]
       else if v < 0 then ys @ [t OR 0x80] else ys @ [t])"
    "unat t \<ge> 128 \<Longrightarrow> length ys < 7"
proof -
  define w :: u64 where "w = word_of_int \<bar>v\<bar>"
  have w: "unat w = nat \<bar>v\<bar>"
    using assms(2) by (simp add: w_def unat_eq_nat_uint uint_word_of_int_eq take_bit_int_eq_self)
  then have "w \<noteq> 0" using assms(1) by (auto simp: unat_eq_0)
  then obtain ys t where a: "abs_bytes w = ys @ [t]" "t \<noteq> 0"
    using last_abs_bytes [of w] by (cases "abs_bytes w" rule: rev_cases) auto
  have b: "bval (ys @ [t]) = nat \<bar>v\<bar>"
    using bval_abs_bytes [of w] by (simp add: a w)
  have l: "length ys < 8" using length_abs_bytes [of w] by (simp add: a)
  have s: "scriptnum_serialize v =
      (if unat t \<ge> 128 then ys @ [t, if v < 0 then 0x80 else 0]
       else if v < 0 then ys @ [t OR 0x80] else ys @ [t])"
    using assms(1) a by (auto simp: scriptnum_serialize_def Let_def and_80 w_def)
  have "length ys < 7" if "unat t \<ge> 128"
  proof (rule ccontr)
    assume "\<not> length ys < 7"
    then have "(256 :: nat) ^ 7 \<le> 256 ^ length ys" by (intro power_increasing) simp_all
    then have "256 ^ 7 * 128 \<le> 256 ^ length ys * unat t" using that by (intro mult_le_mono)
    also have "\<dots> \<le> bval (ys @ [t])" by (simp add: bval_append)
    finally have "2 ^ 63 \<le> nat \<bar>v\<bar>" unfolding b by simp
    with assms(2) show False by (simp add: le_nat_iff)
  qed
  with that b a l s show thesis by (auto simp: w_def)
qed

lemma set_vch_serialize:
  assumes "\<bar>v\<bar> < 2 ^ 63"
  shows "set_vch (scriptnum_serialize v) = v"
proof (cases "v = 0")
  case True
  then show ?thesis by (simp add: scriptnum_serialize_def set_vch_def)
next
  case False
  then obtain ys t where b: "bval (ys @ [t]) = nat \<bar>v\<bar>" and l: "length ys < 8" "unat t \<ge> 128 \<Longrightarrow> length ys < 7"
    and s: "scriptnum_serialize v =
      (if unat t \<ge> 128 then ys @ [t, if v < 0 then 0x80 else 0]
       else if v < 0 then ys @ [t OR 0x80] else ys @ [t])"
    using serialize_shape [OF False assms] by metis
  have v: "int (bval ys + 256 ^ length ys * unat t) = \<bar>v\<bar>"
    using b by (simp add: bval_append)
  consider "unat t \<ge> 128" | "unat t < 128" "v < 0" | "unat t < 128" "0 < v"
    using False by linarith
  then show ?thesis
  proof cases
    case 1
    then show ?thesis
      using s set_vch_snoc [of "ys @ [t]" "if v < 0 then 0x80 else 0"] l(2) v
      by (auto simp: bval_append)
  next
    case 2
    then show ?thesis using s set_vch_snoc [OF l(1), of "t OR 0x80"] v by (simp add: or_80)
  next
    case 3
    then show ?thesis using s set_vch_snoc [OF l(1), of t] v by simp
  qed
qed

text \<open>The encodings the constructor accepts when it requires minimal ones.\<close>

definition minimal_num :: "bytes \<Rightarrow> bool" where
  "minimal_num vch \<longleftrightarrow>
     \<not> (length vch > 0 \<and> last vch AND 0x7f = 0 \<and> (length vch \<le> 1 \<or> vch ! (length vch - 2) AND 0x80 = 0))"

lemma and_7f: "unat (t AND 0x7f :: u8) = unat t mod 128"
proof -
  have "t AND 0x7f = take_bit 7 t" by (simp add: take_bit_eq_mask mask_numeral)
  then show ?thesis by (simp add: take_bit_eq_mod unat_mod)
qed

lemma byte_high_low: "unat (t :: u8) = (if unat t \<ge> 128 then 128 else 0) + unat t mod 128"
proof -
  have "unat t div 128 < 2" using unat_u8_less [of t] by (simp add: less_mult_imp_div_less)
  then have "unat t div 128 = (if unat t \<ge> 128 then 1 else 0)"
    by (auto simp: div_eq_0_iff not_le intro: antisym simp: Suc_le_eq div_greater_zero_iff)
  then show ?thesis
    using div_mult_mod_eq [of "unat t" 128] by (cases "128 \<le> unat t") simp_all
qed

lemma set_vch_magnitude:
  assumes "length ys < 8"
  shows "set_vch (ys @ [t]) =
     (if unat t \<ge> 128 then - 1 else 1) * int (bval ys + 256 ^ length ys * (unat t mod 128))"
  using set_vch_snoc [OF assms, of t] byte_high_low [of t] by (auto simp del: of_nat_add of_nat_mult)

lemma magnitude_less:
  assumes "length ys < 8"
  shows "bval ys + 256 ^ length ys * (unat (t :: u8) mod 128) < 2 ^ 63"
proof -
  have "bval ys + 256 ^ length ys * (unat t mod 128) < 256 ^ length ys * (unat t mod 128 + 1)"
    using bval_less [of ys] by (simp add: algebra_simps)
  also have "\<dots> \<le> 256 ^ length ys * 128"
    by (intro mult_le_mono2) (simp add: Suc_le_eq)
  also have "\<dots> \<le> 256 ^ 7 * 128"
    using assms by (intro mult_le_mono1 power_increasing) simp_all
  finally show ?thesis by simp
qed

lemma serialize_of_magnitude:
  assumes "last bs \<noteq> 0" "bs \<noteq> []" "length bs \<le> 8" "bval bs < 2 ^ 63" "v = sg * int (bval bs)" "sg = 1 \<or> sg = - 1"
  shows "scriptnum_serialize v =
      (if unat (last bs) \<ge> 128 then bs @ [if sg = - 1 then 0x80 else 0]
       else if sg = - 1 then butlast bs @ [last bs OR 0x80] else bs)"
proof -
  have a: "abs_bytes (of_nat (bval bs)) = bs"
    using assms by (intro abs_bytes_bval) auto
  have pos: "0 < bval bs"
  proof (cases bs rule: rev_cases)
    case (snoc ys y)
    then show ?thesis using assms(1) by (simp add: bval_append unat_gt_0)
  qed (use assms in simp)
  have v: "v \<noteq> 0" "\<bar>v\<bar> < 2 ^ 63" "\<bar>v\<bar> = int (bval bs)"
    using assms pos by (auto simp: abs_mult)
  have neg: "v < 0 \<longleftrightarrow> sg = - 1"
    using assms(5,6) pos by auto
  from serialize_shape [OF v(1,2)] obtain ys t where
    y: "abs_bytes (word_of_int \<bar>v\<bar>) = ys @ [t]" and
    s: "scriptnum_serialize v =
      (if unat t \<ge> 128 then ys @ [t, if v < 0 then 0x80 else 0]
       else if v < 0 then ys @ [t OR 0x80] else ys @ [t])" by metis
  have "bs = ys @ [t]" using y a by (simp add: v(3))
  with s show ?thesis by (simp add: neg)
qed

lemma serialize_set_vch:
  assumes "minimal_num vch" and "length vch \<le> 8"
  shows "scriptnum_serialize (set_vch vch) = vch" and "\<bar>set_vch vch\<bar> < 2 ^ 63"
proof -
  have "scriptnum_serialize (set_vch vch) = vch \<and> \<bar>set_vch vch\<bar> < 2 ^ 63"
  proof (cases vch rule: rev_cases)
    case Nil
    then show ?thesis by (simp add: set_vch_def scriptnum_serialize_def)
  next
    case (snoc ys t)
    define sg :: int where "sg = (if unat t \<ge> 128 then - 1 else 1)"
    have l: "length ys < 8" using assms(2) snoc by simp
    have v: "set_vch vch = sg * int (bval ys + 256 ^ length ys * (unat t mod 128))"
      unfolding snoc sg_def by (rule set_vch_magnitude [OF l])
    have b: "bval ys + 256 ^ length ys * (unat t mod 128) < 2 ^ 63"
      by (rule magnitude_less [OF l])
    have sg1: "sg = 1 \<or> sg = - 1" by (simp add: sg_def)
    have bound: "\<bar>set_vch vch\<bar> < 2 ^ 63"
      unfolding v using b sg1 by (auto simp: abs_mult simp del: of_nat_add of_nat_mult)
    show ?thesis
    proof (cases "unat t mod 128 = 0")
      case False
      have u: "unat (t AND 0x7f) = unat t mod 128" by (rule and_7f)
      have "set_vch vch = sg * int (bval (ys @ [t AND 0x7f]))"
        by (simp add: v bval_append u)
      then have "scriptnum_serialize (set_vch vch) =
          (if sg = - 1 then ys @ [(t AND 0x7f) OR 0x80] else ys @ [t AND 0x7f])"
        using serialize_of_magnitude [of "ys @ [t AND 0x7f]" "set_vch vch" sg] False l b sg1 u
        by (auto simp: bval_append unat_eq_0 [symmetric])
      moreover have "(t AND 0x7f) OR 0x80 = t" if "unat t \<ge> 128"
        using that byte_high_low [of t] by (simp add: word_unat_eq_iff or_80 u)
      moreover have "t AND 0x7f = t" if "\<not> unat t \<ge> 128"
        using that by (simp add: word_unat_eq_iff u)
      ultimately show ?thesis using bound by (simp add: snoc sg_def split: if_splits)
    next
      case True
      then have "t AND 0x7f = 0" by (simp add: unat_eq_0 [symmetric] and_7f)
      with assms(1) snoc have "ys \<noteq> []" and "last ys AND 0x80 \<noteq> 0"
        by (auto simp: minimal_num_def nth_append last_conv_nth)
      then have y: "unat (last ys) \<ge> 128" by (auto simp: and_80 split: if_splits)
      then have "last ys \<noteq> 0" by auto
      then have "scriptnum_serialize (set_vch vch) = ys @ [if sg = - 1 then 0x80 else 0]"
        using serialize_of_magnitude [of ys "set_vch vch" sg] \<open>ys \<noteq> []\<close> l b sg1 v True y by simp
      moreover have "t = (if sg = - 1 then 0x80 else 0)"
        using byte_high_low [of t] True by (auto simp: sg_def word_unat_eq_iff split: if_splits)
      ultimately show ?thesis using bound by (simp add: snoc)
    qed
  qed
  then show "scriptnum_serialize (set_vch vch) = vch" and "\<bar>set_vch vch\<bar> < 2 ^ 63" by auto
qed

lemma CScriptNum_cases:
  "CScriptNum vch m k =
     (if length vch > k then Inl (Throw ''script number overflow'')
      else if m \<and> \<not> minimal_num vch then Inl (Throw ''non-minimally encoded script number'')
      else Inr (set_vch vch))"
proof (cases "vch = []")
  case False
  then have "vector_at_end vch 1 = Inr (last vch)" by (simp add: last_conv_nth Suc_le_eq)
  then show ?thesis using False by (auto simp: CScriptNum_def minimal_num_def not_le Suc_le_eq)
qed (simp add: CScriptNum_def minimal_num_def)

lemma CScriptNum_Inr:
  "CScriptNum vch m k = Inr v \<longleftrightarrow> length vch \<le> k \<and> (m \<longrightarrow> minimal_num vch) \<and> v = set_vch vch"
  by (auto simp: CScriptNum_cases)

lemma set_vch_bound:
  assumes "length vch \<le> k" and "0 < k" and "k \<le> 8"
  shows "\<bar>set_vch vch\<bar> < 2 ^ (8 * k - 1)"
proof (cases vch rule: rev_cases)
  case Nil
  then show ?thesis by (simp add: set_vch_def)
next
  case (snoc ys t)
  have "bval ys + 256 ^ length ys * (unat t mod 128) < 256 ^ length ys * (unat t mod 128 + 1)"
    using bval_less [of ys] by (simp add: algebra_simps)
  also have "\<dots> \<le> 256 ^ length ys * 128"
    by (intro mult_le_mono2) (simp add: Suc_le_eq)
  also have "\<dots> \<le> 256 ^ (k - 1) * 128"
    using assms snoc by (intro mult_le_mono1 power_increasing) simp_all
  also have "(256 :: nat) ^ (k - 1) * 128 = 2 ^ (8 * (k - 1) + 7)"
    by (simp add: power_add power_mult)
  also have "8 * (k - 1) + 7 = 8 * k - 1" using assms(2) by simp
  finally have b: "int (bval ys + 256 ^ length ys * (unat t mod 128)) < 2 ^ (8 * k - 1)"
    by (metis of_nat_less_iff of_nat_numeral of_nat_power)
  obtain m where m: "m = bval ys + 256 ^ length ys * (unat t mod 128)" by simp
  have "\<bar>set_vch vch\<bar> = int m"
    using set_vch_magnitude [of ys t, folded m] assms snoc by (simp add: abs_mult)
  with b show ?thesis by (simp only: m)
qed

lemma minimal_serialize:
  assumes "\<bar>v\<bar> < 2 ^ 63"
  shows "minimal_num (scriptnum_serialize v)"
proof (cases "v = 0")
  case True
  then show ?thesis by (simp add: scriptnum_serialize_def minimal_num_def)
next
  case False
  from serialize_shape [OF False assms] obtain ys t where t: "t \<noteq> 0" and
    s: "scriptnum_serialize v =
      (if unat t \<ge> 128 then ys @ [t, if v < 0 then 0x80 else 0]
       else if v < 0 then ys @ [t OR 0x80] else ys @ [t])" by metis
  have "x AND 0x7f \<noteq> 0" if "unat x mod 128 \<noteq> 0" for x :: u8
    using that and_7f [of x] by (auto simp: unat_eq_0 [symmetric])
  moreover have "unat t mod 128 \<noteq> 0 \<and> unat (t OR 0x80) mod 128 \<noteq> 0" if "\<not> unat t \<ge> 128"
    using that t by (simp add: or_80 unat_eq_0 [symmetric])
  ultimately show ?thesis
    unfolding s minimal_num_def by (auto simp: and_80 nth_append)
qed

section \<open>Pushing and reading back\<close>

lemma push_data_append: "push_data s b = s @ push_data [] b"
  by (simp add: push_data_def)

lemma unat_of_nat_small: "k < 2 ^ LENGTH('a :: len) \<Longrightarrow> unat (of_nat k :: 'a word) = k"
  by (simp add: unat_of_nat take_bit_nat_eq_self)

lemma GetOp2_push_data:
  assumes "length b < 2 ^ 32"
  obtains opcode where "GetOp2 (push_data [] b @ rest) = (True, opcode, b, rest)" "opcode \<le> OP_PUSHDATA4"
    "length b < 0x4c \<Longrightarrow> opcode = of_nat (length b)"
proof -
  consider "length b < 0x4c" | "\<not> length b < 0x4c" "length b \<le> 0xff" |
    "\<not> length b \<le> 0xff" "length b \<le> 0xffff" | "\<not> length b \<le> 0xffff"
    by linarith
  then show thesis
  proof cases
    case 1
    then have u: "unat (of_nat (length b) :: u8) = length b"
      by (intro unat_of_nat_small) simp
    then have "(of_nat (length b) :: u8) < OP_PUSHDATA1" "(of_nat (length b) :: u8) \<le> OP_PUSHDATA4"
      using 1 by (simp_all add: word_less_nat_alt word_le_nat_alt)
    with 1 u have "GetOp2 (push_data [] b @ rest) = (True, of_nat (length b), b, rest)"
      by (simp add: push_data_def GetOp2_def read_operand_def)
    then show thesis using \<open>(of_nat (length b) :: u8) \<le> OP_PUSHDATA4\<close> that by blast
  next
    case 2
    then have u: "unat (of_nat (length b) :: u8) = length b"
      by (intro unat_of_nat_small) simp
    with 2 have "GetOp2 (push_data [] b @ rest) = (True, OP_PUSHDATA1, b, rest)"
      by (simp add: push_data_def GetOp2_def read_operand_def)
    then show thesis using 2 that by simp
  next
    case 3
    then have u: "unat (of_nat (length b) :: u16) = length b"
      by (intro unat_of_nat_small) simp
    have r: "ReadLE16 (WriteLE16 x @ ys) = x" "length (WriteLE16 x) = 2" for x ys
      by (simp_all add: ReadLE16_def WriteLE16_def le_word_bytes)
    from 3 u have "GetOp2 (push_data [] b @ rest) = (True, OP_PUSHDATA2, b, rest)"
      by (simp add: push_data_def GetOp2_def read_operand_def r)
    then show thesis using 3 that by simp
  next
    case 4
    then have u: "unat (of_nat (length b) :: u32) = length b"
      using assms by (intro unat_of_nat_small) simp
    have r: "ReadLE32 (WriteLE32 x @ ys) = x" "length (WriteLE32 x) = 4" for x ys
      by (simp_all add: ReadLE32_def WriteLE32_def le_word_bytes)
    from 4 u have "GetOp2 (push_data [] b @ rest) = (True, OP_PUSHDATA4, b, rest)"
      by (simp add: push_data_def GetOp2_def read_operand_def r)
    then show thesis using 4 that by simp
  qed
qed

text \<open>A script made of pushes only.\<close>

definition pushes :: "bytes list \<Rightarrow> CScript" where
  "pushes ds = concat (map (push_data []) ds)"

lemma push_data_nonempty: "push_data [] b \<noteq> []"
  by (simp add: push_data_def)

lemma IsPushOnly_pushes:
  "\<forall>d \<in> set ds. length d < 2 ^ 32 \<Longrightarrow> IsPushOnly (pushes ds)"
proof (induction ds)
  case Nil
  then show ?case by (simp add: pushes_def IsPushOnly.simps)
next
  case (Cons d ds)
  then have "length d < 2 ^ 32" by simp
  then obtain opcode where g: "GetOp2 (push_data [] d @ pushes ds) = (True, opcode, d, pushes ds)"
      and o: "opcode \<le> OP_PUSHDATA4" by (rule GetOp2_push_data)
  have "\<not> opcode > OP_16" using o by (simp add: word_less_nat_alt word_le_nat_alt)
  then show ?case
    using Cons g push_data_nonempty [of d] by (subst IsPushOnly.simps) (simp add: pushes_def)
qed

lemma last_push_pushes:
  "\<forall>d \<in> set ds. length d < 2 ^ 32 \<Longrightarrow>
   last_push_loop (pushes ds) v = Some (if ds = [] then v else last ds)"
proof (induction ds arbitrary: v)
  case Nil
  then show ?case by (simp add: pushes_def last_push_loop.simps)
next
  case (Cons d ds)
  then have "length d < 2 ^ 32" by simp
  then obtain opcode where g: "GetOp2 (push_data [] d @ pushes ds) = (True, opcode, d, pushes ds)"
      and o: "opcode \<le> OP_PUSHDATA4" by (rule GetOp2_push_data)
  have "\<not> opcode > OP_16" using o by (simp add: word_less_nat_alt word_le_nat_alt)
  then show ?case
    using Cons g push_data_nonempty [of d] by (subst last_push_loop.simps) (simp add: pushes_def)
qed

text \<open>
  C39. Script numbers and pushes are read back exactly. With minimal encodings required the
  constructor of \<open>CScriptNum\<close> accepts a byte vector of at most \<open>k\<close> bytes exactly when it is what
  \<open>serialize\<close> produces for its value, and every number of magnitude below \<open>2 ^ (8 * k - 1)\<close> is one;
  without the requirement the value read from \<open>serialize v\<close> is still \<open>v\<close>. A push of any data shorter than
  \<open>2 ^ 32\<close> bytes is read by \<open>GetOp2\<close> as one push opcode with that data, leaving the rest of the script, and a
  script of pushes is push-only.
\<close>

theorem script_push_roundtrip:
  assumes "0 < k" and "k \<le> 8" and "\<forall>d \<in> set ds. length d < 2 ^ 32"
  shows "(CScriptNum vch True k = Inr v \<longleftrightarrow> vch = scriptnum_serialize v \<and> length vch \<le> k \<and> \<bar>v\<bar> < 2 ^ (8 * k - 1)) \<and>
    (\<bar>v\<bar> < 2 ^ 63 \<longrightarrow> set_vch (scriptnum_serialize v) = v) \<and>
    (\<forall>b \<in> set ds. \<exists>opcode \<le> OP_PUSHDATA4. GetOp2 (push_data [] b @ rest) = (True, opcode, b, rest)) \<and>
    IsPushOnly (pushes ds)"
proof (intro conjI ballI impI)
  have p: "(2 :: int) ^ (8 * k - 1) \<le> 2 ^ 63"
    using assms by (intro power_increasing) simp_all
  show "CScriptNum vch True k = Inr v \<longleftrightarrow> vch = scriptnum_serialize v \<and> length vch \<le> k \<and> \<bar>v\<bar> < 2 ^ (8 * k - 1)"
  proof
    assume "CScriptNum vch True k = Inr v"
    then show "vch = scriptnum_serialize v \<and> length vch \<le> k \<and> \<bar>v\<bar> < 2 ^ (8 * k - 1)"
      using serialize_set_vch(1) [of vch] set_vch_bound [of vch k] assms by (auto simp: CScriptNum_Inr)
  next
    assume v: "vch = scriptnum_serialize v \<and> length vch \<le> k \<and> \<bar>v\<bar> < 2 ^ (8 * k - 1)"
    then show "CScriptNum vch True k = Inr v"
      using p set_vch_serialize [of v] minimal_serialize [of v] by (auto simp: CScriptNum_Inr)
  qed
next
  fix b
  assume "b \<in> set ds"
  then have "length b < 2 ^ 32" using assms(3) by blast
  then show "\<exists>opcode \<le> OP_PUSHDATA4. GetOp2 (push_data [] b @ rest) = (True, opcode, b, rest)"
    by (rule GetOp2_push_data) blast
next
  show "IsPushOnly (pushes ds)" using assms(3) by (rule IsPushOnly_pushes)
next
  assume "\<bar>v\<bar> < 2 ^ 63"
  then show "set_vch (scriptnum_serialize v) = v" by (rule set_vch_serialize)
qed

theorem script_push_roundtrip_witness:
  "CScriptNum [0x00, 0x81] True 4 = Inr (- 256) \<and>
   (\<exists>opcode. opcode \<le> OP_PUSHDATA4 \<and> GetOp2 (push_data [] (replicate 80 7) @ [OP_DUP]) = (True, opcode, replicate 80 7, [OP_DUP]))"
proof -
  have "scriptnum_serialize (- 256) = [0x00, 0x81]" by code_simp
  then show ?thesis
    using script_push_roundtrip [of 4 "[[1], replicate 80 7]" "[0x00, 0x81]" "- 256" "[OP_DUP]"] by simp
qed

end
