(* ===== verification/Transaction.thy ===== *)
theory Transaction
  imports Script
begin

unbundle bit_operations_syntax

text \<open>
  \<^verbatim>\<open>primitives/transaction.h\<close> and \<^verbatim>\<open>primitives/transaction.cpp\<close>: outpoints, inputs, outputs and transactions, the two serialization
  formats with and without witnesses, identifiers and the sum of the outputs. The hash of a byte
  list is a parameter.
\<close>

section \<open>Data\<close>

record COutPoint =
  op_hash :: base_blob
  op_n :: u32

definition outpoint_null :: COutPoint where
  "outpoint_null = \<lparr>op_hash = replicate 32 0, op_n = - 1\<rparr>"

definition outpoint_IsNull :: "COutPoint \<Rightarrow> bool" where
  "outpoint_IsNull o1 \<longleftrightarrow> blob_IsNull (op_hash o1) \<and> op_n o1 = - 1"

definition outpoint_less :: "COutPoint \<Rightarrow> COutPoint \<Rightarrow> bool" where
  "outpoint_less a b =
     (let cmp = blob_Compare (op_hash a) (op_hash b) in cmp < 0 \<or> (cmp = 0 \<and> op_n a < op_n b))"

record CTxIn =
  prevout :: COutPoint
  scriptSig :: CScript
  nSequence :: u32
  scriptWitness :: "bytes list"

definition SEQUENCE_FINAL :: u32 where "SEQUENCE_FINAL = 0xffffffff"
definition SEQUENCE_LOCKTIME_DISABLE_FLAG :: u32 where "SEQUENCE_LOCKTIME_DISABLE_FLAG = push_bit 31 1"
definition SEQUENCE_LOCKTIME_TYPE_FLAG :: u32 where "SEQUENCE_LOCKTIME_TYPE_FLAG = push_bit 22 1"
definition SEQUENCE_LOCKTIME_MASK :: u32 where "SEQUENCE_LOCKTIME_MASK = 0x0000ffff"
definition SEQUENCE_LOCKTIME_GRANULARITY :: nat where "SEQUENCE_LOCKTIME_GRANULARITY = 9"

record CTxOut =
  nValue :: CAmount
  scriptPubKey :: CScript

definition txout_null :: CTxOut where
  "txout_null = \<lparr>nValue = - 1, scriptPubKey = []\<rparr>"

definition txout_IsNull :: "CTxOut \<Rightarrow> bool" where
  "txout_IsNull out \<longleftrightarrow> nValue out = - 1"

record CTransaction =
  vin :: "CTxIn list"
  vout :: "CTxOut list"
  tx_nVersion :: int
  tx_nLockTime :: u32

definition tx_CURRENT_VERSION :: int where "tx_CURRENT_VERSION = 2"

definition tx_null :: CTransaction where
  "tx_null = \<lparr>vin = [], vout = [], tx_nVersion = tx_CURRENT_VERSION, tx_nLockTime = 0\<rparr>"

definition tx_IsNull :: "CTransaction \<Rightarrow> bool" where
  "tx_IsNull tx \<longleftrightarrow> vin tx = [] \<and> vout tx = []"

definition IsCoinBase :: "CTransaction \<Rightarrow> bool" where
  "IsCoinBase tx \<longleftrightarrow> length (vin tx) = 1 \<and> outpoint_IsNull (prevout (vin tx ! 0))"

definition HasWitness :: "CTransaction \<Rightarrow> bool" where
  "HasWitness tx \<longleftrightarrow> list_ex (\<lambda>i. scriptWitness i \<noteq> []) (vin tx)"

section \<open>Serialization\<close>

text \<open>
  The sizes of the element types on a 64-bit platform; they only bound how much memory a reader
  asks for at a time.
\<close>

definition sizeof_CTxIn :: nat where "sizeof_CTxIn = 96"
definition sizeof_CTxOut :: nat where "sizeof_CTxOut = 40"
definition sizeof_vector :: nat where "sizeof_vector = 24"

definition ser_outpoint :: "COutPoint \<Rightarrow> bytes" where
  "ser_outpoint o1 = ser_blob (op_hash o1) @ ser_writedata32 (op_n o1)"

definition unser_outpoint :: "COutPoint reader" where
  "unser_outpoint =
     bind_read (unser_blob 32) (\<lambda>h. map_read (\<lambda>k. \<lparr>op_hash = h, op_n = k\<rparr>) ser_readdata32)"

definition ser_txin :: "CTxIn \<Rightarrow> bytes" where
  "ser_txin i = ser_outpoint (prevout i) @ ser_bytes (scriptSig i) @ ser_writedata32 (nSequence i)"

definition unser_txin :: "CTxIn reader" where
  "unser_txin =
     bind_read unser_outpoint (\<lambda>o1. bind_read unser_bytes (\<lambda>s. map_read (\<lambda>q.
       \<lparr>prevout = o1, scriptSig = s, nSequence = q, scriptWitness = []\<rparr>) ser_readdata32))"

definition ser_txout :: "CTxOut \<Rightarrow> bytes" where
  "ser_txout out = ser_int64 (nValue out) @ ser_bytes (scriptPubKey out)"

definition unser_txout :: "CTxOut reader" where
  "unser_txout =
     bind_read unser_int64 (\<lambda>v. map_read (\<lambda>s. \<lparr>nValue = v, scriptPubKey = s\<rparr>) unser_bytes)"

definition ser_witness :: "bytes list \<Rightarrow> bytes" where "ser_witness = ser_vector ser_bytes"

definition unser_witness :: "bytes list reader" where
  "unser_witness = unser_vector sizeof_vector unser_bytes"

definition unser_vin :: "CTxIn list reader" where "unser_vin = unser_vector sizeof_CTxIn unser_txin"
definition unser_vout :: "CTxOut list reader" where "unser_vout = unser_vector sizeof_CTxOut unser_txout"

definition SerializeTransaction :: "bool \<Rightarrow> CTransaction \<Rightarrow> bytes" where
  "SerializeTransaction fAllowWitness tx =
     (let flags = (if fAllowWitness \<and> HasWitness tx then 1 else 0) :: u8 in
      ser_int32 (tx_nVersion tx) @
      (if flags \<noteq> 0 then ser_vector ser_txin [] @ ser_writedata8 flags else []) @
      ser_vector ser_txin (vin tx) @
      ser_vector ser_txout (vout tx) @
      (if flags AND 1 \<noteq> 0 then concat (map (\<lambda>i. ser_witness (scriptWitness i)) (vin tx)) else []) @
      ser_writedata32 (tx_nLockTime tx))"

fun read_witnesses :: "CTxIn list \<Rightarrow> CTxIn list reader" where
  "read_witnesses [] s = Inr ([], s)"
| "read_witnesses (i # is) s =
     bind_out (unser_witness s) (\<lambda>(w, s).
       bind_out (read_witnesses is s) (\<lambda>(js, s). Inr (i\<lparr>scriptWitness := w\<rparr> # js, s)))"

definition read_inputs_outputs :: "bool \<Rightarrow> (u8 \<times> CTxIn list \<times> CTxOut list) reader" where
  "read_inputs_outputs fAllowWitness =
     bind_read unser_vin (\<lambda>is.
       if is = [] \<and> fAllowWitness then
         bind_read ser_readdata8 (\<lambda>flags.
           if flags \<noteq> 0
           then bind_read unser_vin (\<lambda>is. map_read (\<lambda>os. (flags, is, os)) unser_vout)
           else (\<lambda>s. Inr ((flags, [], []), s)))
       else map_read (\<lambda>os. (0, is, os)) unser_vout)"

definition UnserializeTransaction :: "bool \<Rightarrow> CTransaction reader" where
  "UnserializeTransaction fAllowWitness =
     bind_read unser_int32 (\<lambda>ver.
     bind_read (read_inputs_outputs fAllowWitness) (\<lambda>(flags, is, os).
     bind_read (if flags AND 1 \<noteq> 0 \<and> fAllowWitness
                then map_read (\<lambda>is. (flags XOR 1, is)) (read_witnesses is)
                else (\<lambda>s. Inr ((flags, is), s))) (\<lambda>(flags, is).
       if flags \<noteq> 0 then (\<lambda>_. Inl (Throw ''Unknown transaction optional data''))
       else map_read (\<lambda>t. \<lparr>vin = is, vout = os, tx_nVersion = ver, tx_nLockTime = t\<rparr>) ser_readdata32)))"

section \<open>Identifiers and values\<close>

definition tx_GetHash :: "(bytes \<Rightarrow> base_blob) \<Rightarrow> CTransaction \<Rightarrow> base_blob" where
  "tx_GetHash H tx = H (SerializeTransaction False tx)"

definition GetWitnessHash :: "(bytes \<Rightarrow> base_blob) \<Rightarrow> CTransaction \<Rightarrow> base_blob" where
  "GetWitnessHash H tx =
     (if \<not> HasWitness tx then tx_GetHash H tx else H (SerializeTransaction True tx))"

definition GetTotalSize :: "CTransaction \<Rightarrow> nat" where
  "GetTotalSize tx = length (SerializeTransaction True tx)"

fun value_out_loop :: "bool \<Rightarrow> CTxOut list \<Rightarrow> CAmount \<Rightarrow> CAmount outcome" where
  "value_out_loop fAreEnforcedValues [] nValueOut = Inr nValueOut"
| "value_out_loop fAreEnforcedValues (tx_out # os) nValueOut =
     (if \<not> fAreEnforcedValues \<and> IsAssetScript (scriptPubKey tx_out) \<noteq> None
      then value_out_loop fAreEnforcedValues os nValueOut
      else let nValueOut = wrap64 (nValueOut + nValue tx_out) in
        if \<not> MoneyRange (nValue tx_out) \<or> \<not> MoneyRange nValueOut
        then Inl (Throw ''GetValueOut: value out of range'')
        else value_out_loop fAreEnforcedValues os nValueOut)"

definition GetValueOut :: "CTransaction \<Rightarrow> bool \<Rightarrow> CAmount outcome" where
  "GetValueOut tx fAreEnforcedValues = value_out_loop fAreEnforcedValues (vout tx) 0"

section \<open>Reading back transactions\<close>

definition outpoint_ok :: "COutPoint \<Rightarrow> bool" where
  "outpoint_ok o1 \<longleftrightarrow> length (op_hash o1) = 32"

interpretation outpoint: codec ser_outpoint unser_outpoint outpoint_ok
  by unfold_locales
    (simp add: ser_outpoint_def unser_outpoint_def outpoint_ok_def blob.bind_read_ser u32.map_read_ser)

definition txin_ok :: "CTxIn \<Rightarrow> bool" where
  "txin_ok i \<longleftrightarrow> outpoint_ok (prevout i) \<and> len_ok (length (scriptSig i))"

definition strip_in :: "CTxIn \<Rightarrow> CTxIn" where "strip_in i = i\<lparr>scriptWitness := []\<rparr>"

interpretation txin: codec ser_txin unser_txin "\<lambda>i. txin_ok i \<and> scriptWitness i = []"
  by unfold_locales
    (simp add: ser_txin_def unser_txin_def txin_ok_def outpoint.bind_read_ser byte_vector.bind_read_ser
      u32.map_read_ser)

definition txout_ok :: "CTxOut \<Rightarrow> bool" where
  "txout_ok out \<longleftrightarrow> in_int64 (nValue out) \<and> len_ok (length (scriptPubKey out))"

interpretation txout: codec ser_txout unser_txout txout_ok
  by unfold_locales
    (simp add: ser_txout_def unser_txout_def txout_ok_def int64.bind_read_ser byte_vector.map_read_ser)

definition witness_ok :: "bytes list \<Rightarrow> bool" where
  "witness_ok w \<longleftrightarrow> len_ok (length w) \<and> list_all (\<lambda>b. len_ok (length b)) w"

interpretation witness: codec ser_witness unser_witness witness_ok
  by unfold_locales
    (simp add: ser_witness_def unser_witness_def witness_ok_def byte_vector.unser_vector_ser sizeof_vector_def)

definition tx_ok :: "CTransaction \<Rightarrow> bool" where
  "tx_ok tx \<longleftrightarrow> in_int32 (tx_nVersion tx) \<and> len_ok (length (vin tx)) \<and> len_ok (length (vout tx)) \<and>
     list_all (\<lambda>i. txin_ok i \<and> witness_ok (scriptWitness i)) (vin tx) \<and> list_all txout_ok (vout tx)"

definition strip_witness :: "CTransaction \<Rightarrow> CTransaction" where
  "strip_witness tx = tx\<lparr>vin := map strip_in (vin tx)\<rparr>"

lemma ser_txin_strip: "ser_txin (strip_in i) = ser_txin i"
  by (simp add: ser_txin_def strip_in_def)

lemma ser_vin_strip: "ser_vector ser_txin (map strip_in is) = ser_vector ser_txin is"
  by (simp add: ser_vector_def o_def ser_txin_strip)

interpretation inputs: codec "ser_vector ser_txin" unser_vin
  "\<lambda>is. len_ok (length is) \<and> list_all (\<lambda>i. txin_ok i \<and> scriptWitness i = []) is"
  by unfold_locales (simp add: unser_vin_def txin.unser_vector_ser sizeof_CTxIn_def)

interpretation outputs: codec "ser_vector ser_txout" unser_vout
  "\<lambda>os. len_ok (length os) \<and> list_all txout_ok os"
  by unfold_locales (simp add: unser_vout_def txout.unser_vector_ser sizeof_CTxOut_def)

lemma unser_vin_strip:
  assumes "len_ok (length is)" and "list_all txin_ok is"
  shows "unser_vin (ser_vector ser_txin is @ s) = Inr (map strip_in is, s)"
proof -
  have "list_all (\<lambda>i. txin_ok i \<and> scriptWitness i = []) (map strip_in is)"
    using assms(2) by (simp add: list_all_iff strip_in_def txin_ok_def)
  with assms(1) show ?thesis
    using inputs.unser_ser [of "map strip_in is" s] by (simp add: ser_vin_strip)
qed

lemma bind_vin_strip:
  "len_ok (length is) \<Longrightarrow> list_all txin_ok is \<Longrightarrow>
   bind_read unser_vin f (ser_vector ser_txin is @ s) = f (map strip_in is) s"
  by (simp add: bind_read_def unser_vin_strip)

lemma read_witnesses_ser:
  "list_all (\<lambda>i. witness_ok (scriptWitness i)) is \<Longrightarrow>
   read_witnesses (map strip_in is) (concat (map (\<lambda>i. ser_witness (scriptWitness i)) is) @ s) = Inr (is, s)"
  by (induction "is") (simp_all add: witness.unser_ser strip_in_def)

lemma no_witness_strip: "\<not> HasWitness tx \<Longrightarrow> map strip_in (vin tx) = vin tx"
  by (rule map_idI) (auto simp: HasWitness_def strip_in_def list_ex_iff)

lemma tx_okD:
  assumes "tx_ok tx"
  shows "in_int32 (tx_nVersion tx)" "len_ok (length (vin tx))" "list_all txin_ok (vin tx)"
    "list_all (\<lambda>i. witness_ok (scriptWitness i)) (vin tx)" "len_ok (length (vout tx)) \<and> list_all txout_ok (vout tx)"
  using assms by (simp_all add: tx_ok_def list_all_iff)

lemma unser_basic:
  assumes "tx_ok tx" and "\<not> fAllowWitness \<or> vin tx \<noteq> []"
  shows "read_inputs_outputs fAllowWitness (ser_vector ser_txin (vin tx) @ ser_vector ser_txout (vout tx) @ s)
    = Inr ((0, map strip_in (vin tx), vout tx), s)"
  using assms(2) tx_okD [OF assms(1)]
  by (auto simp: read_inputs_outputs_def bind_vin_strip outputs.map_read_ser)

lemma unser_extended:
  assumes "tx_ok tx"
  shows "read_inputs_outputs True
      (ser_vector ser_txin [] @ ser_writedata8 1 @ ser_vector ser_txin (vin tx) @ ser_vector ser_txout (vout tx) @ s)
    = Inr ((1, map strip_in (vin tx), vout tx), s)"
  using tx_okD [OF assms]
  by (simp add: read_inputs_outputs_def bind_vin_strip u8.bind_read_ser
      outputs.map_read_ser len_ok_def)

lemma unser_empty:
  "read_inputs_outputs True (ser_vector ser_txin [] @ ser_vector ser_txout [] @ s) = Inr ((0, [], []), s)"
proof -
  have "ser_vector ser_txout [] = ser_writedata8 0"
    by (simp add: ser_vector_def WriteCompactSize_def)
  then show ?thesis
    by (simp add: read_inputs_outputs_def bind_vin_strip u8.bind_read_ser len_ok_def)
qed

lemma unser_tail:
  assumes "in_int32 ver"
    and "read_inputs_outputs fAllowWitness (body @ tail) = Inr ((0, is, os), tail)"
    and "tail = ser_writedata32 t @ s"
  shows "UnserializeTransaction fAllowWitness (ser_int32 ver @ body @ tail) =
    Inr (\<lparr>vin = is, vout = os, tx_nVersion = ver, tx_nLockTime = t\<rparr>, s)"
  using assms
  by (simp add: UnserializeTransaction_def int32.bind_read_ser bind_read_Inr [of "read_inputs_outputs fAllowWitness"])
    (simp add: bind_read_def map_read_def u32.unser_ser)

definition no_input_tx :: CTransaction where
  "no_input_tx = \<lparr>vin = [], vout = [\<lparr>nValue = 0, scriptPubKey = []\<rparr>], tx_nVersion = 2, tx_nLockTime = 0\<rparr>"

lemma no_input_bytes:
  "SerializeTransaction True no_input_tx = ser_int32 2 @ ser_vector ser_txin [] @ ser_writedata8 1 @
     ser_vector ser_txin (vin tx_null) @ ser_vector ser_txout (vout tx_null) @ ser_writedata32 0 @ replicate 7 0"
  by code_simp

lemma misread_without_inputs:
  "tx_ok no_input_tx \<and> UnserializeTransaction True (SerializeTransaction True no_input_tx) \<noteq> Inr (no_input_tx, [])"
proof
  show "tx_ok no_input_tx"
    by (simp add: no_input_tx_def tx_ok_def in_int32_def len_ok_def txout_ok_def in_int64_def
        int64_min_def int64_max_def)
  have "tx_ok tx_null"
    by (simp add: tx_null_def tx_ok_def in_int32_def len_ok_def tx_CURRENT_VERSION_def)
  from unser_extended [OF this, of "ser_writedata32 0 @ replicate 7 0"]
  have "read_inputs_outputs True (ser_vector ser_txin [] @ ser_writedata8 1 @
     ser_vector ser_txin (vin tx_null) @ ser_vector ser_txout (vout tx_null) @ ser_writedata32 0 @ replicate 7 0) =
     Inr ((1, [], []), ser_writedata32 0 @ replicate 7 0)"
    by (simp add: tx_null_def)
  then have "UnserializeTransaction True (SerializeTransaction True no_input_tx) =
      Inr (tx_null, replicate 7 0)"
    unfolding no_input_bytes
    by (simp add: UnserializeTransaction_def bind_read_def int32.unser_ser in_int32_def map_read_def
        u32.unser_ser tx_null_def tx_CURRENT_VERSION_def)
  then show "UnserializeTransaction True (SerializeTransaction True no_input_tx) \<noteq> Inr (no_input_tx, [])"
    by (simp add: tx_null_def no_input_tx_def)
qed

text \<open>
  C38. Serialization of transactions. A transaction whose fields fit the format is read back from
  its serialization and the rest of the stream is left: in full when witnesses are allowed and the
  transaction has an input or no output, and without its witnesses when they are not. The
  identifier does not depend on the witnesses, and the witness hash differs from it only for a
  transaction that has one. A transaction without inputs but with an output is not read back from
  the format that allows witnesses, because its empty input list is taken for the marker.
\<close>

theorem transaction_roundtrip:
  assumes "tx_ok tx"
  shows "(vin tx \<noteq> [] \<or> vout tx = [] \<longrightarrow>
      UnserializeTransaction True (SerializeTransaction True tx @ s) = Inr (tx, s)) \<and>
    UnserializeTransaction False (SerializeTransaction False tx @ s) = Inr (strip_witness tx, s) \<and>
    tx_GetHash H (strip_witness tx) = tx_GetHash H tx \<and>
    (\<not> HasWitness tx \<longrightarrow> GetWitnessHash H tx = tx_GetHash H tx) \<and>
    (let bad = \<lparr>vin = [], vout = [\<lparr>nValue = 0, scriptPubKey = []\<rparr>], tx_nVersion = 2, tx_nLockTime = 0\<rparr>
     in tx_ok bad \<and> UnserializeTransaction True (SerializeTransaction True bad) \<noteq> Inr (bad, []))"
proof (intro conjI impI)
  note ok = tx_okD [OF assms]
  show "UnserializeTransaction True (SerializeTransaction True tx @ s) = Inr (tx, s)"
    if v: "vin tx \<noteq> [] \<or> vout tx = []"
  proof (cases "HasWitness tx")
    case True
    define r where "r = ser_writedata32 (tx_nLockTime tx) @ s"
    define w where "w = concat (map (\<lambda>i. ser_witness (scriptWitness i)) (vin tx))"
    have "read_witnesses (map strip_in (vin tx)) (w @ r) = Inr (vin tx, r)"
      unfolding w_def by (rule read_witnesses_ser [OF ok(4)])
    moreover have "SerializeTransaction True tx @ s = ser_int32 (tx_nVersion tx) @ ser_vector ser_txin [] @
        ser_writedata8 1 @ ser_vector ser_txin (vin tx) @ ser_vector ser_txout (vout tx) @ w @ r"
      using True by (simp add: SerializeTransaction_def w_def r_def)
    ultimately show ?thesis
      using ok(1) unser_extended [OF assms, of "w @ r"]
      by (simp add: UnserializeTransaction_def int32.bind_read_ser bind_read_def map_read_def r_def u32.unser_ser int32.unser_ser)
  next
    case False
    have *: "SerializeTransaction True tx @ s = ser_int32 (tx_nVersion tx) @
        (ser_vector ser_txin (vin tx) @ ser_vector ser_txout (vout tx)) @ ser_writedata32 (tx_nLockTime tx) @ s"
      using False by (simp add: SerializeTransaction_def)
    have "read_inputs_outputs True ((ser_vector ser_txin (vin tx) @ ser_vector ser_txout (vout tx)) @
        ser_writedata32 (tx_nLockTime tx) @ s) = Inr ((0, vin tx, vout tx), ser_writedata32 (tx_nLockTime tx) @ s)"
      using unser_basic [OF assms, of True] unser_empty v no_witness_strip [OF False]
      by (cases "vin tx = []") auto
    then show ?thesis
      unfolding * by (subst unser_tail [OF ok(1)]) auto
  qed
  show "UnserializeTransaction False (SerializeTransaction False tx @ s) = Inr (strip_witness tx, s)"
  proof -
    have *: "SerializeTransaction False tx @ s = ser_int32 (tx_nVersion tx) @
        (ser_vector ser_txin (vin tx) @ ser_vector ser_txout (vout tx)) @ ser_writedata32 (tx_nLockTime tx) @ s"
      by (simp add: SerializeTransaction_def)
    show ?thesis
      unfolding * using unser_basic [OF assms, of False]
      by (subst unser_tail [OF ok(1)]) (auto simp: strip_witness_def)
  qed
  show "tx_GetHash H (strip_witness tx) = tx_GetHash H tx"
    by (simp add: tx_GetHash_def SerializeTransaction_def strip_witness_def ser_vin_strip)
  show "GetWitnessHash H tx = tx_GetHash H tx" if "\<not> HasWitness tx"
    using that by (simp add: GetWitnessHash_def)
  show "let bad = \<lparr>vin = [], vout = [\<lparr>nValue = 0, scriptPubKey = []\<rparr>], tx_nVersion = 2, tx_nLockTime = 0\<rparr>
     in tx_ok bad \<and> UnserializeTransaction True (SerializeTransaction True bad) \<noteq> Inr (bad, [])"
    using misread_without_inputs by (simp add: no_input_tx_def)
qed

text \<open>A transaction with one input that carries a witness and one output.\<close>

definition demo_tx :: CTransaction where
  "demo_tx = \<lparr>vin = [\<lparr>prevout = \<lparr>op_hash = replicate 32 7, op_n = 1\<rparr>, scriptSig = [], nSequence = SEQUENCE_FINAL,
       scriptWitness = [[1, 2], [3]]\<rparr>],
     vout = [\<lparr>nValue = 5000, scriptPubKey = [OP_TRUE]\<rparr>], tx_nVersion = 2, tx_nLockTime = 17\<rparr>"

theorem transaction_roundtrip_witness:
  "HasWitness demo_tx \<and>
   UnserializeTransaction True (SerializeTransaction True demo_tx @ [9]) = Inr (demo_tx, [9]) \<and>
   UnserializeTransaction False (SerializeTransaction False demo_tx @ [9]) = Inr (strip_witness demo_tx, [9])"
proof -
  have "tx_ok demo_tx"
    by (simp add: demo_tx_def tx_ok_def in_int32_def len_ok_def txin_ok_def outpoint_ok_def witness_ok_def
        txout_ok_def in_int64_def int64_min_def int64_max_def)
  moreover have "HasWitness demo_tx" "vin demo_tx \<noteq> []"
    by (simp_all add: demo_tx_def HasWitness_def)
  ultimately show ?thesis
    using transaction_roundtrip [of demo_tx "[9]" id] by blast
qed

section \<open>Sums of outputs\<close>

lemma MoneyRange_0 [simp]: "MoneyRange 0"
  by (simp add: MoneyRange_def MAX_MONEY_def COIN_def)

text \<open>Outputs that carry assets count only when enforced values are deployed.\<close>

definition counted_outs :: "bool \<Rightarrow> CTransaction \<Rightarrow> CTxOut list" where
  "counted_outs fEnforced tx = filter (\<lambda>out. fEnforced \<or> IsAssetScript (scriptPubKey out) = None) (vout tx)"

lemma money_step:
  assumes "MoneyRange a"
  shows "MoneyRange v \<and> MoneyRange (wrap64 (a + v)) \<longleftrightarrow> 0 \<le> v \<and> a + v \<le> MAX_MONEY"
    and "0 \<le> v \<Longrightarrow> a + v \<le> MAX_MONEY \<Longrightarrow> wrap64 (a + v) = a + v \<and> MoneyRange (a + v)"
  using assms wrap64_id [of "a + v"]
  by (auto simp: MoneyRange_def MAX_MONEY_def COIN_def in_int64_def int64_min_def int64_max_def)

lemma sum_list_nonneg': "list_all (\<lambda>x. 0 \<le> f x) xs \<Longrightarrow> 0 \<le> sum_list (map f xs :: int list)"
  by (induction xs) auto

lemma value_out_loop_sum:
  "MoneyRange a \<Longrightarrow>
   value_out_loop fE os a = Inr v \<longleftrightarrow>
   (let outs = filter (\<lambda>out. fE \<or> IsAssetScript (scriptPubKey out) = None) os in
    list_all (\<lambda>out. 0 \<le> nValue out) outs \<and> v = a + sum_list (map nValue outs) \<and> v \<le> MAX_MONEY)"
proof (induction os arbitrary: a)
  case Nil
  then show ?case by (auto simp: MoneyRange_def)
next
  case (Cons out os)
  let ?outs = "filter (\<lambda>out. fE \<or> IsAssetScript (scriptPubKey out) = None) os"
  show ?case
  proof (cases "fE \<or> IsAssetScript (scriptPubKey out) = None")
    case False
    then show ?thesis using Cons by (auto simp del: not_None_eq)
  next
    case True
    show ?thesis
    proof (cases "0 \<le> nValue out \<and> a + nValue out \<le> MAX_MONEY")
      case ok: True
      then show ?thesis using True Cons.IH [of "a + nValue out"] money_step [OF Cons.prems, of "nValue out"]
        by (auto simp: Let_def add.assoc)
    next
      case no: False
      have "0 \<le> sum_list (map nValue ?outs)" if "list_all (\<lambda>out. 0 \<le> nValue out) ?outs"
        using sum_list_nonneg' [OF that] .
      then show ?thesis using True no money_step(1) [OF Cons.prems, of "nValue out"] by (auto simp: Let_def)
    qed
  qed
qed

lemma GetValueOut_sum:
  "GetValueOut tx fE = Inr v \<longleftrightarrow>
   list_all (\<lambda>out. 0 \<le> nValue out) (counted_outs fE tx) \<and> v = sum_list (map nValue (counted_outs fE tx)) \<and> v \<le> MAX_MONEY"
  using value_out_loop_sum [of 0 fE "vout tx" v] by (simp add: GetValueOut_def counted_outs_def Let_def MoneyRange_def MAX_MONEY_def COIN_def)

lemma value_out_loop_fault: "value_out_loop fE os a = Inl e \<Longrightarrow> e = Throw ''GetValueOut: value out of range''"
  by (induction os arbitrary: a) (auto simp: Let_def split: if_splits)

end
