(* ===== verification/Interpreter.thy ===== *)
theory Interpreter
  imports Transaction
begin

unbundle bit_operations_syntax

text \<open>
  \<^verbatim>\<open>script/interpreter.cpp\<close>: evaluating scripts and the verification of an
  input against the output it spends. A stack is a list with its top first, so \<^verbatim>\<open>stacktop(-i)\<close> is element
  \<open>i - 1\<close>; a position in a script is the rest of the script from there. The hash functions and the curve
  operations of the crypto libraries are parameters.
\<close>

section \<open>Errors and flags\<close>

datatype ScriptError =
  SCRIPT_ERR_OK | SCRIPT_ERR_UNKNOWN_ERROR | SCRIPT_ERR_EVAL_FALSE | SCRIPT_ERR_OP_RETURN
| SCRIPT_ERR_SCRIPT_SIZE | SCRIPT_ERR_PUSH_SIZE | SCRIPT_ERR_OP_COUNT | SCRIPT_ERR_STACK_SIZE
| SCRIPT_ERR_SIG_COUNT | SCRIPT_ERR_PUBKEY_COUNT
| SCRIPT_ERR_VERIFY | SCRIPT_ERR_EQUALVERIFY | SCRIPT_ERR_CHECKMULTISIGVERIFY | SCRIPT_ERR_CHECKSIGVERIFY
| SCRIPT_ERR_NUMEQUALVERIFY
| SCRIPT_ERR_BAD_OPCODE | SCRIPT_ERR_DISABLED_OPCODE | SCRIPT_ERR_INVALID_STACK_OPERATION
| SCRIPT_ERR_INVALID_ALTSTACK_OPERATION | SCRIPT_ERR_UNBALANCED_CONDITIONAL
| SCRIPT_ERR_NEGATIVE_LOCKTIME | SCRIPT_ERR_UNSATISFIED_LOCKTIME
| SCRIPT_ERR_SIG_HASHTYPE | SCRIPT_ERR_SIG_DER | SCRIPT_ERR_MINIMALDATA | SCRIPT_ERR_SIG_PUSHONLY
| SCRIPT_ERR_SIG_HIGH_S | SCRIPT_ERR_SIG_NULLDUMMY | SCRIPT_ERR_PUBKEYTYPE | SCRIPT_ERR_CLEANSTACK
| SCRIPT_ERR_MINIMALIF | SCRIPT_ERR_SIG_NULLFAIL
| SCRIPT_ERR_DISCOURAGE_UPGRADABLE_NOPS | SCRIPT_ERR_DISCOURAGE_UPGRADABLE_WITNESS_PROGRAM
| SCRIPT_ERR_WITNESS_PROGRAM_WRONG_LENGTH | SCRIPT_ERR_WITNESS_PROGRAM_WITNESS_EMPTY
| SCRIPT_ERR_WITNESS_PROGRAM_MISMATCH | SCRIPT_ERR_WITNESS_MALLEATED | SCRIPT_ERR_WITNESS_MALLEATED_P2SH
| SCRIPT_ERR_WITNESS_UNEXPECTED | SCRIPT_ERR_WITNESS_PUBKEYTYPE | SCRIPT_ERR_ERROR_COUNT

type_synonym script_flags = u32

abbreviation SIGHASH_ALL :: int where "SIGHASH_ALL \<equiv> 1"
abbreviation SIGHASH_NONE :: int where "SIGHASH_NONE \<equiv> 2"
abbreviation SIGHASH_SINGLE :: int where "SIGHASH_SINGLE \<equiv> 3"
abbreviation SIGHASH_ANYONECANPAY :: int where "SIGHASH_ANYONECANPAY \<equiv> 0x80"

abbreviation SCRIPT_VERIFY_P2SH :: script_flags where "SCRIPT_VERIFY_P2SH \<equiv> 0x1"
abbreviation SCRIPT_VERIFY_STRICTENC :: script_flags where "SCRIPT_VERIFY_STRICTENC \<equiv> 0x2"
abbreviation SCRIPT_VERIFY_DERSIG :: script_flags where "SCRIPT_VERIFY_DERSIG \<equiv> 0x4"
abbreviation SCRIPT_VERIFY_LOW_S :: script_flags where "SCRIPT_VERIFY_LOW_S \<equiv> 0x8"
abbreviation SCRIPT_VERIFY_NULLDUMMY :: script_flags where "SCRIPT_VERIFY_NULLDUMMY \<equiv> 0x10"
abbreviation SCRIPT_VERIFY_SIGPUSHONLY :: script_flags where "SCRIPT_VERIFY_SIGPUSHONLY \<equiv> 0x20"
abbreviation SCRIPT_VERIFY_MINIMALDATA :: script_flags where "SCRIPT_VERIFY_MINIMALDATA \<equiv> 0x40"
abbreviation SCRIPT_VERIFY_DISCOURAGE_UPGRADABLE_NOPS :: script_flags where "SCRIPT_VERIFY_DISCOURAGE_UPGRADABLE_NOPS \<equiv> 0x80"
abbreviation SCRIPT_VERIFY_CLEANSTACK :: script_flags where "SCRIPT_VERIFY_CLEANSTACK \<equiv> 0x100"
abbreviation SCRIPT_VERIFY_CHECKLOCKTIMEVERIFY :: script_flags where "SCRIPT_VERIFY_CHECKLOCKTIMEVERIFY \<equiv> 0x200"
abbreviation SCRIPT_VERIFY_CHECKSEQUENCEVERIFY :: script_flags where "SCRIPT_VERIFY_CHECKSEQUENCEVERIFY \<equiv> 0x400"
abbreviation SCRIPT_VERIFY_WITNESS :: script_flags where "SCRIPT_VERIFY_WITNESS \<equiv> 0x800"
abbreviation SCRIPT_VERIFY_DISCOURAGE_UPGRADABLE_WITNESS_PROGRAM :: script_flags
  where "SCRIPT_VERIFY_DISCOURAGE_UPGRADABLE_WITNESS_PROGRAM \<equiv> 0x1000"
abbreviation SCRIPT_VERIFY_MINIMALIF :: script_flags where "SCRIPT_VERIFY_MINIMALIF \<equiv> 0x2000"
abbreviation SCRIPT_VERIFY_NULLFAIL :: script_flags where "SCRIPT_VERIFY_NULLFAIL \<equiv> 0x4000"
abbreviation SCRIPT_VERIFY_WITNESS_PUBKEYTYPE :: script_flags where "SCRIPT_VERIFY_WITNESS_PUBKEYTYPE \<equiv> 0x8000"

datatype SigVersion = SIGVERSION_BASE | SIGVERSION_WITNESS_V0

text \<open>The crypto libraries, and the virtual functions of \<^verbatim>\<open>BaseSignatureChecker\<close>.\<close>

record crypto =
  cr_ripemd160 :: "bytes \<Rightarrow> bytes"
  cr_sha1 :: "bytes \<Rightarrow> bytes"
  cr_sha256 :: "bytes \<Rightarrow> bytes"
  cr_CheckLowS :: "bytes \<Rightarrow> bool"

record checker =
  c_CheckSig :: "valtype \<Rightarrow> valtype \<Rightarrow> CScript \<Rightarrow> SigVersion \<Rightarrow> bool outcome"
  c_CheckLockTime :: "int \<Rightarrow> bool outcome"
  c_CheckSequence :: "int \<Rightarrow> bool outcome"

text \<open>
  A step of the evaluation throws (\<open>Inl\<close>), returns with an error (\<open>Inr (Inl e)\<close>) or goes on.
\<close>

type_synonym 'a step = "(ScriptError + 'a) outcome"

definition set_error :: "ScriptError \<Rightarrow> 'a step" where "set_error e = Inr (Inl e)"

definition set_success :: "'a \<Rightarrow> 'a step" where "set_success x = Inr (Inr x)"

definition bind_step :: "'a step \<Rightarrow> ('a \<Rightarrow> 'b step) \<Rightarrow> 'b step" where
  "bind_step m f = (case m of Inl e \<Rightarrow> Inl e | Inr (Inl e) \<Rightarrow> Inr (Inl e) | Inr (Inr x) \<Rightarrow> f x)"

definition lift_step :: "'a outcome \<Rightarrow> 'a step" where
  "lift_step m = (case m of Inl e \<Rightarrow> Inl e | Inr x \<Rightarrow> Inr (Inr x))"

definition need :: "nat \<Rightarrow> 'a list \<Rightarrow> ScriptError \<Rightarrow> 'b step \<Rightarrow> 'b step" where
  "need n st e k = (if length st < n then set_error e else k)"

type_synonym stack = "valtype list"

definition stacktop :: "stack \<Rightarrow> nat \<Rightarrow> valtype step" where
  "stacktop st i = (if i = 0 \<or> length st < i then Inl (Throw ''out_of_range'') else set_success (st ! (i - 1)))"

definition popstack :: "'a list \<Rightarrow> 'a list step" where
  "popstack st = (case st of [] \<Rightarrow> Inl (Throw ''popstack(): stack empty'') | _ # st \<Rightarrow> set_success st)"

text \<open>
  \<^verbatim>\<open>erase(end() - i, end() - j)\<close>, \<^verbatim>\<open>insert(end() - i, v)\<close> and \<^verbatim>\<open>pop_back()\<close> check nothing: a position
  before the first element is out of range.
\<close>

definition stack_erase :: "'a list \<Rightarrow> nat \<Rightarrow> nat \<Rightarrow> 'a list step" where
  "stack_erase st i j = (if j \<le> i \<and> i \<le> length st then set_success (take j st @ drop i st) else Inl OutOfRange)"

definition stack_insert :: "'a list \<Rightarrow> nat \<Rightarrow> 'a \<Rightarrow> 'a list step" where
  "stack_insert st i v = (if i \<le> length st then set_success (take i st @ v # drop i st) else Inl OutOfRange)"

definition pop_back :: "'a list \<Rightarrow> 'a list step" where
  "pop_back st = (case st of [] \<Rightarrow> Inl OutOfRange | _ # st \<Rightarrow> set_success st)"

definition swap_top :: "stack \<Rightarrow> nat \<Rightarrow> nat \<Rightarrow> stack step" where
  "swap_top st i j =
     bind_step (stacktop st i) (\<lambda>a. bind_step (stacktop st j) (\<lambda>b. set_success (st[i - 1 := b, j - 1 := a])))"

section \<open>Encodings\<close>

fun CastToBool :: "valtype \<Rightarrow> bool" where
  "CastToBool [] = False"
| "CastToBool (b # bs) = (if b \<noteq> 0 then \<not> (bs = [] \<and> b = 0x80) else CastToBool bs)"

text \<open>The checks read bytes of keys and signatures by index, which is a fault outside the vector.\<close>

definition IsCompressedOrUncompressedPubKey :: "valtype \<Rightarrow> bool outcome" where
  "IsCompressedOrUncompressedPubKey vchPubKey =
     (if length vchPubKey < 33 then Inr False
      else bind_out (vector_at vchPubKey 0) (\<lambda>header.
        if header = 0x04 then Inr (length vchPubKey = 65)
        else if header = 0x02 \<or> header = 0x03 then Inr (length vchPubKey = 33)
        else Inr False))"

definition IsCompressedPubKey :: "valtype \<Rightarrow> bool outcome" where
  "IsCompressedPubKey vchPubKey =
     (if length vchPubKey \<noteq> 33 then Inr False
      else bind_out (vector_at vchPubKey 0) (\<lambda>header. Inr (\<not> (header \<noteq> 0x02 \<and> header \<noteq> 0x03))))"

text \<open>\<^verbatim>\<open>if (c) return false;\<close> before the rest of a check.\<close>

definition refuse_if :: "bool outcome \<Rightarrow> bool outcome \<Rightarrow> bool outcome" where
  "refuse_if c k = bind_out c (\<lambda>b. if b then Inr False else k)"

definition IsValidSignatureEncoding :: "valtype \<Rightarrow> bool outcome" where
  "IsValidSignatureEncoding sig =
     (if length sig < 9 then Inr False
      else if length sig > 73 then Inr False
      else refuse_if (test_at sig 0 (\<lambda>b. b \<noteq> 0x30)) (
        refuse_if (test_at sig 1 (\<lambda>b. unat b \<noteq> length sig - 3)) (
        bind_out (vector_at sig 3) (\<lambda>b. let lenR = unat b in
        if 5 + lenR \<ge> length sig then Inr False
        else bind_out (vector_at sig (5 + lenR)) (\<lambda>b. let lenS = unat b in
          if lenR + lenS + 7 \<noteq> length sig then Inr False
          else refuse_if (test_at sig 2 (\<lambda>b. b \<noteq> 0x02)) (
            if lenR = 0 then Inr False
            else refuse_if (test_at sig 4 (\<lambda>b. b AND 0x80 \<noteq> 0)) (
              refuse_if (and_out (Inr (lenR > 1)) (and_out (test_at sig 4 (\<lambda>b. b = 0x00)) (test_at sig 5 (\<lambda>b. b AND 0x80 = 0)))) (
              refuse_if (test_at sig (lenR + 4) (\<lambda>b. b \<noteq> 0x02)) (
              if lenS = 0 then Inr False
              else refuse_if (test_at sig (lenR + 6) (\<lambda>b. b AND 0x80 \<noteq> 0)) (
                refuse_if (and_out (Inr (lenS > 1))
                    (and_out (test_at sig (lenR + 6) (\<lambda>b. b = 0x00)) (test_at sig (lenR + 7) (\<lambda>b. b AND 0x80 = 0))))
                (Inr True)))))))))))"

text \<open>A check returns the error it sets, or \<open>None\<close> when it holds.\<close>

type_synonym check = "ScriptError option outcome"

definition check_if :: "bool \<Rightarrow> check \<Rightarrow> check \<Rightarrow> check" where
  "check_if c m k = (if c then bind_out m (\<lambda>e. if e \<noteq> None then Inr e else k) else k)"

definition error_unless :: "bool outcome \<Rightarrow> ScriptError \<Rightarrow> check" where
  "error_unless c e = bind_out c (\<lambda>b. Inr (if b then None else Some e))"

text \<open>The copy without the hash type, \<^verbatim>\<open>begin() + size() - 1\<close>, is out of range when there is no byte.\<close>

definition IsLowDERSignature :: "crypto \<Rightarrow> valtype \<Rightarrow> check" where
  "IsLowDERSignature cr vchSig =
     bind_out (IsValidSignatureEncoding vchSig) (\<lambda>valid.
       if \<not> valid then Inr (Some SCRIPT_ERR_SIG_DER)
       else if vchSig = [] then Inl OutOfRange
       else if \<not> cr_CheckLowS cr (butlast vchSig) then Inr (Some SCRIPT_ERR_SIG_HIGH_S)
       else Inr None)"

definition IsDefinedHashtypeSignature :: "valtype \<Rightarrow> bool outcome" where
  "IsDefinedHashtypeSignature vchSig =
     (if length vchSig = 0 then Inr False
      else bind_out (vector_at_end vchSig 1) (\<lambda>b.
        let nHashType = b AND (NOT 0x80) in Inr (\<not> (nHashType < 1 \<or> nHashType > 3))))"

definition CheckSignatureEncoding :: "crypto \<Rightarrow> valtype \<Rightarrow> script_flags \<Rightarrow> check" where
  "CheckSignatureEncoding cr vchSig flags =
     (if length vchSig = 0 then Inr None
      else check_if (flags AND (SCRIPT_VERIFY_DERSIG OR SCRIPT_VERIFY_LOW_S OR SCRIPT_VERIFY_STRICTENC) \<noteq> 0)
          (error_unless (IsValidSignatureEncoding vchSig) SCRIPT_ERR_SIG_DER)
        (check_if (flags AND SCRIPT_VERIFY_LOW_S \<noteq> 0) (IsLowDERSignature cr vchSig)
        (check_if (flags AND SCRIPT_VERIFY_STRICTENC \<noteq> 0)
            (error_unless (IsDefinedHashtypeSignature vchSig) SCRIPT_ERR_SIG_HASHTYPE)
        (Inr None))))"

definition CheckPubKeyEncoding :: "valtype \<Rightarrow> script_flags \<Rightarrow> SigVersion \<Rightarrow> check" where
  "CheckPubKeyEncoding vchPubKey flags sigversion =
     check_if (flags AND SCRIPT_VERIFY_STRICTENC \<noteq> 0)
       (error_unless (IsCompressedOrUncompressedPubKey vchPubKey) SCRIPT_ERR_PUBKEYTYPE)
     (check_if (flags AND SCRIPT_VERIFY_WITNESS_PUBKEYTYPE \<noteq> 0 \<and> sigversion = SIGVERSION_WITNESS_V0)
       (error_unless (IsCompressedPubKey vchPubKey) SCRIPT_ERR_WITNESS_PUBKEYTYPE)
     (Inr None))"

definition CheckMinimalPush :: "valtype \<Rightarrow> opcodetype \<Rightarrow> bool outcome" where
  "CheckMinimalPush data opcode =
     (if length data = 0 then Inr (opcode = OP_0)
      else bind_out (and_out (Inr (length data = 1)) (test_at data 0 (\<lambda>b. b \<ge> 1 \<and> b \<le> 16))) (\<lambda>small.
        if small then bind_out (vector_at data 0) (\<lambda>b. Inr (opcode = OP_1 + (b - 1)))
        else bind_out (and_out (Inr (length data = 1)) (test_at data 0 (\<lambda>b. b = 0x81))) (\<lambda>minus.
          if minus then Inr (opcode = OP_1NEGATE)
          else if length data \<le> 75 then Inr (unat opcode = length data)
          else if length data \<le> 255 then Inr (opcode = OP_PUSHDATA1)
          else if length data \<le> 65535 then Inr (opcode = OP_PUSHDATA2)
          else Inr True)))"

section \<open>Operations on the stack\<close>

abbreviation stack_err :: ScriptError where "stack_err \<equiv> SCRIPT_ERR_INVALID_STACK_OPERATION"

definition vchFalse :: valtype where "vchFalse = []"

definition vchTrue :: valtype where "vchTrue = [1]"

definition bool_vch :: "bool \<Rightarrow> valtype" where "bool_vch b = (if b then vchTrue else vchFalse)"

definition script_num :: "valtype \<Rightarrow> bool \<Rightarrow> nat \<Rightarrow> int step" where
  "script_num vch fRequireMinimal n = lift_step (CScriptNum vch fRequireMinimal n)"

text \<open>The operations that only move elements, from \<^verbatim>\<open>OP_2DROP\<close> to \<^verbatim>\<open>OP_OVER\<close>.\<close>

definition stack_op :: "opcodetype \<Rightarrow> stack \<Rightarrow> stack step" where
  "stack_op opcode st =
     (if opcode = OP_2DROP then need 2 st stack_err (bind_step (popstack st) popstack)
      else if opcode = OP_2DUP then need 2 st stack_err
        (bind_step (stacktop st 2) (\<lambda>vch1. bind_step (stacktop st 1) (\<lambda>vch2. set_success (vch2 # vch1 # st))))
      else if opcode = OP_3DUP then need 3 st stack_err
        (bind_step (stacktop st 3) (\<lambda>vch1. bind_step (stacktop st 2) (\<lambda>vch2. bind_step (stacktop st 1) (\<lambda>vch3.
           set_success (vch3 # vch2 # vch1 # st)))))
      else if opcode = OP_2OVER then need 4 st stack_err
        (bind_step (stacktop st 4) (\<lambda>vch1. bind_step (stacktop st 3) (\<lambda>vch2. set_success (vch2 # vch1 # st))))
      else if opcode = OP_2ROT then need 6 st stack_err
        (bind_step (stacktop st 6) (\<lambda>vch1. bind_step (stacktop st 5) (\<lambda>vch2.
           bind_step (stack_erase st 6 4) (\<lambda>st. set_success (vch2 # vch1 # st)))))
      else if opcode = OP_2SWAP then need 4 st stack_err
        (bind_step (swap_top st 4 2) (\<lambda>st. swap_top st 3 1))
      else if opcode = OP_IFDUP then need 1 st stack_err
        (bind_step (stacktop st 1) (\<lambda>vch. set_success (if CastToBool vch then vch # st else st)))
      else if opcode = OP_DEPTH then set_success (scriptnum_serialize (int (length st)) # st)
      else if opcode = OP_DROP then need 1 st stack_err (popstack st)
      else if opcode = OP_DUP then need 1 st stack_err (bind_step (stacktop st 1) (\<lambda>vch. set_success (vch # st)))
      else if opcode = OP_NIP then need 2 st stack_err (stack_erase st 2 1)
      else if opcode = OP_OVER then need 2 st stack_err (bind_step (stacktop st 2) (\<lambda>vch. set_success (vch # st)))
      else if opcode = OP_ROT then need 3 st stack_err (bind_step (swap_top st 3 2) (\<lambda>st. swap_top st 2 1))
      else if opcode = OP_SWAP then need 2 st stack_err (swap_top st 2 1)
      else if opcode = OP_TUCK then need 2 st stack_err
        (bind_step (stacktop st 1) (\<lambda>vch. stack_insert st 2 vch))
      else if opcode = OP_SIZE then need 1 st stack_err
        (bind_step (stacktop st 1) (\<lambda>vch. set_success (scriptnum_serialize (int (length vch)) # st)))
      else set_error SCRIPT_ERR_BAD_OPCODE)"

definition op_pick_roll :: "bool \<Rightarrow> opcodetype \<Rightarrow> stack \<Rightarrow> stack step" where
  "op_pick_roll fRequireMinimal opcode st =
     need 2 st stack_err (bind_step (stacktop st 1) (\<lambda>top.
       bind_step (script_num top fRequireMinimal nDefaultMaxNumSize) (\<lambda>bn.
       bind_step (popstack st) (\<lambda>st.
         let n = getint bn in
         if n < 0 \<or> n \<ge> int (length st) then set_error stack_err
         else bind_step (stacktop st (nat n + 1)) (\<lambda>vch.
         bind_step (if opcode = OP_ROLL then stack_erase st (nat n + 1) (nat n) else set_success st) (\<lambda>st.
           set_success (vch # st)))))))"

definition op_equal :: "opcodetype \<Rightarrow> stack \<Rightarrow> stack step" where
  "op_equal opcode st =
     need 2 st stack_err (bind_step (stacktop st 2) (\<lambda>vch1. bind_step (stacktop st 1) (\<lambda>vch2.
       let fEqual = (vch1 = vch2) in
       bind_step (popstack st) (\<lambda>st. bind_step (popstack st) (\<lambda>st.
         let st = bool_vch fEqual # st in
         if opcode = OP_EQUALVERIFY then (if fEqual then popstack st else set_error SCRIPT_ERR_EQUALVERIFY)
         else set_success st)))))"

section \<open>Numbers\<close>

definition unary_num :: "opcodetype \<Rightarrow> int \<Rightarrow> int outcome" where
  "unary_num opcode bn =
     (if opcode = OP_1ADD then scriptnum_add_assign bn 1
      else if opcode = OP_1SUB then scriptnum_sub_assign bn 1
      else if opcode = OP_NEGATE then scriptnum_neg bn
      else if opcode = OP_ABS then (if bn < 0 then scriptnum_neg bn else Inr bn)
      else if opcode = OP_NOT then Inr (of_bool (bn = 0))
      else if opcode = OP_0NOTEQUAL then Inr (of_bool (bn \<noteq> 0))
      else Inl AssertFail)"

definition op_unary :: "bool \<Rightarrow> opcodetype \<Rightarrow> stack \<Rightarrow> stack step" where
  "op_unary fRequireMinimal opcode st =
     need 1 st stack_err (bind_step (stacktop st 1) (\<lambda>top.
       bind_step (script_num top fRequireMinimal nDefaultMaxNumSize) (\<lambda>bn.
       bind_step (lift_step (unary_num opcode bn)) (\<lambda>bn.
       bind_step (popstack st) (\<lambda>st. set_success (scriptnum_serialize bn # st))))))"

definition binary_num :: "opcodetype \<Rightarrow> int \<Rightarrow> int \<Rightarrow> int outcome" where
  "binary_num opcode bn1 bn2 =
     (if opcode = OP_ADD then Inr (scriptnum_plus bn1 bn2)
      else if opcode = OP_SUB then Inr (scriptnum_minus bn1 bn2)
      else if opcode = OP_BOOLAND then Inr (of_bool (bn1 \<noteq> 0 \<and> bn2 \<noteq> 0))
      else if opcode = OP_BOOLOR then Inr (of_bool (bn1 \<noteq> 0 \<or> bn2 \<noteq> 0))
      else if opcode = OP_NUMEQUAL then Inr (of_bool (bn1 = bn2))
      else if opcode = OP_NUMEQUALVERIFY then Inr (of_bool (bn1 = bn2))
      else if opcode = OP_NUMNOTEQUAL then Inr (of_bool (bn1 \<noteq> bn2))
      else if opcode = OP_LESSTHAN then Inr (of_bool (bn1 < bn2))
      else if opcode = OP_GREATERTHAN then Inr (of_bool (bn1 > bn2))
      else if opcode = OP_LESSTHANOREQUAL then Inr (of_bool (bn1 \<le> bn2))
      else if opcode = OP_GREATERTHANOREQUAL then Inr (of_bool (bn1 \<ge> bn2))
      else if opcode = OP_MIN then Inr (if bn1 < bn2 then bn1 else bn2)
      else if opcode = OP_MAX then Inr (if bn1 > bn2 then bn1 else bn2)
      else Inl AssertFail)"

definition op_binary :: "bool \<Rightarrow> opcodetype \<Rightarrow> stack \<Rightarrow> stack step" where
  "op_binary fRequireMinimal opcode st =
     need 2 st stack_err (bind_step (stacktop st 2) (\<lambda>v1.
       bind_step (script_num v1 fRequireMinimal nDefaultMaxNumSize) (\<lambda>bn1.
       bind_step (stacktop st 1) (\<lambda>v2.
       bind_step (script_num v2 fRequireMinimal nDefaultMaxNumSize) (\<lambda>bn2.
       bind_step (lift_step (binary_num opcode bn1 bn2)) (\<lambda>bn.
       bind_step (popstack st) (\<lambda>st. bind_step (popstack st) (\<lambda>st.
         let st = scriptnum_serialize bn # st in
         if opcode = OP_NUMEQUALVERIFY then
           bind_step (stacktop st 1) (\<lambda>v.
             if CastToBool v then popstack st else set_error SCRIPT_ERR_NUMEQUALVERIFY)
         else set_success st))))))))"

definition op_within :: "bool \<Rightarrow> stack \<Rightarrow> stack step" where
  "op_within fRequireMinimal st =
     need 3 st stack_err (bind_step (stacktop st 3) (\<lambda>v1.
       bind_step (script_num v1 fRequireMinimal nDefaultMaxNumSize) (\<lambda>bn1.
       bind_step (stacktop st 2) (\<lambda>v2.
       bind_step (script_num v2 fRequireMinimal nDefaultMaxNumSize) (\<lambda>bn2.
       bind_step (stacktop st 1) (\<lambda>v3.
       bind_step (script_num v3 fRequireMinimal nDefaultMaxNumSize) (\<lambda>bn3.
       bind_step (popstack st) (\<lambda>st. bind_step (popstack st) (\<lambda>st. bind_step (popstack st) (\<lambda>st.
         set_success (bool_vch (bn2 \<le> bn1 \<and> bn1 < bn3) # st)))))))))))"

section \<open>Hashes and signatures\<close>

definition script_hash :: "crypto \<Rightarrow> opcodetype \<Rightarrow> valtype \<Rightarrow> valtype" where
  "script_hash cr opcode vch =
     (if opcode = OP_RIPEMD160 then cr_ripemd160 cr vch
      else if opcode = OP_SHA1 then cr_sha1 cr vch
      else if opcode = OP_SHA256 then cr_sha256 cr vch
      else if opcode = OP_HASH160 then cr_ripemd160 cr (cr_sha256 cr vch)
      else cr_sha256 cr (cr_sha256 cr vch))"

definition op_digest :: "crypto \<Rightarrow> opcodetype \<Rightarrow> stack \<Rightarrow> stack step" where
  "op_digest cr opcode st =
     need 1 st stack_err (bind_step (stacktop st 1) (\<lambda>vch.
       bind_step (popstack st) (\<lambda>st. set_success (script_hash cr opcode vch # st))))"

text \<open>\<open>scriptCode\<close> is the script from the last code separator on.\<close>

definition check_encodings :: "crypto \<Rightarrow> valtype \<Rightarrow> valtype \<Rightarrow> script_flags \<Rightarrow> SigVersion \<Rightarrow> unit step" where
  "check_encodings cr vchSig vchPubKey flags sigversion =
     bind_step (lift_step (CheckSignatureEncoding cr vchSig flags)) (\<lambda>e. case e of
        Some e \<Rightarrow> set_error e
      | None \<Rightarrow> bind_step (lift_step (CheckPubKeyEncoding vchPubKey flags sigversion)) (\<lambda>e. case e of
          Some e \<Rightarrow> set_error e
        | None \<Rightarrow> set_success ()))"

definition op_checksig ::
  "crypto \<Rightarrow> checker \<Rightarrow> script_flags \<Rightarrow> SigVersion \<Rightarrow> CScript \<Rightarrow> opcodetype \<Rightarrow> stack \<Rightarrow> stack step" where
  "op_checksig cr C flags sigversion scriptCode opcode st =
     need 2 st stack_err (bind_step (stacktop st 2) (\<lambda>vchSig. bind_step (stacktop st 1) (\<lambda>vchPubKey.
       let scriptCode = (if sigversion = SIGVERSION_BASE then snd (FindAndDelete scriptCode (push_data [] vchSig))
                         else scriptCode) in
       bind_step (check_encodings cr vchSig vchPubKey flags sigversion) (\<lambda>_.
       bind_step (lift_step (c_CheckSig C vchSig vchPubKey scriptCode sigversion)) (\<lambda>fSuccess.
         if \<not> fSuccess \<and> flags AND SCRIPT_VERIFY_NULLFAIL \<noteq> 0 \<and> vchSig \<noteq> [] then set_error SCRIPT_ERR_SIG_NULLFAIL
         else bind_step (popstack st) (\<lambda>st. bind_step (popstack st) (\<lambda>st.
           let st = bool_vch fSuccess # st in
           if opcode = OP_CHECKSIGVERIFY then (if fSuccess then popstack st else set_error SCRIPT_ERR_CHECKSIGVERIFY)
           else set_success st)))))))"

fun drop_sigs :: "SigVersion \<Rightarrow> stack \<Rightarrow> nat \<Rightarrow> nat \<Rightarrow> CScript \<Rightarrow> CScript step" where
  "drop_sigs sigversion st isig 0 scriptCode = set_success scriptCode"
| "drop_sigs sigversion st isig (Suc n) scriptCode =
     bind_step (stacktop st isig) (\<lambda>vchSig.
       drop_sigs sigversion st (isig + 1) n
         (if sigversion = SIGVERSION_BASE then snd (FindAndDelete scriptCode (push_data [] vchSig)) else scriptCode))"

lemma bind_step_cong [fundef_cong]:
  "m = m' \<Longrightarrow> (\<And>x. m' = Inr (Inr x) \<Longrightarrow> f x = g x) \<Longrightarrow> bind_step m f = bind_step m' g"
  by (auto simp: bind_step_def split: sum.splits)

function check_sigs ::
  "crypto \<Rightarrow> checker \<Rightarrow> script_flags \<Rightarrow> SigVersion \<Rightarrow> CScript \<Rightarrow> stack \<Rightarrow> nat \<Rightarrow> nat \<Rightarrow> int \<Rightarrow> int \<Rightarrow> bool step" where
  "check_sigs cr C flags sigversion scriptCode st isig ikey nSigsCount nKeysCount =
     (if nSigsCount > 0 then
        bind_step (stacktop st isig) (\<lambda>vchSig. bind_step (stacktop st ikey) (\<lambda>vchPubKey.
        bind_step (check_encodings cr vchSig vchPubKey flags sigversion) (\<lambda>_.
        bind_step (lift_step (c_CheckSig C vchSig vchPubKey scriptCode sigversion)) (\<lambda>fOk.
          if (if fOk then nSigsCount - 1 else nSigsCount) > nKeysCount - 1 then set_success False
          else check_sigs cr C flags sigversion scriptCode st (if fOk then isig + 1 else isig) (ikey + 1)
                 (if fOk then nSigsCount - 1 else nSigsCount) (nKeysCount - 1)))))
      else set_success True)"
  by pat_completeness auto
termination
  by (relation "measure (\<lambda>(cr, C, flags, sv, sc, st, isig, ikey, ns, nk). nat nk)") (auto split: if_splits)

declare check_sigs.simps [simp del]

fun clean_args :: "bool \<Rightarrow> script_flags \<Rightarrow> nat \<Rightarrow> nat \<Rightarrow> stack \<Rightarrow> stack step" where
  "clean_args fSuccess flags ikey2 0 st = set_success st"
| "clean_args fSuccess flags ikey2 (Suc n) st =
     bind_step (if \<not> fSuccess \<and> flags AND SCRIPT_VERIFY_NULLFAIL \<noteq> 0 \<and> ikey2 = 0 then stacktop st 1 else set_success [])
       (\<lambda>v. if v \<noteq> [] then set_error SCRIPT_ERR_SIG_NULLFAIL
            else bind_step (popstack st) (\<lambda>st. clean_args fSuccess flags (ikey2 - 1) n st))"

definition op_checkmultisig ::
  "crypto \<Rightarrow> checker \<Rightarrow> script_flags \<Rightarrow> SigVersion \<Rightarrow> CScript \<Rightarrow> opcodetype \<Rightarrow> int \<Rightarrow> stack \<Rightarrow> (int \<times> stack) step" where
  "op_checkmultisig cr C flags sigversion scriptCode opcode nOpCount st =
     (let fRequireMinimal = (flags AND SCRIPT_VERIFY_MINIMALDATA \<noteq> 0) in
      need 1 st stack_err (bind_step (stacktop st 1) (\<lambda>v.
      bind_step (script_num v fRequireMinimal nDefaultMaxNumSize) (\<lambda>bn.
      let nKeysCount = getint bn in
      if nKeysCount < 0 \<or> nKeysCount > MAX_PUBKEYS_PER_MULTISIG then set_error SCRIPT_ERR_PUBKEY_COUNT
      else let nOpCount = nOpCount + nKeysCount in
      if nOpCount > MAX_OPS_PER_SCRIPT then set_error SCRIPT_ERR_OP_COUNT
      else let ikey = 2; ikey2 = nat nKeysCount + 2; i = 2 + nat nKeysCount in
      need i st stack_err (bind_step (stacktop st i) (\<lambda>v.
      bind_step (script_num v fRequireMinimal nDefaultMaxNumSize) (\<lambda>bn.
      let nSigsCount = getint bn in
      if nSigsCount < 0 \<or> nSigsCount > nKeysCount then set_error SCRIPT_ERR_SIG_COUNT
      else let isig = i + 1; i = i + 1 + nat nSigsCount in
      need i st stack_err (
      bind_step (drop_sigs sigversion st isig (nat nSigsCount) scriptCode) (\<lambda>scriptCode.
      bind_step (check_sigs cr C flags sigversion scriptCode st isig ikey nSigsCount nKeysCount) (\<lambda>fSuccess.
      bind_step (clean_args fSuccess flags ikey2 (i - 1) st) (\<lambda>st.
      need 1 st stack_err (
      bind_step (if flags AND SCRIPT_VERIFY_NULLDUMMY \<noteq> 0 then stacktop st 1 else set_success []) (\<lambda>v.
      if v \<noteq> [] then set_error SCRIPT_ERR_SIG_NULLDUMMY
      else bind_step (popstack st) (\<lambda>st.
      let st = bool_vch fSuccess # st in
      if opcode = OP_CHECKMULTISIGVERIFY then
        (if fSuccess then bind_step (popstack st) (\<lambda>st. set_success (nOpCount, st))
         else set_error SCRIPT_ERR_CHECKMULTISIGVERIFY)
      else set_success (nOpCount, st)))))))))))))))"

section \<open>Evaluating a script\<close>

record exec_state =
  es_stack :: stack
  es_altstack :: stack
  vfExec :: "bool list"
  pbegincodehash :: CScript
  nOpCount :: int

definition on_stack :: "exec_state \<Rightarrow> stack step \<Rightarrow> exec_state step" where
  "on_stack s r = bind_step r (\<lambda>st. set_success (s\<lparr>es_stack := st\<rparr>))"

definition op_locktime :: "checker \<Rightarrow> script_flags \<Rightarrow> stack \<Rightarrow> unit step" where
  "op_locktime C flags st =
     (if flags AND SCRIPT_VERIFY_CHECKLOCKTIMEVERIFY = 0 then
        (if flags AND SCRIPT_VERIFY_DISCOURAGE_UPGRADABLE_NOPS \<noteq> 0
         then set_error SCRIPT_ERR_DISCOURAGE_UPGRADABLE_NOPS else set_success ())
      else need 1 st stack_err (bind_step (stacktop st 1) (\<lambda>v.
        bind_step (script_num v (flags AND SCRIPT_VERIFY_MINIMALDATA \<noteq> 0) 5) (\<lambda>nLockTime.
          if nLockTime < 0 then set_error SCRIPT_ERR_NEGATIVE_LOCKTIME
          else bind_step (lift_step (c_CheckLockTime C nLockTime)) (\<lambda>ok.
            if \<not> ok then set_error SCRIPT_ERR_UNSATISFIED_LOCKTIME else set_success ())))))"

definition op_sequence :: "checker \<Rightarrow> script_flags \<Rightarrow> stack \<Rightarrow> unit step" where
  "op_sequence C flags st =
     (if flags AND SCRIPT_VERIFY_CHECKSEQUENCEVERIFY = 0 then
        (if flags AND SCRIPT_VERIFY_DISCOURAGE_UPGRADABLE_NOPS \<noteq> 0
         then set_error SCRIPT_ERR_DISCOURAGE_UPGRADABLE_NOPS else set_success ())
      else need 1 st stack_err (bind_step (stacktop st 1) (\<lambda>v.
        bind_step (script_num v (flags AND SCRIPT_VERIFY_MINIMALDATA \<noteq> 0) 5) (\<lambda>nSequence.
          if nSequence < 0 then set_error SCRIPT_ERR_NEGATIVE_LOCKTIME
          else if scriptnum_and nSequence (uint SEQUENCE_LOCKTIME_DISABLE_FLAG) \<noteq> 0 then set_success ()
          else bind_step (lift_step (c_CheckSequence C nSequence)) (\<lambda>ok.
            if \<not> ok then set_error SCRIPT_ERR_UNSATISFIED_LOCKTIME else set_success ())))))"

definition op_if :: "script_flags \<Rightarrow> SigVersion \<Rightarrow> bool \<Rightarrow> opcodetype \<Rightarrow> exec_state \<Rightarrow> exec_state step" where
  "op_if flags sigversion fExec opcode s =
     (if fExec then
        need 1 (es_stack s) SCRIPT_ERR_UNBALANCED_CONDITIONAL (bind_step (stacktop (es_stack s) 1) (\<lambda>vch.
          bind_step (lift_step
            (if sigversion = SIGVERSION_WITNESS_V0 \<and> flags AND SCRIPT_VERIFY_MINIMALIF \<noteq> 0 then
               (if length vch > 1 then Inr True else and_out (Inr (length vch = 1)) (test_at vch 0 (\<lambda>b. b \<noteq> 1)))
             else Inr False)) (\<lambda>bad.
          if bad then set_error SCRIPT_ERR_MINIMALIF
          else let fValue = (if opcode = OP_NOTIF then \<not> CastToBool vch else CastToBool vch) in
            bind_step (popstack (es_stack s)) (\<lambda>st. set_success (s\<lparr>es_stack := st, vfExec := fValue # vfExec s\<rparr>)))))
      else set_success (s\<lparr>vfExec := False # vfExec s\<rparr>))"

text \<open>The condition stack, too, is a list with its last element first: \<^verbatim>\<open>back()\<close> is the head.\<close>

definition op_else :: "opcodetype \<Rightarrow> exec_state \<Rightarrow> exec_state step" where
  "op_else opcode s =
     (if vfExec s = [] then set_error SCRIPT_ERR_UNBALANCED_CONDITIONAL
      else if opcode = OP_ELSE then
        bind_step (lift_step (vector_at (vfExec s) 0)) (\<lambda>f. set_success (s\<lparr>vfExec := (vfExec s)[0 := \<not> f]\<rparr>))
      else bind_step (pop_back (vfExec s)) (\<lambda>fs. set_success (s\<lparr>vfExec := fs\<rparr>)))"

definition op_verify :: "stack \<Rightarrow> stack step" where
  "op_verify st =
     need 1 st stack_err (bind_step (stacktop st 1) (\<lambda>v.
       if CastToBool v then popstack st else set_error SCRIPT_ERR_VERIFY))"

definition op_altstack :: "opcodetype \<Rightarrow> exec_state \<Rightarrow> exec_state step" where
  "op_altstack opcode s =
     (if opcode = OP_TOALTSTACK then
        need 1 (es_stack s) stack_err (bind_step (stacktop (es_stack s) 1) (\<lambda>v.
          bind_step (popstack (es_stack s)) (\<lambda>st.
            set_success (s\<lparr>es_altstack := v # es_altstack s, es_stack := st\<rparr>))))
      else
        need 1 (es_altstack s) SCRIPT_ERR_INVALID_ALTSTACK_OPERATION (bind_step (stacktop (es_altstack s) 1) (\<lambda>v.
          bind_step (popstack (es_altstack s)) (\<lambda>alt.
            set_success (s\<lparr>es_stack := v # es_stack s, es_altstack := alt\<rparr>)))))"

text \<open>The \<^verbatim>\<open>switch\<close> over the opcode; \<open>pc\<close> is the script after the instruction.\<close>

definition eval_op ::
  "crypto \<Rightarrow> checker \<Rightarrow> script_flags \<Rightarrow> SigVersion \<Rightarrow> bool \<Rightarrow> opcodetype \<Rightarrow> bytes \<Rightarrow> exec_state \<Rightarrow> exec_state step" where
  "eval_op cr C flags sigversion fExec opcode pc s =
     (let st = es_stack s; m = (flags AND SCRIPT_VERIFY_MINIMALDATA \<noteq> 0) in
      if opcode = OP_1NEGATE \<or> (OP_1 \<le> opcode \<and> opcode \<le> OP_16)
        then set_success (s\<lparr>es_stack := scriptnum_serialize (uint opcode - (uint OP_1 - 1)) # st\<rparr>)
      else if opcode = OP_NOP then set_success s
      else if opcode = OP_CHECKLOCKTIMEVERIFY then bind_step (op_locktime C flags st) (\<lambda>_. set_success s)
      else if opcode = OP_CHECKSEQUENCEVERIFY then bind_step (op_sequence C flags st) (\<lambda>_. set_success s)
      else if opcode = OP_NOP1 \<or> (OP_NOP4 \<le> opcode \<and> opcode \<le> OP_NOP10) then
        (if flags AND SCRIPT_VERIFY_DISCOURAGE_UPGRADABLE_NOPS \<noteq> 0
         then set_error SCRIPT_ERR_DISCOURAGE_UPGRADABLE_NOPS else set_success s)
      else if opcode = OP_IF \<or> opcode = OP_NOTIF then op_if flags sigversion fExec opcode s
      else if opcode = OP_ELSE \<or> opcode = OP_ENDIF then op_else opcode s
      else if opcode = OP_VERIFY then on_stack s (op_verify st)
      else if opcode = OP_RETURN then set_error SCRIPT_ERR_OP_RETURN
      else if opcode = OP_TOALTSTACK \<or> opcode = OP_FROMALTSTACK then op_altstack opcode s
      else if opcode = OP_PICK \<or> opcode = OP_ROLL then on_stack s (op_pick_roll m opcode st)
      else if opcode = OP_EQUAL \<or> opcode = OP_EQUALVERIFY then on_stack s (op_equal opcode st)
      else if opcode \<in> {OP_1ADD, OP_1SUB, OP_NEGATE, OP_ABS, OP_NOT, OP_0NOTEQUAL} then on_stack s (op_unary m opcode st)
      else if opcode \<in> {OP_ADD, OP_SUB, OP_BOOLAND, OP_BOOLOR, OP_NUMEQUAL, OP_NUMEQUALVERIFY, OP_NUMNOTEQUAL, OP_LESSTHAN,
          OP_GREATERTHAN, OP_LESSTHANOREQUAL, OP_GREATERTHANOREQUAL, OP_MIN, OP_MAX} then on_stack s (op_binary m opcode st)
      else if opcode = OP_WITHIN then on_stack s (op_within m st)
      else if opcode \<in> {OP_RIPEMD160, OP_SHA1, OP_SHA256, OP_HASH160, OP_HASH256} then on_stack s (op_digest cr opcode st)
      else if opcode = OP_CODESEPARATOR then set_success (s\<lparr>pbegincodehash := pc\<rparr>)
      else if opcode = OP_CHECKSIG \<or> opcode = OP_CHECKSIGVERIFY
        then on_stack s (op_checksig cr C flags sigversion (pbegincodehash s) opcode st)
      else if opcode = OP_CHECKMULTISIG \<or> opcode = OP_CHECKMULTISIGVERIFY then
        bind_step (op_checkmultisig cr C flags sigversion (pbegincodehash s) opcode (nOpCount s) st)
          (\<lambda>(n, st). set_success (s\<lparr>nOpCount := n, es_stack := st\<rparr>))
      else if opcode = OP_cmusicai_ASSET then set_success s
      else on_stack s (stack_op opcode st))"

definition disabled_opcode :: "opcodetype \<Rightarrow> bool" where
  "disabled_opcode opcode \<longleftrightarrow>
     opcode \<in> {OP_CAT, OP_SUBSTR, OP_LEFT, OP_RIGHT, OP_INVERT, OP_AND, OP_OR, OP_XOR, OP_2MUL, OP_2DIV, OP_MUL, OP_DIV,
       OP_MOD, OP_LSHIFT, OP_RSHIFT}"

text \<open>One instruction, after it was read.\<close>

definition eval_instruction ::
  "crypto \<Rightarrow> checker \<Rightarrow> script_flags \<Rightarrow> SigVersion \<Rightarrow> opcodetype \<Rightarrow> valtype \<Rightarrow> bytes \<Rightarrow> exec_state \<Rightarrow> exec_state step" where
  "eval_instruction cr C flags sigversion opcode vchPushValue pc s =
     (let fExec = list_all (\<lambda>f. f) (vfExec s);
          s = (if opcode > OP_16 then s\<lparr>nOpCount := nOpCount s + 1\<rparr> else s) in
      if length vchPushValue > MAX_SCRIPT_ELEMENT_SIZE then set_error SCRIPT_ERR_PUSH_SIZE
      else if opcode > OP_16 \<and> nOpCount s > MAX_OPS_PER_SCRIPT then set_error SCRIPT_ERR_OP_COUNT
      else if disabled_opcode opcode then set_error SCRIPT_ERR_DISABLED_OPCODE
      else bind_step
        (if fExec \<and> opcode \<le> OP_PUSHDATA4 then
           bind_step (lift_step
             (if flags AND SCRIPT_VERIFY_MINIMALDATA \<noteq> 0 then CheckMinimalPush vchPushValue opcode else Inr True)) (\<lambda>minimal.
             if \<not> minimal then set_error SCRIPT_ERR_MINIMALDATA
             else set_success (s\<lparr>es_stack := vchPushValue # es_stack s\<rparr>))
         else if fExec \<or> (OP_IF \<le> opcode \<and> opcode \<le> OP_ENDIF)
           then eval_op cr C flags sigversion fExec opcode pc s
         else set_success s)
        (\<lambda>s. if length (es_stack s) + length (es_altstack s) > MAX_STACK_SIZE
             then set_error SCRIPT_ERR_STACK_SIZE else set_success s))"

function eval_loop ::
  "crypto \<Rightarrow> checker \<Rightarrow> script_flags \<Rightarrow> SigVersion \<Rightarrow> bytes \<Rightarrow> exec_state \<Rightarrow> exec_state step" where
  "eval_loop cr C flags sigversion pc s =
     (if pc = [] then set_success s
      else let (ok, opcode, vchPushValue, pc) = GetOp2 pc in
        if \<not> ok then set_error SCRIPT_ERR_BAD_OPCODE
        else bind_step (eval_instruction cr C flags sigversion opcode vchPushValue pc s)
          (\<lambda>s. eval_loop cr C flags sigversion pc s))"
  by pat_completeness auto
termination
  by (relation "measure (\<lambda>(cr, C, flags, sv, pc, s). length pc)") (auto dest: GetOp2_decreases_sym)

declare eval_loop.simps [simp del]

text \<open>\<^verbatim>\<open>catch (...)\<close> turns exceptions into an error; a failed assertion is not an exception.\<close>

definition EvalScript ::
  "crypto \<Rightarrow> checker \<Rightarrow> stack \<Rightarrow> CScript \<Rightarrow> script_flags \<Rightarrow> SigVersion \<Rightarrow> stack step" where
  "EvalScript cr C st script flags sigversion =
     (if length script > MAX_SCRIPT_SIZE then set_error SCRIPT_ERR_SCRIPT_SIZE
      else case eval_loop cr C flags sigversion script
          \<lparr>es_stack = st, es_altstack = [], vfExec = [], pbegincodehash = script, nOpCount = 0\<rparr> of
        Inl (Throw e) \<Rightarrow> set_error SCRIPT_ERR_UNKNOWN_ERROR
      | Inl e \<Rightarrow> Inl e
      | Inr (Inl e) \<Rightarrow> set_error e
      | Inr (Inr s) \<Rightarrow> if vfExec s \<noteq> [] then set_error SCRIPT_ERR_UNBALANCED_CONDITIONAL
                       else set_success (es_stack s))"

section \<open>Verifying an input\<close>

definition require_true :: "stack \<Rightarrow> 'a step \<Rightarrow> 'a step" where
  "require_true st k =
     (case st of [] \<Rightarrow> set_error SCRIPT_ERR_EVAL_FALSE
      | v # _ \<Rightarrow> if \<not> CastToBool v then set_error SCRIPT_ERR_EVAL_FALSE else k)"

definition run_witness ::
  "crypto \<Rightarrow> checker \<Rightarrow> script_flags \<Rightarrow> CScript \<Rightarrow> stack \<Rightarrow> unit step" where
  "run_witness cr C flags spk st =
     (if list_ex (\<lambda>v. length v > MAX_SCRIPT_ELEMENT_SIZE) st then set_error SCRIPT_ERR_PUSH_SIZE
      else bind_step (EvalScript cr C st spk flags SIGVERSION_WITNESS_V0) (\<lambda>st.
        if length st \<noteq> 1 then set_error SCRIPT_ERR_EVAL_FALSE
        else require_true st (set_success ())))"

definition VerifyWitnessProgram ::
  "crypto \<Rightarrow> checker \<Rightarrow> bytes list \<Rightarrow> int \<Rightarrow> bytes \<Rightarrow> script_flags \<Rightarrow> unit step" where
  "VerifyWitnessProgram cr C witness witversion program flags =
     (if witversion = 0 then
        (if length program = 32 then
           (if witness = [] then set_error SCRIPT_ERR_WITNESS_PROGRAM_WITNESS_EMPTY
            else if cr_sha256 cr (last witness) \<noteq> program then set_error SCRIPT_ERR_WITNESS_PROGRAM_MISMATCH
            else run_witness cr C flags (last witness) (rev (butlast witness)))
         else if length program = 20 then
           (if length witness \<noteq> 2 then set_error SCRIPT_ERR_WITNESS_PROGRAM_MISMATCH
            else run_witness cr C flags
              (push_opcode (push_opcode (push_data (push_opcode (push_opcode [] OP_DUP) OP_HASH160) program) OP_EQUALVERIFY) OP_CHECKSIG)
              (rev witness))
         else set_error SCRIPT_ERR_WITNESS_PROGRAM_WRONG_LENGTH)
      else if flags AND SCRIPT_VERIFY_DISCOURAGE_UPGRADABLE_WITNESS_PROGRAM \<noteq> 0
        then set_error SCRIPT_ERR_DISCOURAGE_UPGRADABLE_WITNESS_PROGRAM
      else set_success ())"

text \<open>\<^verbatim>\<open>stack.resize(1)\<close> keeps the bottom element.\<close>

definition resize_1 :: "stack \<Rightarrow> stack" where
  "resize_1 st = [if st = [] then [] else last st]"

definition verify_p2sh ::
  "crypto \<Rightarrow> checker \<Rightarrow> script_flags \<Rightarrow> CScript \<Rightarrow> bytes list \<Rightarrow> bool \<Rightarrow> stack \<Rightarrow> (bool \<times> stack) step" where
  "verify_p2sh cr C flags ssig witness hadWitness stackCopy =
     (if \<not> IsPushOnly ssig then set_error SCRIPT_ERR_SIG_PUSHONLY
      else case stackCopy of [] \<Rightarrow> Inl AssertFail
      | pubKey2 # st \<Rightarrow>
          bind_step (EvalScript cr C st pubKey2 flags SIGVERSION_BASE) (\<lambda>st.
          require_true st (
          if flags AND SCRIPT_VERIFY_WITNESS \<noteq> 0 then
            bind_step (lift_step (IsWitnessProgram pubKey2)) (\<lambda>r.
            case r of None \<Rightarrow> set_success (hadWitness, st)
            | Some (witnessversion, witnessprogram) \<Rightarrow>
                if ssig \<noteq> push_data [] pubKey2 then set_error SCRIPT_ERR_WITNESS_MALLEATED_P2SH
                else bind_step (VerifyWitnessProgram cr C witness witnessversion witnessprogram flags)
                  (\<lambda>_. set_success (True, resize_1 st)))
          else set_success (hadWitness, st))))"

definition verify_finish :: "script_flags \<Rightarrow> bytes list \<Rightarrow> bool \<Rightarrow> stack \<Rightarrow> unit step" where
  "verify_finish flags witness hadWitness st =
     bind_step
       (if flags AND SCRIPT_VERIFY_CLEANSTACK \<noteq> 0 then
          (if flags AND SCRIPT_VERIFY_P2SH = 0 then Inl AssertFail
           else if flags AND SCRIPT_VERIFY_WITNESS = 0 then Inl AssertFail
           else if length st \<noteq> 1 then set_error SCRIPT_ERR_CLEANSTACK
           else set_success ())
        else set_success ())
       (\<lambda>_. if flags AND SCRIPT_VERIFY_WITNESS \<noteq> 0 then
              (if flags AND SCRIPT_VERIFY_P2SH = 0 then Inl AssertFail
               else if \<not> hadWitness \<and> witness \<noteq> [] then set_error SCRIPT_ERR_WITNESS_UNEXPECTED
               else set_success ())
            else set_success ())"

definition VerifyScript ::
  "crypto \<Rightarrow> checker \<Rightarrow> CScript \<Rightarrow> CScript \<Rightarrow> bytes list option \<Rightarrow> script_flags \<Rightarrow> unit step" where
  "VerifyScript cr C ssig spk witness flags =
     (let witness = (case witness of None \<Rightarrow> [] | Some w \<Rightarrow> w) in
      if flags AND SCRIPT_VERIFY_SIGPUSHONLY \<noteq> 0 \<and> \<not> IsPushOnly ssig then set_error SCRIPT_ERR_SIG_PUSHONLY
      else bind_step (EvalScript cr C [] ssig flags SIGVERSION_BASE) (\<lambda>stackCopy.
      bind_step (EvalScript cr C stackCopy spk flags SIGVERSION_BASE) (\<lambda>st.
      require_true st (
      bind_step
        (if flags AND SCRIPT_VERIFY_WITNESS \<noteq> 0 then
           bind_step (lift_step (IsWitnessProgram spk)) (\<lambda>r.
           case r of None \<Rightarrow> set_success (False, st)
           | Some (witnessversion, witnessprogram) \<Rightarrow>
               if ssig \<noteq> [] then set_error SCRIPT_ERR_WITNESS_MALLEATED
               else bind_step (VerifyWitnessProgram cr C witness witnessversion witnessprogram flags)
                 (\<lambda>_. set_success (True, resize_1 st)))
         else set_success (False, st))
        (\<lambda>(hadWitness, st).
      bind_step
        (if flags AND SCRIPT_VERIFY_P2SH \<noteq> 0 \<and> IsPayToScriptHash spk
         then verify_p2sh cr C flags ssig witness hadWitness stackCopy
         else set_success (hadWitness, st))
        (\<lambda>(hadWitness, st). verify_finish flags witness hadWitness st))))))"

section \<open>Counting signature operations in witnesses\<close>

definition WitnessSigOps :: "int \<Rightarrow> bytes \<Rightarrow> bytes list \<Rightarrow> int outcome" where
  "WitnessSigOps witversion witprogram witness =
     (if witversion = 0 \<and> length witprogram = 20 then Inr 1
      else if witversion = 0 \<and> length witprogram = 32 \<and> witness \<noteq> [] then GetSigOpCount (last witness) True
      else Inr 0)"

function last_data :: "bytes \<Rightarrow> bytes \<Rightarrow> bytes" where
  "last_data pc d = (if pc = [] then d else let (ok, opcode, d, pc) = GetOp2 pc in last_data pc d)"
  by pat_completeness auto
termination
  by (relation "measure (\<lambda>(pc, d). length pc)") (auto dest: GetOp2_decreases_sym)

declare last_data.simps [simp del]

definition CountWitnessSigOps :: "CScript \<Rightarrow> CScript \<Rightarrow> bytes list option \<Rightarrow> script_flags \<Rightarrow> int outcome" where
  "CountWitnessSigOps ssig spk witness flags =
     (let w = (case witness of None \<Rightarrow> [] | Some w \<Rightarrow> w) in
      if flags AND SCRIPT_VERIFY_WITNESS = 0 then Inr 0
      else assert_out (flags AND SCRIPT_VERIFY_P2SH \<noteq> 0) (
        bind_out (IsWitnessProgram spk) (\<lambda>r. case r of
          Some (witnessversion, witnessprogram) \<Rightarrow> WitnessSigOps witnessversion witnessprogram w
        | None \<Rightarrow>
            if IsPayToScriptHash spk \<and> IsPushOnly ssig then
              bind_out (IsWitnessProgram (last_data ssig [])) (\<lambda>r. case r of
                Some (witnessversion, witnessprogram) \<Rightarrow> WitnessSigOps witnessversion witnessprogram w
              | None \<Rightarrow> Inr 0)
            else Inr 0)))"

section \<open>Well-typed stacks\<close>

text \<open>
  Every element fits the size limit. A step is safe when the only exceptions it throws are those of
  script numbers, so that it never reads, erases or inserts outside a stack, pops an empty one, reads
  outside the bytes of an element or fails an assertion, and when it goes on in a state satisfying \<open>P\<close>.
\<close>

definition stack_typed :: "stack \<Rightarrow> bool" where
  "stack_typed st \<longleftrightarrow> list_all (\<lambda>v. length v \<le> MAX_SCRIPT_ELEMENT_SIZE) st"

definition num_fault :: "fault \<Rightarrow> bool" where
  "num_fault f \<longleftrightarrow> f = Throw ''script number overflow'' \<or> f = Throw ''non-minimally encoded script number''"

definition safe :: "('a \<Rightarrow> bool) \<Rightarrow> 'a step \<Rightarrow> bool" where
  "safe P r \<longleftrightarrow> (case r of Inl f \<Rightarrow> num_fault f | Inr (Inl e) \<Rightarrow> True | Inr (Inr x) \<Rightarrow> P x)"

lemma safe_simps [simp]:
  "safe P (set_error e)" "safe P (set_success x) \<longleftrightarrow> P x" "safe P (Inl f) \<longleftrightarrow> num_fault f"
  by (simp_all add: safe_def set_error_def set_success_def)

lemma safe_if: "(c \<Longrightarrow> safe P a) \<Longrightarrow> (\<not> c \<Longrightarrow> safe P b) \<Longrightarrow> safe P (if c then a else b)"
  by simp

lemma safe_bind:
  "safe Q m \<Longrightarrow> (\<And>x. Q x \<Longrightarrow> safe P (f x)) \<Longrightarrow> safe P (bind_step m f)"
  by (auto simp: safe_def bind_step_def split: sum.splits) force+

lemma safe_need [simp]: "safe P (need n st e k) \<longleftrightarrow> (n \<le> length st \<longrightarrow> safe P k)"
  by (auto simp: need_def)

lemma bind_simps [simp]:
  "bind_step (set_success x) f = f x" "bind_step (set_error e) f = set_error e" "bind_step (Inl g) f = Inl g"
  by (simp_all add: bind_step_def set_success_def set_error_def)

lemma bind_stacktop [simp]: "0 < i \<Longrightarrow> i \<le> length st \<Longrightarrow> bind_step (stacktop st i) f = f (st ! (i - 1))"
  by (simp add: stacktop_def)

lemma popstack_Cons [simp]: "popstack (v # st) = set_success st"
  by (simp add: popstack_def)

lemma popstack_tl: "st \<noteq> [] \<Longrightarrow> popstack st = set_success (tl st)"
  by (cases st) simp_all

lemma stack_erase_in [simp]: "j \<le> i \<Longrightarrow> i \<le> length st \<Longrightarrow> stack_erase st i j = set_success (take j st @ drop i st)"
  by (simp add: stack_erase_def)

lemma stack_insert_in [simp]: "i \<le> length st \<Longrightarrow> stack_insert st i v = set_success (take i st @ v # drop i st)"
  by (simp add: stack_insert_def)

lemma pop_back_tl [simp]: "st \<noteq> [] \<Longrightarrow> pop_back st = set_success (tl st)"
  by (cases st) (simp_all add: pop_back_def)

lemma lift_Inr [simp]: "lift_step (Inr x) = set_success x"
  by (simp add: lift_step_def set_success_def)

lemma swap_top_eq:
  "0 < i \<Longrightarrow> i \<le> length st \<Longrightarrow> 0 < j \<Longrightarrow> j \<le> length st \<Longrightarrow>
    swap_top st i j = set_success (st[i - 1 := st ! (j - 1), j - 1 := st ! (i - 1)])"
  by (simp add: swap_top_def)

lemma stack_typed_simps [simp]:
  "stack_typed []" "stack_typed (v # st) \<longleftrightarrow> length v \<le> MAX_SCRIPT_ELEMENT_SIZE \<and> stack_typed st"
  "stack_typed (st @ st') \<longleftrightarrow> stack_typed st \<and> stack_typed st'"
  by (simp_all add: stack_typed_def)

lemma stack_typed_nth: "stack_typed st \<Longrightarrow> i < length st \<Longrightarrow> length (st ! i) \<le> MAX_SCRIPT_ELEMENT_SIZE"
  by (simp add: stack_typed_def list_all_length)

lemma stack_typed_parts:
  assumes "stack_typed st"
  shows "stack_typed (take n st)" "stack_typed (drop n st)" "stack_typed (tl st)"
    "length v \<le> MAX_SCRIPT_ELEMENT_SIZE \<Longrightarrow> stack_typed (st[i := v])"
proof -
  show "stack_typed (take n st)" "stack_typed (drop n st)"
    using assms set_take_subset [of n st] set_drop_subset [of n st] by (auto simp: stack_typed_def list_all_iff)
  show "stack_typed (tl st)" using assms by (cases st) simp_all
  show "stack_typed (st[i := v])" if "length v \<le> MAX_SCRIPT_ELEMENT_SIZE"
    using assms that set_update_subset_insert [of st i v] by (auto simp: stack_typed_def list_all_iff)
qed



lemma serialize_short: "length (scriptnum_serialize v) \<le> 9"
  using length_abs_bytes [of "word_of_int v"] length_abs_bytes [of "word_of_int (- v)"]
  by (auto simp: scriptnum_serialize_def Let_def)

lemma small_elements [simp]:
  "length (scriptnum_serialize v) \<le> MAX_SCRIPT_ELEMENT_SIZE" "length (bool_vch b) \<le> MAX_SCRIPT_ELEMENT_SIZE"
  using serialize_short [of v] by (auto simp: MAX_SCRIPT_ELEMENT_SIZE_def bool_vch_def vchTrue_def vchFalse_def)

lemma safe_script_num: "0 < k \<Longrightarrow> k \<le> 8 \<Longrightarrow> safe (\<lambda>v. \<bar>v\<bar> < 2 ^ (8 * k - 1)) (script_num vch m k)"
  using set_vch_bound [of vch k]
  by (auto simp: script_num_def CScriptNum_cases lift_step_def safe_def num_fault_def)

lemmas typed_intros = stack_typed_nth stack_typed_parts

lemma safe_stack_op: "stack_typed st \<Longrightarrow> safe stack_typed (stack_op opcode st)"
  unfolding stack_op_def
  by (intro safe_if) (auto simp: eval_nat_numeral Suc_le_length_iff swap_top_eq typed_intros)

lemma safe_pick_roll: "stack_typed st \<Longrightarrow> safe stack_typed (op_pick_roll m opcode st)"
  by (auto simp: op_pick_roll_def eval_nat_numeral Suc_le_length_iff nDefaultMaxNumSize_def Let_def typed_intros
      intro!: safe_bind [OF safe_script_num])

lemma safe_equal: "stack_typed st \<Longrightarrow> safe stack_typed (op_equal opcode st)"
  by (auto simp: op_equal_def eval_nat_numeral Suc_le_length_iff Let_def)

lemma safe_unary_num:
  assumes "\<bar>bn\<bar> < 2 ^ 31" "opcode \<in> {OP_1ADD, OP_1SUB, OP_NEGATE, OP_ABS, OP_NOT, OP_0NOTEQUAL}"
  shows "safe (\<lambda>_. True) (lift_step (unary_num opcode bn))"
  using assms
  by (auto simp: unary_num_def scriptnum_add_assign_def scriptnum_sub_assign_def scriptnum_neg_def assert_out_def lift_step_def
      safe_def int64_max_def int64_min_def)

lemma safe_unary:
  assumes "stack_typed st" "opcode \<in> {OP_1ADD, OP_1SUB, OP_NEGATE, OP_ABS, OP_NOT, OP_0NOTEQUAL}"
  shows "safe stack_typed (op_unary m opcode st)"
  unfolding op_unary_def safe_need nDefaultMaxNumSize_def
  by (intro impI, clarsimp simp: Suc_le_length_iff)
    (intro safe_bind [OF safe_script_num] safe_bind [OF safe_unary_num], use assms in auto)

lemma safe_binary_num:
  assumes "opcode \<in> {OP_ADD, OP_SUB, OP_BOOLAND, OP_BOOLOR, OP_NUMEQUAL, OP_NUMEQUALVERIFY, OP_NUMNOTEQUAL, OP_LESSTHAN,
    OP_GREATERTHAN, OP_LESSTHANOREQUAL, OP_GREATERTHANOREQUAL, OP_MIN, OP_MAX}"
  shows "safe (\<lambda>_. True) (lift_step (binary_num opcode bn1 bn2))"
  using assms by (auto simp: binary_num_def lift_step_def safe_def)

lemma safe_num_bind:
  "(\<And>v. \<bar>v\<bar> < 2 ^ 31 \<Longrightarrow> safe P (f v)) \<Longrightarrow> safe P (bind_step (script_num vch m nDefaultMaxNumSize) f)"
  using safe_script_num [of 4 vch m] by (auto simp: nDefaultMaxNumSize_def intro: safe_bind)

lemma stacktop_simps [simp]:
  "stacktop (v # st) (Suc 0) = set_success v" "stacktop (v # st) (Suc (Suc i)) = stacktop st (Suc i)"
  by (auto simp: stacktop_def)

lemma safe_binary:
  assumes "stack_typed st" "opcode \<in> {OP_ADD, OP_SUB, OP_BOOLAND, OP_BOOLOR, OP_NUMEQUAL, OP_NUMEQUALVERIFY, OP_NUMNOTEQUAL,
    OP_LESSTHAN, OP_GREATERTHAN, OP_LESSTHANOREQUAL, OP_GREATERTHANOREQUAL, OP_MIN, OP_MAX}"
  shows "safe stack_typed (op_binary m opcode st)"
proof -
  have "safe stack_typed (op_binary m opcode (v2 # v1 # st'))" if "stack_typed st'" for v2 v1 st'
    using that by (auto simp: op_binary_def eval_nat_numeral Let_def
        intro!: safe_num_bind safe_bind [OF safe_binary_num [OF assms(2)]])
  then show ?thesis
    using assms(1) by (cases st; cases "tl st") (auto simp: op_binary_def)
qed

lemma safe_within: "stack_typed st \<Longrightarrow> safe stack_typed (op_within m st)"
  by (auto simp: op_within_def eval_nat_numeral Suc_le_length_iff intro!: safe_num_bind)

text \<open>What the parameters are documented to do: digests have their length, a checker returns.\<close>

definition digests_ok :: "crypto \<Rightarrow> bool" where
  "digests_ok cr \<longleftrightarrow> (\<forall>x. length (cr_ripemd160 cr x) = 20 \<and> length (cr_sha1 cr x) = 20 \<and> length (cr_sha256 cr x) = 32)"

definition checker_returns :: "checker \<Rightarrow> bool" where
  "checker_returns C \<longleftrightarrow>
     (\<forall>sig pk code sv. \<exists>b. c_CheckSig C sig pk code sv = Inr b) \<and>
     (\<forall>t. \<exists>b. c_CheckLockTime C t = Inr b) \<and> (\<forall>t. \<exists>b. c_CheckSequence C t = Inr b)"

lemma safe_lift: "\<exists>b. m = Inr b \<Longrightarrow> safe (\<lambda>_. True) (lift_step m)"
  by (auto simp: safe_def lift_step_def)

lemma safe_checker:
  assumes "checker_returns C"
  shows "safe (\<lambda>_. True) (lift_step (c_CheckSig C sig pk code sv))" "safe (\<lambda>_. True) (lift_step (c_CheckLockTime C t))"
    "safe (\<lambda>_. True) (lift_step (c_CheckSequence C t))"
  using assms by (simp_all add: checker_returns_def safe_lift)

text \<open>The checks of encodings return: every byte they read is there.\<close>

definition returns :: "'a outcome \<Rightarrow> bool" where
  "returns m \<longleftrightarrow> (\<exists>b. m = Inr b)"

lemma returns_Inr [simp]: "returns (Inr b)"
  by (simp add: returns_def)

lemma returns_intros:
  "(c \<Longrightarrow> returns a) \<Longrightarrow> (\<not> c \<Longrightarrow> returns b) \<Longrightarrow> returns (if c then a else b)"
  "i < length v \<Longrightarrow> returns (f (v ! i)) \<Longrightarrow> returns (bind_out (vector_at v i) f)"
  "0 < k \<Longrightarrow> k \<le> length v \<Longrightarrow> (\<And>x. returns (f x)) \<Longrightarrow> returns (bind_out (vector_at_end v k) f)"
  "i < length v \<Longrightarrow> returns (test_at v i p)"
  "(x \<Longrightarrow> returns m) \<Longrightarrow> returns (and_out (Inr x) m)"
  "i < length v \<Longrightarrow> returns m \<Longrightarrow> returns (and_out (test_at v i p) m)"
  "returns r \<Longrightarrow> returns r' \<Longrightarrow> returns (refuse_if r r')"
  "returns q \<Longrightarrow> (\<And>e. q = Inr e \<Longrightarrow> returns (g e)) \<Longrightarrow> returns (bind_out q g)"
  "(c \<Longrightarrow> returns ck) \<Longrightarrow> returns ck' \<Longrightarrow> returns (check_if c ck ck')"
  "returns r \<Longrightarrow> returns (error_unless r e)"
  by (auto simp: returns_def refuse_if_def check_if_def error_unless_def)

lemma returns_IsValidSignatureEncoding: "returns (IsValidSignatureEncoding sig)"
  unfolding IsValidSignatureEncoding_def Let_def by (intro returns_intros returns_Inr) auto

lemma returns_CheckSignatureEncoding: "returns (CheckSignatureEncoding cr sig flags)"
proof (cases "sig = []")
  case False
  have "returns (IsLowDERSignature cr sig)"
    unfolding IsLowDERSignature_def using False
    by (intro returns_intros returns_Inr returns_IsValidSignatureEncoding) simp_all
  moreover have "returns (IsDefinedHashtypeSignature sig)"
    unfolding IsDefinedHashtypeSignature_def Let_def using False
    by (intro returns_intros returns_Inr) (simp_all add: Suc_le_eq)
  ultimately show ?thesis
    unfolding CheckSignatureEncoding_def by (intro returns_intros returns_Inr returns_IsValidSignatureEncoding)
qed (simp add: CheckSignatureEncoding_def)

lemma returns_CheckPubKeyEncoding: "returns (CheckPubKeyEncoding pk flags sv)"
  unfolding CheckPubKeyEncoding_def IsCompressedOrUncompressedPubKey_def IsCompressedPubKey_def
  by (intro returns_intros returns_Inr) auto

lemma returns_CheckMinimalPush: "returns (CheckMinimalPush v opcode)"
  by (cases v) (auto simp: CheckMinimalPush_def intro!: returns_intros)

lemma check_encodings_cases:
  obtains e where "check_encodings cr sig pk flags sv = set_error e" | "check_encodings cr sig pk flags sv = set_success ()"
proof -
  obtain se pe where "CheckSignatureEncoding cr sig flags = Inr se" "CheckPubKeyEncoding pk flags sv = Inr pe"
    using returns_CheckSignatureEncoding returns_CheckPubKeyEncoding unfolding returns_def by blast
  then show thesis using that by (cases se; cases pe) (simp_all add: check_encodings_def)
qed

lemma safe_encodings: "safe (\<lambda>_. True) (check_encodings cr sig pk flags sv)"
  by (cases rule: check_encodings_cases [of cr sig pk flags sv]) simp_all

lemma safe_hash: "digests_ok cr \<Longrightarrow> stack_typed st \<Longrightarrow> safe stack_typed (op_digest cr opcode st)"
  by (auto simp: op_digest_def Suc_le_length_iff script_hash_def digests_ok_def MAX_SCRIPT_ELEMENT_SIZE_def)

lemma safe_checksig:
  assumes "checker_returns C" "stack_typed st"
  shows "safe stack_typed (op_checksig cr C flags sv code opcode st)"
  using assms(2)
  by (auto simp: op_checksig_def eval_nat_numeral Suc_le_length_iff Let_def
      intro!: safe_bind [OF safe_encodings] safe_bind [OF safe_checker(1) [OF assms(1)]])

lemma safe_drop_sigs: "0 < isig \<Longrightarrow> isig + n \<le> length st + 1 \<Longrightarrow> safe (\<lambda>_. True) (drop_sigs sv st isig n code)"
  by (induction n arbitrary: isig code) simp_all

lemma safe_check_sigs:
  assumes "checker_returns C" "0 < isig" "0 < ikey" "nSigs \<le> nKeys" "int isig + nSigs \<le> int (length st) + 1"
    "int ikey + nKeys \<le> int (length st) + 1"
  shows "safe (\<lambda>_. True) (check_sigs cr C flags sv code st isig ikey nSigs nKeys)"
  using assms(2-)
proof (induction "nat nKeys" arbitrary: isig ikey nSigs nKeys rule: less_induct)
  case less
  show ?case
  proof (cases "nSigs > 0")
    case True
    then have i: "isig \<le> length st" "ikey \<le> length st" using less.prems by linarith+
    have rec: "safe (\<lambda>_. True) (check_sigs cr C flags sv code st (if fOk then isig + 1 else isig) (ikey + 1)
        (if fOk then nSigs - 1 else nSigs) (nKeys - 1))"
      if "\<not> (if fOk then nSigs - 1 else nSigs) > nKeys - 1" for fOk
      using that less.prems True by (intro less.hyps) auto
    show ?thesis
      using True i less.prems(1,2) rec
      by (subst check_sigs.simps)
        (auto intro!: safe_bind [OF safe_encodings] safe_bind [OF safe_checker(1) [OF assms(1)]] safe_if simp del: if_split)
  qed (simp add: check_sigs.simps)
qed

lemma safe_clean_args: "n \<le> length st \<Longrightarrow> safe (\<lambda>st'. st' = drop n st) (clean_args fSuccess flags ikey2 n st)"
proof (induction n arbitrary: ikey2 st)
  case (Suc n)
  then obtain v st' where "st = v # st'" by (auto simp: Suc_le_length_iff)
  then show ?case using Suc by (auto simp: set_success_def [symmetric])
qed simp

lemma safe_multisig_result:
  assumes "stack_typed st" "n \<le> MAX_OPS_PER_SCRIPT"
  shows "safe (\<lambda>(n, st'). stack_typed st' \<and> n \<le> MAX_OPS_PER_SCRIPT)
    (need (Suc 0) st stack_err
      (bind_step (if nulldummy then stacktop st 1 else set_success []) (\<lambda>v.
        if v \<noteq> [] then set_error SCRIPT_ERR_SIG_NULLDUMMY
        else bind_step (popstack st) (\<lambda>st.
          if verify then if r then bind_step (popstack (bool_vch r # st)) (\<lambda>st. set_success (n, st)) else set_error e
          else set_success (n, bool_vch r # st)))))"
  using assms by (cases st) auto

lemma safe_checkmultisig:
  assumes "checker_returns C" "stack_typed st"
  shows "safe (\<lambda>(n, st'). stack_typed st' \<and> n \<le> MAX_OPS_PER_SCRIPT) (op_checkmultisig cr C flags sv code opcode nOp st)"
  unfolding op_checkmultisig_def Let_def
  using assms(2)
  apply (simp split del: if_split del: clean_args.simps)
  apply (intro impI safe_num_bind safe_if; (simp split del: if_split del: clean_args.simps)?)
  apply (intro impI safe_num_bind safe_if; (simp split del: if_split del: clean_args.simps)?)
  apply (intro impI safe_bind [OF safe_drop_sigs] safe_bind [OF safe_check_sigs [OF assms(1)]] safe_bind [OF safe_clean_args])
  apply (auto simp: typed_intros Suc_le_length_iff)[8]
  by (rule safe_multisig_result) (auto simp: typed_intros)

lemma safe_locktime: "checker_returns C \<Longrightarrow> safe (\<lambda>_. True) (op_locktime C flags st)"
  by (auto simp: op_locktime_def intro!: safe_bind [OF safe_script_num] safe_bind [OF safe_checker(2)])

lemma safe_sequence: "checker_returns C \<Longrightarrow> safe (\<lambda>_. True) (op_sequence C flags st)"
  by (auto simp: op_sequence_def intro!: safe_bind [OF safe_script_num] safe_bind [OF safe_checker(3)])

lemma safe_verify: "stack_typed st \<Longrightarrow> safe stack_typed (op_verify st)"
  by (auto simp: op_verify_def Suc_le_length_iff)

text \<open>The state of an evaluation: both stacks typed, the operation count within its limit.\<close>

definition exec_typed :: "exec_state \<Rightarrow> bool" where
  "exec_typed s \<longleftrightarrow> stack_typed (es_stack s) \<and> stack_typed (es_altstack s) \<and> nOpCount s \<le> MAX_OPS_PER_SCRIPT"

lemma safe_on_stack:
  "safe stack_typed r \<Longrightarrow> exec_typed s \<Longrightarrow> safe exec_typed (on_stack s r)"
  unfolding on_stack_def by (erule safe_bind) (simp add: exec_typed_def)

lemma safe_if_op: "exec_typed s \<Longrightarrow> safe exec_typed (op_if flags sv fExec opcode s)"
  by (auto simp: op_if_def Let_def exec_typed_def Suc_le_length_iff)

lemma safe_else: "exec_typed s \<Longrightarrow> safe exec_typed (op_else opcode s)"
  by (auto simp: op_else_def exec_typed_def)

lemma safe_altstack: "exec_typed s \<Longrightarrow> safe exec_typed (op_altstack opcode s)"
  by (auto simp: op_altstack_def exec_typed_def Suc_le_length_iff)

lemma safe_eval_op:
  assumes "digests_ok cr" "checker_returns C" "exec_typed s"
  shows "safe exec_typed (eval_op cr C flags sv fExec opcode pc s)"
proof -
  have st: "stack_typed (es_stack s)" using assms(3) by (simp add: exec_typed_def)
  have multi: "safe exec_typed (bind_step (op_checkmultisig cr C flags sv code opcode n (es_stack s))
      (\<lambda>(n, st). set_success (s\<lparr>nOpCount := n, es_stack := st\<rparr>)))" for code n
    by (rule safe_bind [OF safe_checkmultisig [OF assms(2) st]]) (use assms(3) in \<open>auto simp: exec_typed_def\<close>)
  show ?thesis
    unfolding eval_op_def Let_def
    by (intro safe_if safe_on_stack safe_if_op safe_else safe_altstack safe_verify safe_pick_roll safe_equal safe_unary
        safe_binary safe_within safe_hash safe_checksig safe_stack_op multi assms st
        safe_bind [OF safe_locktime] safe_bind [OF safe_sequence])
      (use assms(3) in \<open>simp_all add: exec_typed_def\<close>)
qed

definition fits :: "exec_state \<Rightarrow> bool" where
  "fits s \<longleftrightarrow> exec_typed s \<and> length (es_stack s) + length (es_altstack s) \<le> MAX_STACK_SIZE"

lemma safe_instruction:
  assumes "digests_ok cr" "checker_returns C" "exec_typed s"
  shows "safe fits (eval_instruction cr C flags sv opcode v pc s)"
proof -
  have limit: "safe fits (if length (es_stack s) + length (es_altstack s) > MAX_STACK_SIZE
      then set_error SCRIPT_ERR_STACK_SIZE else set_success s)" if "exec_typed s" for s
    using that by (simp add: fits_def)
  obtain b where m: "CheckMinimalPush v opcode = Inr b"
    using returns_CheckMinimalPush unfolding returns_def by blast
  show ?thesis
    unfolding eval_instruction_def Let_def
    by (intro safe_if, simp, simp, simp, rule safe_bind [where Q = exec_typed], intro safe_if safe_eval_op assms)
      (use assms(3) limit m in \<open>auto simp: exec_typed_def split: if_splits\<close>)
qed

lemma safe_loop:
  assumes "digests_ok cr" "checker_returns C" "fits s"
  shows "safe fits (eval_loop cr C flags sv pc s)"
  using assms(3)
proof (induction "length pc" arbitrary: pc s rule: less_induct)
  case less
  show ?case
  proof (cases "pc = []")
    case False
    obtain r opcode v pc' where g: "GetOp2 pc = (r, opcode, v, pc')" by (metis prod_cases4)
    have "safe fits (eval_loop cr C flags sv pc' s')" if "fits s'" for s'
      using less.hyps [OF GetOp2_decreases [OF g False] that] .
    then have "safe fits (bind_step (eval_instruction cr C flags sv opcode v pc' s) (eval_loop cr C flags sv pc'))"
      using safe_instruction [OF assms(1,2)] less.prems by (intro safe_bind [where Q = fits]) (auto simp: fits_def)
    then show ?thesis using False g by (subst eval_loop.simps) simp
  qed (use less.prems in \<open>simp add: eval_loop.simps\<close>)
qed


definition demo_crypto :: crypto where
  "demo_crypto = \<lparr>cr_ripemd160 = (\<lambda>_. replicate 20 1), cr_sha1 = (\<lambda>_. replicate 20 2), cr_sha256 = (\<lambda>_. replicate 32 3),
     cr_CheckLowS = (\<lambda>_. True)\<rparr>"

definition demo_checker :: checker where
  "demo_checker = \<lparr>c_CheckSig = (\<lambda>sig _ _ _. Inr (sig \<noteq> [])), c_CheckLockTime = (\<lambda>_. Inr True), c_CheckSequence = (\<lambda>_. Inr False)\<rparr>"


section \<open>Pay to public key hash\<close>

definition p2pkh_script :: "bytes \<Rightarrow> CScript" where
  "p2pkh_script h = [OP_DUP, OP_HASH160, 20] @ h @ [OP_EQUALVERIFY, OP_CHECKSIG]"

lemma GetOp2_direct: "length d \<le> 75 \<Longrightarrow> GetOp2 (of_nat (length d) # d @ rest) = (True, of_nat (length d), d, rest)"
proof -
  assume l: "length d \<le> 75"
  have u: "unat (of_nat (length d) :: u8) = length d" using l by (simp add: unat_of_nat_small)
  then have "(of_nat (length d) :: u8) < OP_PUSHDATA1" "(of_nat (length d) :: u8) \<le> OP_PUSHDATA4"
    using l by (simp_all add: word_less_nat_alt word_le_nat_alt)
  then show ?thesis using u by (simp add: GetOp2_def read_operand_def)
qed

lemma GetOp2_opcode: "OP_PUSHDATA4 < opcode \<Longrightarrow> opcode \<noteq> OP_cmusicai_ASSET \<Longrightarrow> GetOp2 (opcode # rest) = (True, opcode, [], rest)"
  by (simp add: GetOp2_def linorder_not_le [symmetric])

lemma eval_push:
  assumes "2 \<le> length d" "length d \<le> 75" "vfExec s = []" "length (es_stack s) + length (es_altstack s) < MAX_STACK_SIZE"
  shows "eval_loop cr C flags sv (of_nat (length d) # d @ rest) s = eval_loop cr C flags sv rest (s\<lparr>es_stack := d # es_stack s\<rparr>)"
proof -
  have u: "unat (of_nat (length d) :: u8) = length d" using assms(2) by (simp add: unat_of_nat_small)
  then have o: "(of_nat (length d) :: u8) \<le> OP_PUSHDATA4" "\<not> OP_16 < (of_nat (length d) :: u8)"
    using assms(2) by (simp_all add: word_less_nat_alt word_le_nat_alt)
  have m: "CheckMinimalPush d (of_nat (length d)) = Inr True"
    using assms(1,2) u by (auto simp: CheckMinimalPush_def)
  have "\<not> disabled_opcode (of_nat (length d))"
    using o(2) by (auto simp: disabled_opcode_def)
  then show ?thesis
    using assms o m
    by (subst eval_loop.simps)
      (simp add: GetOp2_direct eval_instruction_def Let_def MAX_SCRIPT_ELEMENT_SIZE_def)
qed

lemma skip_no_match: "pc = [] \<or> hd pc \<noteq> x \<Longrightarrow> skip_matches (x # d) pc = (0, pc)"
  by (cases pc) (auto simp: skip_matches.simps)

lemma FindAndDelete_p2pkh:
  assumes "length h = 20" "20 < length sig" "length sig \<le> 75"
  shows "FindAndDelete (p2pkh_script h) (push_data [] sig) = (0, p2pkh_script h)"
proof -
  define x :: u8 where "x = of_nat (length sig)"
  have "unat x = length sig" using assms(3) by (simp add: x_def unat_of_nat_small)
  then have x: "x \<noteq> OP_DUP" "x \<noteq> OP_HASH160" "x \<noteq> 20" "x \<noteq> OP_EQUALVERIFY" "x \<noteq> OP_CHECKSIG"
    using assms(2,3) by auto
  have g: "GetOp2 (20 # h @ rest) = (True, 20, h, rest)" for rest
    using GetOp2_direct [of h rest] assms(1) by simp
  have p: "push_data [] sig = x # sig" using assms(3) by (simp add: push_data_def x_def)
  show ?thesis
    unfolding p FindAndDelete_def p2pkh_script_def
    using x by (simp add: find_and_delete.simps skip_no_match GetOp2_opcode g Let_def GetOp2_def [of "[]"])
qed

lemma eval_op_step:
  assumes "OP_16 < opcode" "opcode \<noteq> OP_cmusicai_ASSET" "\<not> disabled_opcode opcode" "vfExec s = []"
    "nOpCount s < MAX_OPS_PER_SCRIPT"
  shows "eval_loop cr C flags sv (opcode # rest) s =
    bind_step (eval_op cr C flags sv True opcode rest (s\<lparr>nOpCount := nOpCount s + 1\<rparr>))
      (\<lambda>s. if length (es_stack s) + length (es_altstack s) > MAX_STACK_SIZE then set_error SCRIPT_ERR_STACK_SIZE
           else eval_loop cr C flags sv rest s)"
proof -
  have "OP_PUSHDATA4 < opcode" using assms(1) by (rule less_trans [rotated]) simp
  then have "GetOp2 (opcode # rest) = (True, opcode, [], rest)" "\<not> opcode \<le> OP_PUSHDATA4"
    using assms(2) by (simp_all add: GetOp2_opcode)
  moreover have "bind_step (bind_step m f) g = bind_step m (\<lambda>x. bind_step (f x) g)" for m :: "exec_state step" and f and g :: "exec_state \<Rightarrow> exec_state step"
    by (simp add: bind_step_def split: sum.splits)
  ultimately show ?thesis
    using assms by (subst eval_loop.simps) (simp add: eval_instruction_def Let_def if_distrib [of "\<lambda>m. bind_step m _"] cong: if_cong)
qed

lemma eval_p2pkh_ops:
  assumes "es_stack s = v # w # st"
  shows "eval_op cr C flags sv f OP_DUP pc s = set_success (s\<lparr>es_stack := v # v # w # st\<rparr>)"
    "eval_op cr C flags sv f OP_HASH160 pc s = set_success (s\<lparr>es_stack := cr_ripemd160 cr (cr_sha256 cr v) # w # st\<rparr>)"
    "eval_op cr C flags sv f OP_EQUALVERIFY pc s =
      (if v = w then set_success (s\<lparr>es_stack := st\<rparr>) else set_error SCRIPT_ERR_EQUALVERIFY)"
    "eval_op cr C flags sv f OP_CHECKSIG pc s = on_stack s (op_checksig cr C flags sv (pbegincodehash s) OP_CHECKSIG (v # w # st))"
  using assms
  by (auto simp: eval_op_def Let_def on_stack_def stack_op_def op_digest_def script_hash_def op_equal_def need_def)

lemma EvalScript_two_pushes:
  assumes "2 \<le> length a" "length a \<le> 75" "2 \<le> length b" "length b \<le> 75"
  shows "EvalScript cr C [] (push_data (push_data [] a) b) flags sv = set_success [b, a]"
proof -
  have p: "push_data (push_data [] a) b = of_nat (length a) # a @ of_nat (length b) # b @ []"
    using assms by (simp add: push_data_def)
  have l: "length (push_data (push_data [] a) b) \<le> MAX_SCRIPT_SIZE"
    using assms by (simp add: p MAX_SCRIPT_SIZE_def)
  show ?thesis
    using assms l unfolding EvalScript_def p
    by (simp add: eval_push MAX_STACK_SIZE_def del: append_Nil2) (simp add: eval_loop.simps set_success_def)
qed

lemma EvalScript_p2pkh:
  assumes "length h = 20" "20 < length sig" "length sig \<le> 75"
    and "c_CheckSig C sig pk (p2pkh_script h) SIGVERSION_BASE = Inr r"
  shows "EvalScript cr C [pk, sig] (p2pkh_script h) flags SIGVERSION_BASE =
    (if cr_ripemd160 cr (cr_sha256 cr pk) \<noteq> h then set_error SCRIPT_ERR_EQUALVERIFY
     else bind_step (check_encodings cr sig pk flags SIGVERSION_BASE) (\<lambda>_.
       if \<not> r \<and> flags AND SCRIPT_VERIFY_NULLFAIL \<noteq> 0 then set_error SCRIPT_ERR_SIG_NULLFAIL
       else set_success [bool_vch r]))"
proof -
  have l: "length (p2pkh_script h) \<le> MAX_SCRIPT_SIZE" using assms(1) by (simp add: p2pkh_script_def MAX_SCRIPT_SIZE_def)
  have s: "sig \<noteq> []" using assms(2) by auto
  have push: "eval_loop cr C flags sv (20 # h @ rest) s = eval_loop cr C flags sv rest (s\<lparr>es_stack := h # es_stack s\<rparr>)"
    if "vfExec s = []" "length (es_stack s) + length (es_altstack s) < MAX_STACK_SIZE" for sv rest s
    using eval_push [OF _ _ that, of h cr C flags sv rest] assms(1) by simp
  note steps = eval_op_step eval_p2pkh_ops push disabled_opcode_def MAX_OPS_PER_SCRIPT_def MAX_STACK_SIZE_def
  have checksig: "op_checksig cr C flags SIGVERSION_BASE (p2pkh_script h) OP_CHECKSIG [pk, sig] =
      bind_step (check_encodings cr sig pk flags SIGVERSION_BASE) (\<lambda>_.
        if \<not> r \<and> flags AND SCRIPT_VERIFY_NULLFAIL \<noteq> 0 then set_error SCRIPT_ERR_SIG_NULLFAIL else set_success [bool_vch r])"
    using s FindAndDelete_p2pkh [OF assms(1-3)] assms(4)
    by (simp add: op_checksig_def need_def Let_def lift_step_def set_success_def [symmetric])
  have loop: "eval_loop cr C flags SIGVERSION_BASE (p2pkh_script h)
      \<lparr>es_stack = [pk, sig], es_altstack = [], vfExec = [], pbegincodehash = code, nOpCount = 0\<rparr> =
    (if cr_ripemd160 cr (cr_sha256 cr pk) \<noteq> h then set_error SCRIPT_ERR_EQUALVERIFY
     else bind_step (on_stack \<lparr>es_stack = [pk, sig], es_altstack = [], vfExec = [], pbegincodehash = code, nOpCount = 4\<rparr>
         (op_checksig cr C flags SIGVERSION_BASE code OP_CHECKSIG [pk, sig]))
       (\<lambda>s. if 1000 < length (es_stack s) + length (es_altstack s) then set_error SCRIPT_ERR_STACK_SIZE
            else eval_loop cr C flags SIGVERSION_BASE [] s))" for code
    by (simp add: p2pkh_script_def steps)
  have enc: "(\<exists>e. check_encodings cr sig pk flags SIGVERSION_BASE = set_error e) \<or>
      check_encodings cr sig pk flags SIGVERSION_BASE = set_success ()"
    by (cases rule: check_encodings_cases [of cr sig pk flags SIGVERSION_BASE]) blast+
  show ?thesis
    using l enc unfolding EvalScript_def loop checksig
    by (auto simp: on_stack_def eval_loop.simps [of _ _ _ _ "[]"] bind_step_def set_error_def set_success_def)
qed

text \<open>
  C9. Spending a pay-to-public-key-hash output. For a script signature that pushes a signature and a
  key of the usual lengths, any flags under which the flag assertions hold and no witness, the checks
  of both encodings return and \<^verbatim>\<open>VerifyScript\<close> accepts exactly when the key hashes to the 20 bytes of the output script, the
  encodings pass the checks of the flags and the checker accepts the signature over the output script
  itself; the error is otherwise that of the first condition that fails.
\<close>

theorem VerifyScript_p2pkh:
  assumes "length h = 20" "20 < length sig" "length sig \<le> 75" "2 \<le> length pk" "length pk \<le> 75"
    and "flags AND SCRIPT_VERIFY_CLEANSTACK \<noteq> 0 \<longrightarrow> flags AND SCRIPT_VERIFY_WITNESS \<noteq> 0"
    and "flags AND SCRIPT_VERIFY_WITNESS \<noteq> 0 \<longrightarrow> flags AND SCRIPT_VERIFY_P2SH \<noteq> 0"
    and "c_CheckSig C sig pk (p2pkh_script h) SIGVERSION_BASE = Inr r"
  shows "\<exists>se pe. CheckSignatureEncoding cr sig flags = Inr se \<and> CheckPubKeyEncoding pk flags SIGVERSION_BASE = Inr pe \<and>
    VerifyScript cr C (push_data (push_data [] sig) pk) (p2pkh_script h) None flags =
    (if cr_ripemd160 cr (cr_sha256 cr pk) \<noteq> h then set_error SCRIPT_ERR_EQUALVERIFY
     else case se of Some e \<Rightarrow> set_error e
     | None \<Rightarrow> (case pe of Some e \<Rightarrow> set_error e
       | None \<Rightarrow> if r then set_success ()
                 else if flags AND SCRIPT_VERIFY_NULLFAIL \<noteq> 0 then set_error SCRIPT_ERR_SIG_NULLFAIL
                 else set_error SCRIPT_ERR_EVAL_FALSE))"
proof -
  have w: "IsWitnessProgram (p2pkh_script h) = Inr None" "\<not> IsPayToScriptHash (p2pkh_script h)"
    using assms(1) by (simp_all add: IsWitnessProgram_def IsPayToScriptHash_def p2pkh_script_def)
  have "push_data (push_data [] sig) pk = pushes [sig, pk]"
    by (simp add: pushes_def push_data_append [of "push_data [] sig"])
  then have push: "IsPushOnly (push_data (push_data [] sig) pk)"
    using IsPushOnly_pushes [of "[sig, pk]"] assms(3,5) by simp
  have two: "EvalScript cr C [] (push_data (push_data [] sig) pk) flags SIGVERSION_BASE = set_success [pk, sig]"
    using EvalScript_two_pushes [of sig pk] assms by simp
  have "VerifyScript cr C (push_data (push_data [] sig) pk) (p2pkh_script h) None flags =
      bind_step (EvalScript cr C [pk, sig] (p2pkh_script h) flags SIGVERSION_BASE) (\<lambda>st.
        require_true st (verify_finish flags [] False st))"
    unfolding VerifyScript_def Let_def two using w push
    by (simp add: lift_step_def set_success_def [symmetric] cong: if_cong)
  moreover have "verify_finish flags [] False [v] = set_success ()" for v
    using assms(6,7) by (auto simp: verify_finish_def)
  moreover obtain se pe where "CheckSignatureEncoding cr sig flags = Inr se" "CheckPubKeyEncoding pk flags SIGVERSION_BASE = Inr pe"
    using returns_CheckSignatureEncoding returns_CheckPubKeyEncoding unfolding returns_def by blast
  ultimately show ?thesis
    unfolding EvalScript_p2pkh [OF assms(1-3,8)] check_encodings_def
    by (auto simp: require_true_def bool_vch_def vchTrue_def vchFalse_def split: option.split)
qed

theorem VerifyScript_p2pkh_witness:
  "VerifyScript demo_crypto demo_checker (push_data (push_data [] (replicate 71 0x30)) (replicate 33 2))
     (p2pkh_script (replicate 20 1)) None (SCRIPT_VERIFY_P2SH OR SCRIPT_VERIFY_WITNESS OR SCRIPT_VERIFY_CLEANSTACK) = set_success ()"
proof -
  have "CheckSignatureEncoding demo_crypto (replicate 71 0x30) (SCRIPT_VERIFY_P2SH OR SCRIPT_VERIFY_WITNESS OR SCRIPT_VERIFY_CLEANSTACK) = Inr None"
    "CheckPubKeyEncoding (replicate 33 2) (SCRIPT_VERIFY_P2SH OR SCRIPT_VERIFY_WITNESS OR SCRIPT_VERIFY_CLEANSTACK) SIGVERSION_BASE = Inr None"
    by code_simp+
  moreover have "c_CheckSig demo_checker (replicate 71 0x30) (replicate 33 2) (p2pkh_script (replicate 20 1)) SIGVERSION_BASE = Inr True"
    by (simp add: demo_checker_def)
  ultimately show ?thesis
    using VerifyScript_p2pkh [of "replicate 20 1" "replicate 71 0x30" "replicate 33 2"
        "SCRIPT_VERIFY_P2SH OR SCRIPT_VERIFY_WITNESS OR SCRIPT_VERIFY_CLEANSTACK" demo_checker True demo_crypto]
    by (simp add: demo_crypto_def)
qed

end
