(* ===== verification/SigHash.thy ===== *)
theory SigHash
  imports Interpreter
begin

unbundle bit_operations_syntax

text \<open>
  The second half of \<^verbatim>\<open>script/interpreter.cpp\<close>: the digest a signature covers, for legacy scripts and for witness programs, and the
  checker that the interpreter calls for a transaction. The digest is shown to be the hash of a modified transaction.
\<close>

section \<open>The digest of a signature\<close>

text \<open>
  \<^verbatim>\<open>CTransactionSignatureSerializer\<close> and \<^verbatim>\<open>SignatureHash\<close>. \<open>H\<close> is the double hash of \<^verbatim>\<open>CHashWriter\<close>. When an instruction
  cannot be read, \<^verbatim>\<open>GetOp\<close> has moved its iterator into the instruction, and the last chunk ends there.
\<close>

abbreviation uint256_null :: base_blob where "uint256_null \<equiv> replicate 32 0"

definition fAnyoneCanPay :: "int \<Rightarrow> bool" where "fAnyoneCanPay nHashType \<longleftrightarrow> nHashType AND SIGHASH_ANYONECANPAY \<noteq> 0"

definition fHashSingle :: "int \<Rightarrow> bool" where "fHashSingle nHashType \<longleftrightarrow> nHashType AND 0x1f = SIGHASH_SINGLE"

definition fHashNone :: "int \<Rightarrow> bool" where "fHashNone nHashType \<longleftrightarrow> nHashType AND 0x1f = SIGHASH_NONE"

lemma GetOp2_read: "(True, opcode, v, pc') = GetOp2 pc \<Longrightarrow> length pc' < length pc"
  using GetOp2_decreases_sym [of True opcode v pc' pc] by (cases "pc = []") (auto simp: GetOp2_def)

function code_chunks :: "bytes \<Rightarrow> bytes \<Rightarrow> bytes" where
  "code_chunks itBegin it =
     (let (ok, opcode, v, it) = GetOp2 it in
      if ok then
        (if opcode = OP_CODESEPARATOR then take (length itBegin - length it - 1) itBegin @ code_chunks it it
         else code_chunks itBegin it)
      else take (length itBegin - length it) itBegin)"
  by pat_completeness auto
termination
  by (relation "measure (\<lambda>(b, it). length it)") (auto dest!: GetOp2_read)

declare code_chunks.simps [simp del]

definition SerializeScriptCode :: "CScript \<Rightarrow> bytes" where
  "SerializeScriptCode scriptCode =
     (let nCodeSeparators = find_op_loop OP_CODESEPARATOR scriptCode 0 in
      WriteCompactSize (of_nat (length scriptCode - nCodeSeparators)) @ code_chunks scriptCode scriptCode)"

definition SerializeInput :: "CTransaction \<Rightarrow> CScript \<Rightarrow> nat \<Rightarrow> int \<Rightarrow> nat \<Rightarrow> bytes" where
  "SerializeInput txTo scriptCode nIn nHashType nInput =
     (let nInput = (if fAnyoneCanPay nHashType then nIn else nInput);
          i = vin txTo ! nInput in
      ser_outpoint (prevout i) @
      (if nInput \<noteq> nIn then ser_bytes [] else SerializeScriptCode scriptCode) @
      (if nInput \<noteq> nIn \<and> (fHashSingle nHashType \<or> fHashNone nHashType) then ser_int32 0
       else ser_writedata32 (nSequence i)))"

definition SerializeOutput :: "CTransaction \<Rightarrow> nat \<Rightarrow> int \<Rightarrow> nat \<Rightarrow> bytes" where
  "SerializeOutput txTo nIn nHashType nOutput =
     (if fHashSingle nHashType \<and> nOutput \<noteq> nIn then ser_txout txout_null else ser_txout (vout txTo ! nOutput))"

definition sig_Serialize :: "CTransaction \<Rightarrow> CScript \<Rightarrow> nat \<Rightarrow> int \<Rightarrow> bytes" where
  "sig_Serialize txTo scriptCode nIn nHashType =
     (let nInputs = (if fAnyoneCanPay nHashType then 1 else length (vin txTo));
          nOutputs = (if fHashNone nHashType then 0 else if fHashSingle nHashType then nIn + 1 else length (vout txTo)) in
      ser_int32 (tx_nVersion txTo) @
      WriteCompactSize (of_nat nInputs) @ concat (map (SerializeInput txTo scriptCode nIn nHashType) [0..<nInputs]) @
      WriteCompactSize (of_nat nOutputs) @ concat (map (SerializeOutput txTo nIn nHashType) [0..<nOutputs]) @
      ser_writedata32 (tx_nLockTime txTo))"

definition GetPrevoutHash :: "(bytes \<Rightarrow> base_blob) \<Rightarrow> CTransaction \<Rightarrow> base_blob" where
  "GetPrevoutHash H txTo = H (concat (map (\<lambda>i. ser_outpoint (prevout i)) (vin txTo)))"

definition GetSequenceHash :: "(bytes \<Rightarrow> base_blob) \<Rightarrow> CTransaction \<Rightarrow> base_blob" where
  "GetSequenceHash H txTo = H (concat (map (\<lambda>i. ser_writedata32 (nSequence i)) (vin txTo)))"

definition GetOutputsHash :: "(bytes \<Rightarrow> base_blob) \<Rightarrow> CTransaction \<Rightarrow> base_blob" where
  "GetOutputsHash H txTo = H (concat (map ser_txout (vout txTo)))"

record PrecomputedTransactionData =
  hashPrevouts :: base_blob
  hashSequence :: base_blob
  hashOutputs :: base_blob
  ready :: bool

definition PrecomputedTransactionData_of :: "(bytes \<Rightarrow> base_blob) \<Rightarrow> CTransaction \<Rightarrow> PrecomputedTransactionData" where
  "PrecomputedTransactionData_of H txTo =
     (if HasWitness txTo
      then \<lparr>hashPrevouts = GetPrevoutHash H txTo, hashSequence = GetSequenceHash H txTo, hashOutputs = GetOutputsHash H txTo, ready = True\<rparr>
      else \<lparr>hashPrevouts = uint256_null, hashSequence = uint256_null, hashOutputs = uint256_null, ready = False\<rparr>)"

definition cached :: "PrecomputedTransactionData option \<Rightarrow> (PrecomputedTransactionData \<Rightarrow> base_blob) \<Rightarrow> base_blob \<Rightarrow> base_blob" where
  "cached cache sel h = (case cache of Some d \<Rightarrow> if ready d then sel d else h | None \<Rightarrow> h)"

definition sighash_one :: base_blob where
  "sighash_one = uint256S ''0000000000000000000000000000000000000000000000000000000000000001''"

definition SignatureHash ::
  "(bytes \<Rightarrow> base_blob) \<Rightarrow> CScript \<Rightarrow> CTransaction \<Rightarrow> nat \<Rightarrow> int \<Rightarrow> CAmount \<Rightarrow> SigVersion \<Rightarrow> PrecomputedTransactionData option \<Rightarrow>
   base_blob outcome" where
  "SignatureHash H scriptCode txTo nIn nHashType amount sigversion cache =
     assert_out (nIn < length (vin txTo))
       (if sigversion = SIGVERSION_WITNESS_V0 then
          (let prevouts = (if \<not> fAnyoneCanPay nHashType then cached cache hashPrevouts (GetPrevoutHash H txTo) else uint256_null);
               sequences = (if \<not> fAnyoneCanPay nHashType \<and> \<not> fHashSingle nHashType \<and> \<not> fHashNone nHashType
                            then cached cache hashSequence (GetSequenceHash H txTo) else uint256_null);
               outputs = (if \<not> fHashSingle nHashType \<and> \<not> fHashNone nHashType
                          then cached cache hashOutputs (GetOutputsHash H txTo)
                          else if fHashSingle nHashType \<and> nIn < length (vout txTo) then H (ser_txout (vout txTo ! nIn))
                          else uint256_null);
               i = vin txTo ! nIn in
           Inr (H (ser_int32 (tx_nVersion txTo) @ ser_blob prevouts @ ser_blob sequences @ ser_outpoint (prevout i) @
             ser_bytes scriptCode @ ser_int64 amount @ ser_writedata32 (nSequence i) @ ser_blob outputs @
             ser_writedata32 (tx_nLockTime txTo) @ ser_int32 nHashType)))
        else if fHashSingle nHashType \<and> nIn \<ge> length (vout txTo) then Inr sighash_one
        else Inr (H (sig_Serialize txTo scriptCode nIn nHashType @ ser_int32 nHashType)))"

section \<open>The checker of a transaction\<close>

definition pubkey_GetLen :: "u8 \<Rightarrow> nat" where
  "pubkey_GetLen chHeader =
     (if chHeader = 2 \<or> chHeader = 3 then 33 else if chHeader = 4 \<or> chHeader = 6 \<or> chHeader = 7 then 65 else 0)"

text \<open>The bytes a key holds after \<^verbatim>\<open>Set\<close>, \<open>None\<close> when it is invalid.\<close>

definition pubkey_Set :: "bytes \<Rightarrow> bytes option" where
  "pubkey_Set vch =
     (let len = (if vch = [] then 0 else pubkey_GetLen (vch ! 0)) in if len \<noteq> 0 \<and> len = length vch then Some vch else None)"

record tx_checker =
  tc_txTo :: CTransaction
  tc_nIn :: nat
  tc_amount :: CAmount
  tc_txdata :: "PrecomputedTransactionData option"

text \<open>\<open>verify\<close> is \<^verbatim>\<open>CPubKey::Verify\<close> on the bytes of a key, a digest and a signature.\<close>

definition tx_CheckSig ::
  "(bytes \<Rightarrow> base_blob) \<Rightarrow> (bytes \<Rightarrow> base_blob \<Rightarrow> bytes \<Rightarrow> bool) \<Rightarrow> tx_checker \<Rightarrow> valtype \<Rightarrow> valtype \<Rightarrow> CScript \<Rightarrow> SigVersion \<Rightarrow> bool outcome" where
  "tx_CheckSig H verify tc vchSigIn vchPubKey scriptCode sigversion =
     (case pubkey_Set vchPubKey of None \<Rightarrow> Inr False
      | Some pubkey \<Rightarrow>
          if vchSigIn = [] then Inr False
          else let nHashType = uint (last vchSigIn); vchSig = butlast vchSigIn in
            bind_out (SignatureHash H scriptCode (tc_txTo tc) (tc_nIn tc) nHashType (tc_amount tc) sigversion (tc_txdata tc))
              (\<lambda>sighash. Inr (verify pubkey sighash vchSig)))"

definition tx_CheckLockTime :: "tx_checker \<Rightarrow> int \<Rightarrow> bool outcome" where
  "tx_CheckLockTime tc nLockTime =
     (let t = uint (tx_nLockTime (tc_txTo tc)); thr = LOCKTIME_THRESHOLD in
      if \<not> ((t < thr \<and> nLockTime < thr) \<or> (t \<ge> thr \<and> nLockTime \<ge> thr)) then Inr False
      else if nLockTime > t then Inr False
      else if tc_nIn tc \<ge> length (vin (tc_txTo tc)) then Inl OutOfRange
      else Inr (nSequence (vin (tc_txTo tc) ! tc_nIn tc) \<noteq> SEQUENCE_FINAL))"

definition tx_CheckSequence :: "tx_checker \<Rightarrow> int \<Rightarrow> bool outcome" where
  "tx_CheckSequence tc nSequence' =
     (if tc_nIn tc \<ge> length (vin (tc_txTo tc)) then Inl OutOfRange
      else let txToSequence = uint (nSequence (vin (tc_txTo tc) ! tc_nIn tc));
               nLockTimeMask = uint (SEQUENCE_LOCKTIME_TYPE_FLAG OR SEQUENCE_LOCKTIME_MASK);
               txToSequenceMasked = txToSequence AND nLockTimeMask;
               nSequenceMasked = scriptnum_and nSequence' nLockTimeMask;
               typeflag = uint SEQUENCE_LOCKTIME_TYPE_FLAG in
        if uint (word_of_int (tx_nVersion (tc_txTo tc)) :: u32) < 2 then Inr False
        else if txToSequence AND uint SEQUENCE_LOCKTIME_DISABLE_FLAG \<noteq> 0 then Inr False
        else if \<not> ((txToSequenceMasked < typeflag \<and> nSequenceMasked < typeflag) \<or>
                   (txToSequenceMasked \<ge> typeflag \<and> nSequenceMasked \<ge> typeflag)) then Inr False
        else Inr (\<not> nSequenceMasked > txToSequenceMasked))"

definition TransactionSignatureChecker ::
  "(bytes \<Rightarrow> base_blob) \<Rightarrow> (bytes \<Rightarrow> base_blob \<Rightarrow> bytes \<Rightarrow> bool) \<Rightarrow> tx_checker \<Rightarrow> checker" where
  "TransactionSignatureChecker H verify tc =
     \<lparr>c_CheckSig = tx_CheckSig H verify tc, c_CheckLockTime = tx_CheckLockTime tc, c_CheckSequence = tx_CheckSequence tc\<rparr>"

lemma TransactionSignatureChecker_returns:
  assumes "tc_nIn tc < length (vin (tc_txTo tc))"
  shows "checker_returns (TransactionSignatureChecker H verify tc)"
  using assms
  by (auto simp: checker_returns_def TransactionSignatureChecker_def tx_CheckSig_def tx_CheckLockTime_def tx_CheckSequence_def
      SignatureHash_def assert_out_def Let_def split: option.split)

section \<open>The digest as the hash of a modified transaction\<close>

text \<open>The transaction a legacy signature covers: the script code without its separators in the signed input, the other inputs blanked.\<close>

function strip_separators :: "CScript \<Rightarrow> CScript" where
  "strip_separators pc =
     (let (ok, opcode, v, rest) = GetOp2 pc in
      if ok then (if opcode = OP_CODESEPARATOR then [] else take (length pc - length rest) pc) @ strip_separators rest else [])"
  by pat_completeness auto
termination
  by (relation "measure length") (auto dest!: GetOp2_read)

function parses :: "CScript \<Rightarrow> bool" where
  "parses pc = (if pc = [] then True else let (ok, opcode, v, rest) = GetOp2 pc in if ok then parses rest else False)"
  by pat_completeness auto
termination
  by (relation "measure length") (auto dest!: GetOp2_read)

declare strip_separators.simps [simp del] parses.simps [simp del]

definition sighash_input :: "CScript \<Rightarrow> nat \<Rightarrow> int \<Rightarrow> nat \<Rightarrow> CTxIn \<Rightarrow> CTxIn" where
  "sighash_input scriptCode nIn nHashType k i =
     (if k = nIn then i\<lparr>scriptSig := strip_separators scriptCode\<rparr>
      else i\<lparr>scriptSig := [], nSequence := (if fHashSingle nHashType \<or> fHashNone nHashType then 0 else nSequence i)\<rparr>)"

definition sighash_tx :: "CTransaction \<Rightarrow> CScript \<Rightarrow> nat \<Rightarrow> int \<Rightarrow> CTransaction" where
  "sighash_tx tx scriptCode nIn nHashType =
     tx\<lparr>vin := (if fAnyoneCanPay nHashType then [sighash_input scriptCode nIn nHashType nIn (vin tx ! nIn)]
                else map (\<lambda>k. sighash_input scriptCode nIn nHashType k (vin tx ! k)) [0..<length (vin tx)]),
        vout := (if fHashNone nHashType then []
                 else if fHashSingle nHashType then replicate nIn txout_null @ [vout tx ! nIn]
                 else vout tx)\<rparr>"

lemma read_operand_drop: "read_operand opcode pc = Some (k, rest) \<Longrightarrow> \<exists>n. rest = drop n pc"
  by (auto simp: read_operand_def split: if_splits) (metis drop0)

lemma GetOp2_suffix:
  assumes "GetOp2 pc = (True, opcode, v, rest)"
  obtains c where "pc = c @ rest" "c \<noteq> []" "opcode = OP_CODESEPARATOR \<Longrightarrow> c = [OP_CODESEPARATOR]"
proof -
  have "\<exists>n. pc \<noteq> [] \<and> rest = drop (Suc n) pc \<and> (opcode = OP_CODESEPARATOR \<longrightarrow> pc = OP_CODESEPARATOR # rest)"
  proof (cases pc)
    case (Cons op q)
    show ?thesis
    proof (cases "op \<le> OP_PUSHDATA4")
      case True
      then obtain k q' where r: "read_operand op q = Some (k, q')" "rest = drop k q'" "opcode = op"
        using assms Cons by (auto simp: GetOp2_def split: option.splits if_splits)
      then obtain n where "q' = drop n q" using read_operand_drop by blast
      then show ?thesis using r True Cons by (auto intro: exI [of _ "k + n"])
    next
      case False
      then show ?thesis using assms Cons
        by (auto simp: GetOp2_def split: if_splits intro: exI [of _ "length q"] exI [of _ 0])
    qed
  qed (use assms in \<open>simp add: GetOp2_def\<close>)
  then obtain n where n: "pc \<noteq> []" "rest = drop (Suc n) pc" "opcode = OP_CODESEPARATOR \<Longrightarrow> pc = OP_CODESEPARATOR # rest"
    by blast
  show thesis
  proof (rule that [of "take (length pc - length rest) pc"])
    show "pc = take (length pc - length rest) pc @ rest"
      using n(2) by (cases "Suc n \<le> length pc") auto
    show "take (length pc - length rest) pc \<noteq> []" using n(1,2) by (cases pc) auto
    show "take (length pc - length rest) pc = [OP_CODESEPARATOR]" if "opcode = OP_CODESEPARATOR"
      by (simp add: n(3) [OF that] Suc_diff_le)
  qed
qed

lemma parses_cases [consumes 1, case_names empty step]:
  assumes "parses pc"
  obtains "pc = []" |
    c rest opcode v where "GetOp2 pc = (True, opcode, v, rest)" "parses rest" "pc = c @ rest" "c \<noteq> []"
      "opcode = OP_CODESEPARATOR \<Longrightarrow> c = [OP_CODESEPARATOR]"
proof (cases "pc = []")
  case False
  then obtain opcode v rest where g: "GetOp2 pc = (True, opcode, v, rest)" "parses rest"
    using assms by (subst (asm) parses.simps) (auto simp: Let_def split: prod.splits if_splits)
  obtain c where "pc = c @ rest" "c \<noteq> []" "opcode = OP_CODESEPARATOR \<Longrightarrow> c = [OP_CODESEPARATOR]"
    using GetOp2_suffix [OF g(1)] by metis
  with g show thesis by (rule that(2))
qed (rule that(1))

lemma code_chunks_strip: "parses it \<Longrightarrow> code_chunks (pre @ it) it = pre @ strip_separators it"
proof (induction "length it" arbitrary: it pre rule: less_induct)
  case less
  from less.prems show ?case
  proof (cases rule: parses_cases)
    case empty
    then show ?thesis by (simp add: code_chunks.simps [of _ "[]"] strip_separators.simps [of "[]"] GetOp2_def)
  next
    case (step c rest opcode v)
    have l: "length rest < length it" using step by simp
    note ih = less.hyps [OF l step(2)]
    show ?thesis
    proof (cases "opcode = OP_CODESEPARATOR")
      case True
      then show ?thesis using step ih [of "[]"]
        by (subst code_chunks.simps, subst strip_separators.simps) simp
    next
      case False
      then show ?thesis using step ih [of "pre @ c"]
        by (subst code_chunks.simps, subst strip_separators.simps) simp
    qed
  qed
qed

lemma find_separators: "parses pc \<Longrightarrow> find_op_loop OP_CODESEPARATOR pc k + length (strip_separators pc) = k + length pc"
proof (induction "length pc" arbitrary: pc k rule: less_induct)
  case less
  from less.prems show ?case
  proof (cases rule: parses_cases)
    case empty
    then show ?thesis by (simp add: find_op_loop.simps [of _ "[]"] strip_separators.simps [of "[]"] GetOp2_def)
  next
    case (step c rest opcode v)
    have l: "length rest < length pc" using step by simp
    note ih = less.hyps [OF l step(2)]
    show ?thesis using step ih [of k] ih [of "k + 1"]
      by (subst find_op_loop.simps, subst strip_separators.simps) auto
  qed
qed

lemma SerializeScriptCode_strip: "parses code \<Longrightarrow> SerializeScriptCode code = ser_bytes (strip_separators code)"
proof -
  assume p: "parses code"
  have n: "length code - find_op_loop OP_CODESEPARATOR code 0 = length (strip_separators code)"
    using find_separators [OF p, of 0] by simp
  show ?thesis
    unfolding SerializeScriptCode_def ser_bytes_def Let_def n using code_chunks_strip [OF p, of "[]"] by simp
qed

lemma ser_int32_zero: "ser_int32 0 = ser_writedata32 0"
  by (simp add: ser_int32_def)

lemma SerializeInput_txin:
  "parses code \<Longrightarrow> \<not> fAnyoneCanPay t \<Longrightarrow>
   SerializeInput tx code nIn t k = ser_txin (sighash_input code nIn t k (vin tx ! k))"
  by (simp add: SerializeInput_def sighash_input_def ser_txin_def SerializeScriptCode_strip ser_int32_zero Let_def)

lemma SerializeInput_anyone:
  "parses code \<Longrightarrow> fAnyoneCanPay t \<Longrightarrow>
   SerializeInput tx code nIn t k = ser_txin (sighash_input code nIn t nIn (vin tx ! nIn))"
  by (simp add: SerializeInput_def sighash_input_def ser_txin_def SerializeScriptCode_strip Let_def)

lemma SerializeOutput_single:
  "fHashSingle t \<Longrightarrow> map (SerializeOutput tx nIn t) [0..<Suc nIn] = map ser_txout (replicate nIn txout_null @ [vout tx ! nIn])"
proof -
  assume "fHashSingle t"
  then have "map (SerializeOutput tx nIn t) [0..<nIn] = replicate nIn (ser_txout txout_null)"
    by (intro nth_equalityI) (simp_all add: SerializeOutput_def)
  then show ?thesis by (simp add: SerializeOutput_def)
qed

lemma SerializeOutput_all:
  "\<not> fHashSingle t \<Longrightarrow> map (SerializeOutput tx nIn t) [0..<length (vout tx)] = map ser_txout (vout tx)"
  by (intro nth_equalityI) (simp_all add: SerializeOutput_def)

lemma sig_Serialize_modified:
  assumes "parses code" "fHashSingle t \<longrightarrow> nIn < length (vout tx)"
  shows "sig_Serialize tx code nIn t = SerializeTransaction False (sighash_tx tx code nIn t)"
proof -
  have o: "concat (map (SerializeOutput tx nIn t) [0..<(if fHashNone t then 0 else if fHashSingle t then nIn + 1 else length (vout tx))]) =
    concat (map ser_txout (vout (sighash_tx tx code nIn t)))"
    using SerializeOutput_single [of t tx nIn] SerializeOutput_all [of t tx nIn] by (simp add: sighash_tx_def del: upt_Suc)
  have i: "concat (map (SerializeInput tx code nIn t) [0..<(if fAnyoneCanPay t then 1 else length (vin tx))]) =
    concat (map ser_txin (vin (sighash_tx tx code nIn t)))"
    using assms(1) by (simp add: sighash_tx_def SerializeInput_txin SerializeInput_anyone comp_def cong: map_cong)
  show ?thesis
    unfolding sig_Serialize_def Let_def o i SerializeTransaction_def ser_vector_def by (simp add: sighash_tx_def)
qed

text \<open>
  C8. What a legacy signature covers. For a script code whose instructions can all be read, the digest of input \<open>nIn\<close>, which the
  code computes by serializing in place, is the hash of an ordinary transaction, followed by the hash type: the signed transaction
  with the code, less its separators, as the script of that input, with the other scripts blanked, and with the inputs,
  sequences and outputs that the hash type leaves out removed or reset. With \<^verbatim>\<open>SIGHASH_SINGLE\<close> and no matching output the digest is the
  constant one. For witness programs the digests kept in the transaction's cache give the same digest as computing them anew.
\<close>

theorem SignatureHash_modified_transaction:
  assumes "nIn < length (vin tx)" "parses scriptCode"
  shows "SignatureHash H scriptCode tx nIn t amount SIGVERSION_BASE cache =
      (if fHashSingle t \<and> length (vout tx) \<le> nIn then Inr sighash_one
       else Inr (H (SerializeTransaction False (sighash_tx tx scriptCode nIn t) @ ser_int32 t))) \<and>
    SignatureHash H scriptCode tx nIn t amount SIGVERSION_WITNESS_V0 (Some (PrecomputedTransactionData_of H tx)) =
    SignatureHash H scriptCode tx nIn t amount SIGVERSION_WITNESS_V0 None"
proof
  show "SignatureHash H scriptCode tx nIn t amount SIGVERSION_BASE cache =
      (if fHashSingle t \<and> length (vout tx) \<le> nIn then Inr sighash_one
       else Inr (H (SerializeTransaction False (sighash_tx tx scriptCode nIn t) @ ser_int32 t)))"
    using assms sig_Serialize_modified [of scriptCode t nIn tx] by (auto simp: SignatureHash_def assert_out_def)
  have "cached (Some (PrecomputedTransactionData_of H tx)) hashPrevouts (GetPrevoutHash H tx) = GetPrevoutHash H tx"
    "cached (Some (PrecomputedTransactionData_of H tx)) hashSequence (GetSequenceHash H tx) = GetSequenceHash H tx"
    "cached (Some (PrecomputedTransactionData_of H tx)) hashOutputs (GetOutputsHash H tx) = GetOutputsHash H tx"
    by (simp_all add: cached_def PrecomputedTransactionData_of_def)
  then show "SignatureHash H scriptCode tx nIn t amount SIGVERSION_WITNESS_V0 (Some (PrecomputedTransactionData_of H tx)) =
    SignatureHash H scriptCode tx nIn t amount SIGVERSION_WITNESS_V0 None"
    by (simp add: SignatureHash_def cached_def)
qed

theorem SignatureHash_modified_transaction_witness:
  "SignatureHash (\<lambda>b. b) [OP_DUP, OP_CODESEPARATOR, OP_CHECKSIG] demo_tx 0 2 5 SIGVERSION_BASE None =
     Inr (SerializeTransaction False (sighash_tx demo_tx [OP_DUP, OP_CODESEPARATOR, OP_CHECKSIG] 0 2) @ ser_int32 2) \<and>
   scriptSig (vin (sighash_tx demo_tx [OP_DUP, OP_CODESEPARATOR, OP_CHECKSIG] 0 2) ! 0) = [OP_DUP, OP_CHECKSIG] \<and>
   vout (sighash_tx demo_tx [OP_DUP, OP_CODESEPARATOR, OP_CHECKSIG] 0 2) = []"
proof -
  have p: "0 < length (vin demo_tx)" "parses [OP_DUP, OP_CODESEPARATOR, OP_CHECKSIG]" by code_simp+
  have s: "\<not> fHashSingle 2" by code_simp
  show ?thesis
    using SignatureHash_modified_transaction [OF p, of "\<lambda>b. b" 2 5 None] s by (simp, code_simp)
qed

end
