(* ===== verification/Merkle.thy ===== *)
theory Merkle
  imports Transaction
begin

unbundle bit_operations_syntax

text \<open>
  \<^verbatim>\<open>consensus/merkle.cpp\<close>: roots and branches of the tree over the transactions of a block. \<open>H\<close> is the double hash of
  \<^verbatim>\<open>CHash256\<close>. A shift by the width of \<^verbatim>\<open>count\<close> or more, which the array \<^verbatim>\<open>inner\<close> of 32 entries does not cover either, is \<open>OutOfRange\<close>.
\<close>

section \<open>Eager subtree hashes\<close>

text \<open>A branch is \<open>None\<close> when the caller passes no pointer for it.\<close>

definition branch_step :: "base_blob list option \<Rightarrow> bool \<Rightarrow> int \<Rightarrow> nat \<Rightarrow> base_blob \<Rightarrow> base_blob \<Rightarrow> base_blob list option \<times> bool" where
  "branch_step pbranch matchh matchlevel level inner_l h =
     (case pbranch of None \<Rightarrow> (None, matchh)
      | Some b \<Rightarrow> if matchh then (Some (b @ [inner_l]), matchh)
                  else if matchlevel = int level then (Some (b @ [h]), True)
                  else (Some b, matchh))"

text \<open>One step for each zero bit of \<open>count\<close> from \<open>level\<close> on; the final sweep runs the same loop and ignores the flag.\<close>

function merkle_carry ::
  "(bytes \<Rightarrow> base_blob) \<Rightarrow> base_blob list \<Rightarrow> int \<Rightarrow> u32 \<Rightarrow> nat \<Rightarrow> base_blob \<Rightarrow> bool \<Rightarrow> base_blob list option \<Rightarrow> bool \<Rightarrow>
   (nat \<times> base_blob \<times> bool \<times> base_blob list option \<times> bool) outcome" where
  "merkle_carry H inner matchlevel count level h matchh pbranch mutated =
     (if level \<ge> 32 then Inl OutOfRange
      else if count AND push_bit level 1 \<noteq> 0 then Inr (level, h, matchh, pbranch, mutated)
      else let (pbranch, matchh) = branch_step pbranch matchh matchlevel level (inner ! level) h in
        merkle_carry H inner matchlevel count (level + 1) (H (inner ! level @ h)) matchh pbranch (mutated \<or> inner ! level = h))"
  by pat_completeness auto
termination
  by (relation "measure (\<lambda>(H, inner, ml, count, level, r). 32 - level)") auto

declare merkle_carry.simps [simp del]

record merkle_state =
  ms_count :: u32
  ms_inner :: "base_blob list"
  ms_matchlevel :: int
  ms_mutated :: bool
  ms_branch :: "base_blob list option"

fun merkle_leaves :: "(bytes \<Rightarrow> base_blob) \<Rightarrow> u32 \<Rightarrow> base_blob list \<Rightarrow> merkle_state \<Rightarrow> merkle_state outcome" where
  "merkle_leaves H branchpos [] s = Inr s"
| "merkle_leaves H branchpos (h # leaves) s =
     (let matchh = (ms_count s = branchpos); count = ms_count s + 1 in
      bind_out (merkle_carry H (ms_inner s) (ms_matchlevel s) count 0 h matchh (ms_branch s) (ms_mutated s))
        (\<lambda>(level, h, matchh, pbranch, mutated).
          merkle_leaves H branchpos leaves
            \<lparr>ms_count = count, ms_inner = (ms_inner s)[level := h],
             ms_matchlevel = (if matchh then int level else ms_matchlevel s), ms_mutated = mutated, ms_branch = pbranch\<rparr>))"

section \<open>The final sweep\<close>

function lowest_level :: "u32 \<Rightarrow> nat \<Rightarrow> nat outcome" where
  "lowest_level count level =
     (if level \<ge> 32 then Inl OutOfRange
      else if count AND push_bit level 1 \<noteq> 0 then Inr level else lowest_level count (level + 1))"
  by pat_completeness auto
termination
  by (relation "measure (\<lambda>(count, level). 32 - level)") auto

declare lowest_level.simps [simp del]

lemma merkle_carry_level: "merkle_carry H inner ml count level h m b mu = Inr (level', r) \<Longrightarrow> level \<le> level'"
proof (induction "32 - level" arbitrary: level h m b mu)
  case (Suc n)
  let ?b = "branch_step b m ml level (inner ! level) h"
  show ?case
  proof (cases "count AND push_bit level 1 = 0")
    case True
    then have "merkle_carry H inner ml count (level + 1) (H (inner ! level @ h)) (snd ?b) (fst ?b) (mu \<or> inner ! level = h) = Inr (level', r)"
      using Suc.prems Suc.hyps(2) by (subst (asm) merkle_carry.simps) (simp add: case_prod_unfold Let_def split: if_splits)
    then have "level + 1 \<le> level'" by (rule Suc.hyps(1) [rotated]) (use Suc.hyps(2) in simp)
    then show ?thesis by simp
  qed (use Suc.prems in \<open>simp add: merkle_carry.simps split: if_splits\<close>)
qed (simp add: merkle_carry.simps)

lemma bind_out_cong [fundef_cong]:
  "r = r' \<Longrightarrow> (\<And>a. r' = Inr a \<Longrightarrow> f a = g a) \<Longrightarrow> bind_out r f = bind_out r' g"
  by (cases r') auto

function merkle_sweep ::
  "(bytes \<Rightarrow> base_blob) \<Rightarrow> base_blob list \<Rightarrow> int \<Rightarrow> u32 \<Rightarrow> nat \<Rightarrow> base_blob \<Rightarrow> bool \<Rightarrow> base_blob list option \<Rightarrow>
   (base_blob \<times> base_blob list option) outcome" where
  "merkle_sweep H inner matchlevel count level h matchh pbranch =
     (if level \<ge> 32 then Inl OutOfRange
      else if count = push_bit level 1 then Inr (h, pbranch)
      else let pbranch = (if matchh then map_option (\<lambda>b. b @ [h]) pbranch else pbranch);
               count = count + push_bit level 1 in
        bind_out (merkle_carry H inner matchlevel count (level + 1) (H (h @ h)) matchh pbranch False)
          (\<lambda>(level, h, matchh, pbranch, _). merkle_sweep H inner matchlevel count level h matchh pbranch))"
  by pat_completeness auto
termination
  by (relation "measure (\<lambda>(H, inner, ml, count, level, r). 32 - level)") (auto dest!: merkle_carry_level)

declare merkle_sweep.simps [simp del]

definition MerkleComputation ::
  "(bytes \<Rightarrow> base_blob) \<Rightarrow> base_blob list \<Rightarrow> u32 \<Rightarrow> bool \<Rightarrow> (base_blob \<times> bool \<times> base_blob list option) outcome" where
  "MerkleComputation H leaves branchpos want_branch =
     (let pbranch = (if want_branch then Some [] else None) in
      if leaves = [] then Inr (replicate 32 0, False, pbranch)
      else bind_out (merkle_leaves H branchpos leaves
          \<lparr>ms_count = 0, ms_inner = replicate 32 (replicate 32 0), ms_matchlevel = - 1, ms_mutated = False, ms_branch = pbranch\<rparr>) (\<lambda>s.
        bind_out (lowest_level (ms_count s) 0) (\<lambda>level.
          bind_out (merkle_sweep H (ms_inner s) (ms_matchlevel s) (ms_count s) level (ms_inner s ! level)
              (ms_matchlevel s = int level) (ms_branch s)) (\<lambda>(h, pbranch).
            Inr (h, ms_mutated s, pbranch)))))"

definition ComputeMerkleRoot :: "(bytes \<Rightarrow> base_blob) \<Rightarrow> base_blob list \<Rightarrow> (base_blob \<times> bool) outcome" where
  "ComputeMerkleRoot H leaves = bind_out (MerkleComputation H leaves (- 1) False) (\<lambda>(h, mutated, _). Inr (h, mutated))"

definition ComputeMerkleBranch :: "(bytes \<Rightarrow> base_blob) \<Rightarrow> base_blob list \<Rightarrow> u32 \<Rightarrow> base_blob list outcome" where
  "ComputeMerkleBranch H leaves position =
     bind_out (MerkleComputation H leaves position True) (\<lambda>(_, _, pbranch). Inr (case pbranch of Some b \<Rightarrow> b | None \<Rightarrow> []))"

fun ComputeMerkleRootFromBranch :: "(bytes \<Rightarrow> base_blob) \<Rightarrow> base_blob \<Rightarrow> base_blob list \<Rightarrow> u32 \<Rightarrow> base_blob" where
  "ComputeMerkleRootFromBranch H hash [] nIndex = hash"
| "ComputeMerkleRootFromBranch H hash (it # vMerkleBranch) nIndex =
     ComputeMerkleRootFromBranch H (if nIndex AND 1 \<noteq> 0 then H (it @ hash) else H (hash @ it)) vMerkleBranch (drop_bit 1 nIndex)"

definition BlockMerkleRoot :: "(bytes \<Rightarrow> base_blob) \<Rightarrow> CTransaction list \<Rightarrow> (base_blob \<times> bool) outcome" where
  "BlockMerkleRoot H vtx = ComputeMerkleRoot H (map (tx_GetHash H) vtx)"

definition BlockWitnessMerkleRoot :: "(bytes \<Rightarrow> base_blob) \<Rightarrow> CTransaction list \<Rightarrow> (base_blob \<times> bool) outcome" where
  "BlockWitnessMerkleRoot H vtx =
     (case vtx of [] \<Rightarrow> Inl OutOfRange | _ # txs \<Rightarrow> ComputeMerkleRoot H (replicate 32 0 # map (GetWitnessHash H) txs))"

definition BlockMerkleBranch :: "(bytes \<Rightarrow> base_blob) \<Rightarrow> CTransaction list \<Rightarrow> u32 \<Rightarrow> base_blob list outcome" where
  "BlockMerkleBranch H vtx position = ComputeMerkleBranch H (map (tx_GetHash H) vtx) position"

section \<open>The tree level by level\<close>

text \<open>The reference: each level pairs the hashes of the level below, the last one with itself when it has no partner.\<close>

fun merkle_level :: "(bytes \<Rightarrow> base_blob) \<Rightarrow> base_blob list \<Rightarrow> base_blob list" where
  "merkle_level H [] = []"
| "merkle_level H [a] = [H (a @ a)]"
| "merkle_level H (a # b # xs) = H (a @ b) # merkle_level H xs"

lemma length_merkle_level [simp]: "length (merkle_level H xs) = (length xs + 1) div 2"
  by (induction H xs rule: merkle_level.induct) auto

function merkle_tree :: "(bytes \<Rightarrow> base_blob) \<Rightarrow> base_blob list \<Rightarrow> base_blob" where
  "merkle_tree H xs = (if length xs \<le> 1 then (if xs = [] then replicate 32 0 else hd xs) else merkle_tree H (merkle_level H xs))"
  by auto
termination
  by (relation "measure (\<lambda>(H, xs). length xs)") auto

declare merkle_tree.simps [simp del]

definition merkle_node :: "(bytes \<Rightarrow> base_blob) \<Rightarrow> base_blob list \<Rightarrow> nat \<Rightarrow> nat \<Rightarrow> base_blob" where
  "merkle_node H xs l i = ((merkle_level H ^^ l) xs) ! i"

definition merkle_sibling :: "(bytes \<Rightarrow> base_blob) \<Rightarrow> base_blob list \<Rightarrow> nat \<Rightarrow> nat \<Rightarrow> base_blob" where
  "merkle_sibling H xs p l =
     (let i = p div 2 ^ l in
      merkle_node H xs l (if odd i then i - 1 else if (i + 1) * 2 ^ l < length xs then i + 1 else i))"

lemma nth_merkle_level:
  "i < length (merkle_level H xs) \<Longrightarrow>
   merkle_level H xs ! i = H (xs ! (2 * i) @ (if 2 * i + 1 < length xs then xs ! (2 * i + 1) else xs ! (2 * i)))"
proof (induction H xs arbitrary: i rule: merkle_level.induct)
  case (3 H a b xs)
  then show ?case by (cases i) auto
qed auto

lemma less_length_level: "i < length ((merkle_level H ^^ l) xs) \<longleftrightarrow> i * 2 ^ l < length xs"
proof (induction l arbitrary: i)
  case (Suc l)
  have "i < (m + 1) div 2 \<longleftrightarrow> 2 * i < m" for m by auto
  then show ?case using Suc.IH [of "2 * i"] by (simp add: mult.assoc mult.commute mult.left_commute)
qed simp

lemma merkle_node_0: "merkle_node H xs 0 i = xs ! i"
  by (simp add: merkle_node_def)

lemma merkle_node_Suc:
  assumes "i * 2 ^ Suc l < length xs"
  shows "merkle_node H xs (Suc l) i =
    H (merkle_node H xs l (2 * i) @ merkle_node H xs l (if (2 * i + 1) * 2 ^ l < length xs then 2 * i + 1 else 2 * i))"
proof -
  have "i < length (merkle_level H ((merkle_level H ^^ l) xs))"
    using assms less_length_level [of i "Suc l" H xs] by simp
  from nth_merkle_level [OF this] show ?thesis
    using less_length_level [of "2 * i + 1" l H xs] by (auto simp: merkle_node_def)
qed

lemma merkle_tree_node:
  "length xs \<le> 2 ^ L \<Longrightarrow> 2 ^ L < 2 * length xs \<Longrightarrow> merkle_tree H xs = merkle_node H xs L 0"
proof (induction L arbitrary: xs)
  case 0
  then have "length xs = 1" by simp
  then show ?case by (subst merkle_tree.simps) (auto simp: merkle_node_def hd_conv_nth)
next
  case (Suc L)
  have pos: "0 < (2::nat) ^ L" by simp
  then have l: "1 < length xs" using Suc.prems by (simp del: zero_less_numeral zero_less_power)
  have "merkle_tree H (merkle_level H xs) = merkle_node H (merkle_level H xs) L 0"
    using Suc.prems by (intro Suc.IH) auto
  then show ?case using l by (subst merkle_tree.simps) (simp add: merkle_node_def funpow_Suc_right del: funpow.simps)
qed

text \<open>Climbing from a leaf along its siblings.\<close>

lemma node_climb:
  assumes "p < length xs"
  shows "merkle_node H xs (Suc l) (p div 2 ^ Suc l) =
    (if odd (p div 2 ^ l) then H (merkle_sibling H xs p l @ merkle_node H xs l (p div 2 ^ l))
     else H (merkle_node H xs l (p div 2 ^ l) @ merkle_sibling H xs p l))"
proof -
  let ?i = "p div 2 ^ l"
  have d: "p div 2 ^ Suc l = ?i div 2" by (simp add: div_mult2_eq [symmetric] mult.commute)
  have le: "?i * 2 ^ l < length xs" using assms by (meson div_times_less_eq_dividend le_less_trans)
  have "?i div 2 * 2 ^ Suc l \<le> ?i * 2 ^ l" by (simp add: mult.assoc [symmetric] del: mult.assoc)
  then have ex: "?i div 2 * 2 ^ Suc l < length xs" using le by linarith
  show ?thesis
  proof (cases "odd ?i")
    case True
    then have "2 * (?i div 2) + 1 = ?i" by simp
    then show ?thesis using True le merkle_node_Suc [OF ex, of H] unfolding d
      by (simp add: merkle_sibling_def Let_def)
  next
    case False
    then have "2 * (?i div 2) = ?i" by simp
    then show ?thesis using False merkle_node_Suc [OF ex, of H] unfolding d
      by (simp add: merkle_sibling_def Let_def)
  qed
qed

lemma bit_count: "bit (of_nat c :: u32) l \<longleftrightarrow> l < 32 \<and> odd (c div 2 ^ l)"
  unfolding bit_of_nat_iff by (simp add: bit_iff_odd)

lemma count_bit: "(of_nat c :: u32) AND push_bit l 1 \<noteq> 0 \<longleftrightarrow> l < 32 \<and> odd (c div 2 ^ l)"
  using bit_iff_and_push_bit_not_eq_0 [of "of_nat c :: u32" l] bit_count [of c l] by simp

lemma ComputeMerkleRootFromBranch_climb:
  assumes "p < length xs" "p < 2 ^ 32"
  shows "ComputeMerkleRootFromBranch H (merkle_node H xs l (p div 2 ^ l)) (map (merkle_sibling H xs p) [l..<l + k]) (drop_bit l (of_nat p)) =
    merkle_node H xs (l + k) (p div 2 ^ (l + k))"
proof (induction k arbitrary: l)
  case (Suc k)
  have u: "drop_bit l (of_nat p :: u32) AND 1 \<noteq> 0 \<longleftrightarrow> odd (p div 2 ^ l)"
  proof -
    have "drop_bit l (of_nat p :: u32) AND 1 \<noteq> 0 \<longleftrightarrow> bit (of_nat p :: u32) l"
      by (simp add: and_one_eq odd_iff_mod_2_eq_one [symmetric] even_drop_bit_iff_not_bit flip: even_iff_mod_2_eq_zero)
    moreover have "p < 2 ^ l" if "32 \<le> l"
      using assms(2) power_increasing [OF that, of "2::nat"] by simp
    ultimately show ?thesis using bit_count [of p l] by (cases "l < 32") auto
  qed
  have "[l..<l + Suc k] = l # [Suc l..<Suc l + k]" by (simp add: upt_conv_Cons)
  then show ?case using Suc.IH [of "Suc l"] u node_climb [OF assms(1), of H l]
    by (simp add: drop_bit_drop_bit)
qed simp

section \<open>Invariants of the computation\<close>

text \<open>
  After \<open>N\<close> leaves the array holds, at every level whose bit of \<open>N\<close> is set, the node of the last complete subtree of that level.
  The branch holds the siblings of leaf \<open>p\<close> below the subtree that contains it.
\<close>

definition inner_ok :: "(bytes \<Rightarrow> base_blob) \<Rightarrow> base_blob list \<Rightarrow> nat \<Rightarrow> base_blob list \<Rightarrow> bool" where
  "inner_ok H xs N inner \<longleftrightarrow>
     length inner = 32 \<and> (\<forall>l < 32. odd (N div 2 ^ l) \<longrightarrow> inner ! l = merkle_node H xs l (N div 2 ^ l - 1))"

definition found_at :: "(bytes \<Rightarrow> base_blob) \<Rightarrow> base_blob list \<Rightarrow> nat \<Rightarrow> nat \<Rightarrow> int \<Rightarrow> base_blob list \<Rightarrow> nat \<Rightarrow> bool" where
  "found_at H xs p N ml br m \<longleftrightarrow>
     ml = int m \<and> odd (N div 2 ^ m) \<and> p div 2 ^ m = N div 2 ^ m - 1 \<and> br = map (merkle_sibling H xs p) [0..<m]"

definition branch_ok ::
  "(bytes \<Rightarrow> base_blob) \<Rightarrow> base_blob list \<Rightarrow> nat \<Rightarrow> nat \<Rightarrow> int \<Rightarrow> nat \<Rightarrow> bool \<Rightarrow> base_blob list option \<Rightarrow> bool" where
  "branch_ok H xs p N ml l matchh pb \<longleftrightarrow>
     (\<forall>br. pb = Some br \<longrightarrow>
        (if matchh then p div 2 ^ l = N div 2 ^ l \<and> br = map (merkle_sibling H xs p) [0..<l]
         else (ml = - 1 \<and> br = [] \<and> N < p) \<or> (\<exists>m \<ge> l. found_at H xs p N ml br m)))"

lemma last_block:
  assumes "N < c" "c \<le> N + 2 ^ l" "2 ^ l dvd c"
  shows "c div 2 ^ l = Suc (N div 2 ^ l)"
proof -
  obtain q where q: "c = 2 ^ l * q" using assms(3) by blast
  then obtain r where r: "q = Suc r" using assms(1) by (cases q) auto
  have "N div 2 ^ l = r" using assms q r by (intro div_nat_eqI) (auto simp: algebra_simps)
  then show ?thesis using q r by simp
qed

lemma div_Suc_pow: "N div 2 ^ Suc l = N div 2 ^ l div (2::nat)"
  by (simp add: div_mult2_eq [symmetric] mult.commute)

lemma complete_pair:
  assumes "odd (N div 2 ^ l)" "(N div 2 ^ l) * 2 ^ l < length xs"
  shows "H (merkle_node H xs l (N div 2 ^ l - 1) @ merkle_node H xs l (N div 2 ^ l)) = merkle_node H xs (Suc l) (N div 2 ^ Suc l)"
    and "(N div 2 ^ Suc l) * 2 ^ Suc l < length xs"
proof -
  let ?q = "N div 2 ^ l"
  have q: "2 * (?q div 2) + 1 = ?q" using assms(1) by simp
  have "?q div 2 * 2 ^ Suc l \<le> ?q * 2 ^ l" by (simp add: mult.assoc [symmetric] del: mult.assoc)
  then show lt: "(N div 2 ^ Suc l) * 2 ^ Suc l < length xs" using assms(2) unfolding div_Suc_pow by linarith
  have "2 * (?q div 2) = ?q - 1" using q by simp
  then show "H (merkle_node H xs l (?q - 1) @ merkle_node H xs l ?q) = merkle_node H xs (Suc l) (N div 2 ^ Suc l)"
    using merkle_node_Suc [OF lt, of H] q assms(2) unfolding div_Suc_pow by simp
qed

lemma branch_step_ok:
  assumes "branch_ok H xs p N ml l matchh pb" "odd (N div 2 ^ l)" "(N div 2 ^ l) * 2 ^ l < length xs"
    and "branch_step pb matchh ml l (merkle_node H xs l (N div 2 ^ l - 1)) (merkle_node H xs l (N div 2 ^ l)) = (pb', matchh')"
  shows "branch_ok H xs p N ml (Suc l) matchh' pb'" and "pb' = None \<longleftrightarrow> pb = None"
proof -
  show "pb' = None \<longleftrightarrow> pb = None" using assms(4) by (auto simp: branch_step_def split: option.splits if_splits)
  show "branch_ok H xs p N ml (Suc l) matchh' pb'"
  proof (cases pb)
    case None
    then show ?thesis using assms(4) by (simp add: branch_step_def branch_ok_def)
  next
    case (Some br)
    let ?q = "N div 2 ^ l"
    have q: "?q div 2 = (?q - 1) div 2" "even (?q - 1)" "?q - 1 + 1 = ?q" using assms(2) by (auto elim: oddE)
    consider (in_h) "matchh" | (in_inner) "\<not> matchh" "ml = int l" | (other) "\<not> matchh" "ml \<noteq> int l" by blast
    then show ?thesis
    proof cases
      case in_h
      then have "p div 2 ^ l = ?q" "br = map (merkle_sibling H xs p) [0..<l]" using assms(1) Some by (auto simp: branch_ok_def)
      moreover then have "merkle_sibling H xs p l = merkle_node H xs l (?q - 1)" using assms(2) by (simp add: merkle_sibling_def)
      ultimately show ?thesis using in_h Some assms(4) by (auto simp: branch_ok_def branch_step_def div_Suc_pow simp del: power_Suc)
    next
      case in_inner
      then have f: "found_at H xs p N ml br l" using assms(1) Some by (auto simp: branch_ok_def found_at_def)
      then have "p div 2 ^ l = ?q - 1" by (simp add: found_at_def)
      then have "merkle_sibling H xs p l = merkle_node H xs l ?q" "p div 2 ^ l div 2 = ?q div 2"
        using q assms(3) by (simp_all add: merkle_sibling_def Let_def)
      then show ?thesis using in_inner f Some assms(4) by (auto simp: branch_ok_def branch_step_def found_at_def div_Suc_pow simp del: power_Suc)
    next
      case other
      have "\<exists>m \<ge> Suc l. found_at H xs p N ml br m" if "\<exists>m \<ge> l. found_at H xs p N ml br m"
        using that other by (auto simp: found_at_def Suc_le_eq order_le_less)
      then show ?thesis using other Some assms(1,4) by (auto simp: branch_ok_def branch_step_def)
    qed
  qed
qed

definition equal_pair :: "(bytes \<Rightarrow> base_blob) \<Rightarrow> base_blob list \<Rightarrow> nat \<Rightarrow> nat \<Rightarrow> bool" where
  "equal_pair H xs N j \<longleftrightarrow> merkle_node H xs j (N div 2 ^ j - 1) = merkle_node H xs j (N div 2 ^ j)"

lemma pow_dvd_bound: "2 ^ l dvd (c :: nat) \<Longrightarrow> 0 < c \<Longrightarrow> c \<le> 2 ^ 31 \<Longrightarrow> l < 32"
proof -
  assume "2 ^ l dvd c" "0 < c" "c \<le> (2 :: nat) ^ 31"
  then have "2 ^ l \<le> (2::nat) ^ 31" by (meson dvd_imp_le le_trans)
  then show ?thesis using power_le_imp_le_exp [of "2::nat" l 31] by simp
qed

lemma next_power: "2 ^ l dvd c \<Longrightarrow> even (c div 2 ^ l) \<Longrightarrow> 2 ^ Suc l dvd (c :: nat)"
  by (metis dvd_div_iff_mult dvd_mult_div_cancel mult.commute mult_dvd_mono power_Suc dvd_refl)

lemma merkle_carry_step:
  assumes "inner_ok H xs N inner" "l < 32" "even (c div 2 ^ l)" "odd (N div 2 ^ l)" "(N div 2 ^ l) * 2 ^ l < length xs"
    and "branch_step pb matchh ml l (merkle_node H xs l (N div 2 ^ l - 1)) (merkle_node H xs l (N div 2 ^ l)) = (pb1, m1)"
  shows "merkle_carry H inner ml (of_nat c) l (merkle_node H xs l (N div 2 ^ l)) matchh pb mu =
    merkle_carry H inner ml (of_nat c) (Suc l) (merkle_node H xs (Suc l) (N div 2 ^ Suc l)) m1 pb1 (mu \<or> equal_pair H xs N l)"
proof -
  have "inner ! l = merkle_node H xs l (N div 2 ^ l - 1)" using assms(1,2,4) by (simp add: inner_ok_def)
  then show ?thesis using assms(2,3,6) count_bit [of c l] complete_pair(1) [OF assms(4,5), of H]
    by (subst merkle_carry.simps) (simp add: equal_pair_def del: push_bit_of_1)
qed

lemma merkle_carry_run:
  assumes "inner_ok H xs N inner" "N < c" "c \<le> 2 ^ 31"
  shows "l < 32 \<Longrightarrow> c \<le> N + 2 ^ l \<Longrightarrow> 2 ^ l dvd c \<Longrightarrow> (N div 2 ^ l) * 2 ^ l < length xs \<Longrightarrow> branch_ok H xs p N ml l matchh pb \<Longrightarrow>
    \<exists>l' matchh' pb' mu'. merkle_carry H inner ml (of_nat c) l (merkle_node H xs l (N div 2 ^ l)) matchh pb mu =
        Inr (l', merkle_node H xs l' (N div 2 ^ l'), matchh', pb', mu') \<and>
      (mu' \<longleftrightarrow> mu \<or> (\<exists>j. l \<le> j \<and> j < l' \<and> equal_pair H xs N j)) \<and>
      l \<le> l' \<and> l' < 32 \<and> odd (c div 2 ^ l') \<and> c \<le> N + 2 ^ l' \<and> 2 ^ l' dvd c \<and> (N div 2 ^ l') * 2 ^ l' < length xs \<and>
      branch_ok H xs p N ml l' matchh' pb' \<and> (pb' = None \<longleftrightarrow> pb = None) \<and> (l' = l \<or> 2 ^ l' < 2 * length xs)"
proof (induction "32 - l" arbitrary: l matchh pb mu)
  case (Suc n)
  have blk: "c div 2 ^ l = Suc (N div 2 ^ l)" using last_block assms(2) Suc.prems by blast
  show ?case
  proof (cases "odd (c div 2 ^ l)")
    case True
    then have "merkle_carry H inner ml (of_nat c) l (merkle_node H xs l (N div 2 ^ l)) matchh pb mu =
      Inr (l, merkle_node H xs l (N div 2 ^ l), matchh, pb, mu)"
      using Suc.prems(1) count_bit [of c l] by (subst merkle_carry.simps) simp
    then show ?thesis using Suc.prems True by auto
  next
    case False
    then have o: "odd (N div 2 ^ l)" using blk by simp
    obtain pb1 m1 where b: "branch_step pb matchh ml l (merkle_node H xs l (N div 2 ^ l - 1)) (merkle_node H xs l (N div 2 ^ l)) = (pb1, m1)"
      by fastforce
    note bok = branch_step_ok [OF Suc.prems(5) o Suc.prems(4) b]
    have step: "merkle_carry H inner ml (of_nat c) l (merkle_node H xs l (N div 2 ^ l)) matchh pb mu =
      merkle_carry H inner ml (of_nat c) (Suc l) (merkle_node H xs (Suc l) (N div 2 ^ Suc l)) m1 pb1 (mu \<or> equal_pair H xs N l)"
      by (rule merkle_carry_step [OF assms(1) Suc.prems(1) _ o Suc.prems(4) b]) (use False in simp)
    have d: "2 ^ Suc l dvd c" using False Suc.prems(3) next_power by blast
    have l31: "Suc l < 32" using pow_dvd_bound [OF d] assms(2,3) by simp
    have c: "c \<le> N + 2 ^ Suc l" using Suc.prems(2) by simp
    have "1 \<le> N div 2 ^ l" using o by (cases "N div 2 ^ l") auto
    then have "1 * 2 ^ l \<le> (N div 2 ^ l) * 2 ^ l" by (rule mult_le_mono1)
    then have "2 ^ l < length xs" using Suc.prems(4) by linarith
    then have s: "2 ^ Suc l < 2 * length xs" by simp
    have n: "n = 32 - Suc l" using Suc.hyps(2) by simp
    obtain l' matchh' pb' mu' where r: "merkle_carry H inner ml (of_nat c) (Suc l) (merkle_node H xs (Suc l) (N div 2 ^ Suc l)) m1 pb1
          (mu \<or> equal_pair H xs N l) = Inr (l', merkle_node H xs l' (N div 2 ^ l'), matchh', pb', mu')"
        "mu' \<longleftrightarrow> (mu \<or> equal_pair H xs N l) \<or> (\<exists>j. Suc l \<le> j \<and> j < l' \<and> equal_pair H xs N j)"
        "Suc l \<le> l'" "l' < 32" "odd (c div 2 ^ l')" "c \<le> N + 2 ^ l'" "2 ^ l' dvd c" "(N div 2 ^ l') * 2 ^ l' < length xs"
        "branch_ok H xs p N ml l' matchh' pb'" "pb' = None \<longleftrightarrow> pb1 = None" "l' = Suc l \<or> 2 ^ l' < 2 * length xs"
      using Suc.hyps(1) [OF n l31 c d complete_pair(2) [OF o Suc.prems(4)] bok(1), of "mu \<or> equal_pair H xs N l"] by blast
    have "mu' \<longleftrightarrow> mu \<or> (\<exists>j. l \<le> j \<and> j < l' \<and> equal_pair H xs N j)"
      using r(2,3) by (metis Suc_le_eq le_neq_implies_less le_refl less_imp_le)
    moreover have "2 ^ l' < 2 * length xs" using r(11) s by auto
    moreover have "l \<le> l'" using r(3) by simp
    moreover have "pb' = None \<longleftrightarrow> pb = None" using r(10) bok(2) by simp
    ultimately show ?thesis unfolding step using r(1,4-9) by blast
  qed
qed simp

lemma exact_power:
  assumes "2 ^ l dvd c" "odd (c div 2 ^ l)"
  shows "2 ^ j dvd (c :: nat) \<longleftrightarrow> j \<le> l"
proof
  assume j: "2 ^ j dvd c"
  show "j \<le> l"
  proof (rule ccontr)
    assume "\<not> j \<le> l"
    then have "2 ^ Suc l dvd c" using j by (meson dvd_trans le_imp_power_dvd not_less_eq_eq)
    then show False using assms(2) by (auto simp: dvd_def)
  qed
qed (use assms(1) in \<open>metis dvd_trans le_imp_power_dvd\<close>)

definition mutated_upto :: "(bytes \<Rightarrow> base_blob) \<Rightarrow> base_blob list \<Rightarrow> nat \<Rightarrow> bool" where
  "mutated_upto H xs k \<longleftrightarrow> (\<exists>j i. (2 * i + 2) * 2 ^ j \<le> k \<and> merkle_node H xs j (2 * i) = merkle_node H xs j (2 * i + 1))"

definition leaves_ok :: "(bytes \<Rightarrow> base_blob) \<Rightarrow> base_blob list \<Rightarrow> nat \<Rightarrow> nat \<Rightarrow> merkle_state \<Rightarrow> bool" where
  "leaves_ok H xs p k s \<longleftrightarrow>
     ms_count s = of_nat k \<and> inner_ok H xs k (ms_inner s) \<and> (ms_mutated s \<longleftrightarrow> mutated_upto H xs k) \<and>
     (\<forall>br. ms_branch s = Some br \<longrightarrow> (ms_matchlevel s = - 1 \<and> br = [] \<and> k \<le> p) \<or> (\<exists>m. found_at H xs p k (ms_matchlevel s) br m))"

lemma mutated_Suc:
  assumes "2 ^ l dvd Suc k" "odd (Suc k div 2 ^ l)"
  shows "mutated_upto H xs (Suc k) \<longleftrightarrow> mutated_upto H xs k \<or> (\<exists>j < l. equal_pair H xs k j)"
proof
  assume "mutated_upto H xs (Suc k)"
  then obtain j i where ji: "(2 * i + 2) * 2 ^ j \<le> Suc k" "merkle_node H xs j (2 * i) = merkle_node H xs j (2 * i + 1)"
    by (auto simp: mutated_upto_def)
  show "mutated_upto H xs k \<or> (\<exists>j < l. equal_pair H xs k j)"
  proof (cases "(2 * i + 2) * 2 ^ j = Suc k")
    case True
    have e: "Suc k = 2 ^ Suc j * (i + 1)" unfolding True [symmetric] by simp
    then have "2 ^ Suc j dvd Suc k" by (metis dvd_triv_left)
    then have jl: "Suc j \<le> l" using exact_power [OF assms] by blast
    have d: "2 ^ j dvd Suc k" unfolding True [symmetric] by (rule dvd_triv_right)
    have "Suc k div 2 ^ j = 2 * i + 2" unfolding True [symmetric] by simp
    then have "k div 2 ^ j = 2 * i + 1" using last_block [OF _ _ d, of k] by simp
    then have "equal_pair H xs k j" using ji(2) by (simp add: equal_pair_def)
    then show ?thesis using jl Suc_le_eq by blast
  next
    case False
    then have "(2 * i + 2) * 2 ^ j \<le> k" using ji(1) by linarith
    then show ?thesis using ji(2) unfolding mutated_upto_def by blast
  qed
next
  assume "mutated_upto H xs k \<or> (\<exists>j < l. equal_pair H xs k j)"
  then show "mutated_upto H xs (Suc k)"
  proof
    assume "mutated_upto H xs k"
    then show ?thesis unfolding mutated_upto_def using le_SucI by blast
  next
    assume "\<exists>j < l. equal_pair H xs k j"
    then obtain j where j: "j < l" "equal_pair H xs k j" by blast
    then have d: "2 ^ j dvd Suc k" "2 ^ Suc j dvd Suc k" using exact_power [OF assms] by (auto simp del: power_Suc)
    from d(2) obtain i where i: "Suc k = 2 ^ Suc j * Suc i" by (metis dvd_def mult_0_right nat.distinct(1) not0_implies_Suc)
    then have "Suc k div 2 ^ j = 2 * i + 2" by simp
    then have "k div 2 ^ j = 2 * i + 1" using last_block [OF _ _ d(1), of k] by simp
    then have "merkle_node H xs j (2 * i) = merkle_node H xs j (2 * i + 1)" using j(2) by (simp add: equal_pair_def)
    moreover have "(2 * i + 2) * 2 ^ j \<le> Suc k" unfolding i by simp
    ultimately show ?thesis unfolding mutated_upto_def by blast
  qed
qed

lemma div_pow_Suc:
  assumes "2 ^ l dvd Suc k" "odd (Suc k div 2 ^ l)" "l < j"
  shows "Suc k div 2 ^ j = k div 2 ^ j"
proof -
  have "\<not> 2 ^ j dvd Suc k" using exact_power [OF assms(1,2)] assms(3) by simp
  then show ?thesis by (simp add: div_Suc dvd_eq_mod_eq_0)
qed

lemma even_below:
  assumes "2 ^ l dvd (c :: nat)" "j < l"
  shows "even (c div 2 ^ j)"
proof -
  have "2 ^ Suc j dvd c" using assms by (metis Suc_leI dvd_trans le_imp_power_dvd)
  then show ?thesis by (auto simp: dvd_def)
qed

lemma inner_ok_Suc:
  assumes "inner_ok H xs k inner" "2 ^ l dvd Suc k" "odd (Suc k div 2 ^ l)" "l < 32"
  shows "inner_ok H xs (Suc k) (inner[l := merkle_node H xs l (k div 2 ^ l)])"
  unfolding inner_ok_def
proof (intro conjI allI impI)
  fix j assume j: "j < (32::nat)" "odd (Suc k div 2 ^ j)"
  have b: "Suc k div 2 ^ l = Suc (k div 2 ^ l)" using last_block [OF _ _ assms(2), of k] by simp
  consider "j = l" | "l < j" | "j < l" by linarith
  then show "inner[l := merkle_node H xs l (k div 2 ^ l)] ! j = merkle_node H xs j (Suc k div 2 ^ j - 1)"
  proof cases
    case 1
    then show ?thesis using b assms(1,4) by (simp add: inner_ok_def)
  next
    case 2
    then show ?thesis using div_pow_Suc [OF assms(2,3) 2] assms(1) j by (simp add: inner_ok_def)
  next
    case 3
    then show ?thesis using even_below [OF assms(2) 3] j by simp
  qed
qed (use assms(1) in \<open>simp add: inner_ok_def\<close>)

lemma branch_ok_Suc:
  assumes "branch_ok H xs p k ml l matchh (Some br)" "2 ^ l dvd Suc k" "odd (Suc k div 2 ^ l)"
  shows "((if matchh then int l else ml) = - 1 \<and> br = [] \<and> Suc k \<le> p) \<or>
    (\<exists>m. found_at H xs p (Suc k) (if matchh then int l else ml) br m)"
proof -
  have b: "Suc k div 2 ^ l = Suc (k div 2 ^ l)" using last_block [OF _ _ assms(2), of k] by simp
  show ?thesis
  proof (cases matchh)
    case True
    then have "found_at H xs p (Suc k) (int l) br l" using assms(1,3) b by (simp add: branch_ok_def found_at_def)
    then show ?thesis using True by auto
  next
    case False
    have "found_at H xs p (Suc k) ml br m" if m: "l \<le> m" "found_at H xs p k ml br m" for m
    proof -
      have "m \<noteq> l" using m(2) b assms(3) by (auto simp: found_at_def)
      then show ?thesis using m div_pow_Suc [OF assms(2,3), of m] by (simp add: found_at_def)
    qed
    then show ?thesis using False assms(1) by (auto simp: branch_ok_def)
  qed
qed

lemma not_found_at_self: "\<not> found_at H xs p p ml br m"
  by (cases "p div 2 ^ m") (auto simp: found_at_def)

lemma leaves_ok_Suc:
  assumes "leaves_ok H xs p k s" "2 ^ l dvd Suc k" "odd (Suc k div 2 ^ l)" "l < 32"
    and "branch_ok H xs p k (ms_matchlevel s) l matchh pb"
    and "mu \<longleftrightarrow> ms_mutated s \<or> (\<exists>j. 0 \<le> j \<and> j < l \<and> equal_pair H xs k j)"
  shows "leaves_ok H xs p (Suc k)
    \<lparr>ms_count = of_nat (Suc k), ms_inner = (ms_inner s)[l := merkle_node H xs l (k div 2 ^ l)],
     ms_matchlevel = (if matchh then int l else ms_matchlevel s), ms_mutated = mu, ms_branch = pb\<rparr>"
proof -
  have "inner_ok H xs (Suc k) ((ms_inner s)[l := merkle_node H xs l (k div 2 ^ l)])"
    using inner_ok_Suc [OF _ assms(2,3,4)] assms(1) by (simp add: leaves_ok_def)
  moreover have "mu \<longleftrightarrow> mutated_upto H xs (Suc k)"
    using assms(1,6) mutated_Suc [OF assms(2,3), of H xs] by (simp add: leaves_ok_def)
  moreover have "((if matchh then int l else ms_matchlevel s) = - 1 \<and> br = [] \<and> Suc k \<le> p) \<or>
    (\<exists>m. found_at H xs p (Suc k) (if matchh then int l else ms_matchlevel s) br m)" if "pb = Some br" for br
    using branch_ok_Suc [OF _ assms(2,3)] assms(5) that by simp
  ultimately show ?thesis unfolding leaves_ok_def by simp
qed

lemma merkle_leaves_start:
  assumes "leaves_ok H xs p k s" "ms_count s = of_nat p \<longleftrightarrow> k = p"
  shows "branch_ok H xs p k (ms_matchlevel s) 0 (ms_count s = of_nat p) (ms_branch s)"
  unfolding branch_ok_def assms(2)
proof (intro allI impI)
  fix br assume "ms_branch s = Some br"
  then have "(ms_matchlevel s = - 1 \<and> br = [] \<and> k \<le> p) \<or> (\<exists>m. found_at H xs p k (ms_matchlevel s) br m)"
    using assms(1) by (simp add: leaves_ok_def)
  then show "if k = p then p div 2 ^ 0 = k div 2 ^ 0 \<and> br = map (merkle_sibling H xs p) [0..<0]
    else ms_matchlevel s = - 1 \<and> br = [] \<and> k < p \<or> (\<exists>m \<ge> 0. found_at H xs p k (ms_matchlevel s) br m)"
    using not_found_at_self by auto
qed

lemma merkle_leaves_run:
  assumes "length xs \<le> 2 ^ 31" "p < 2 ^ 32"
  shows "xs = ys @ zs \<Longrightarrow> leaves_ok H xs p (length ys) s \<Longrightarrow>
    \<exists>s'. merkle_leaves H (of_nat p) zs s = Inr s' \<and> leaves_ok H xs p (length xs) s' \<and> (ms_branch s' = None \<longleftrightarrow> ms_branch s = None)"
proof (induction zs arbitrary: ys s)
  case (Cons h zs)
  let ?k = "length ys"
  have k: "?k < length xs" using Cons.prems(1) by simp
  have h: "h = merkle_node H xs 0 (?k div 2 ^ 0)" using Cons.prems(1) by (simp add: merkle_node_0)
  have m: "ms_count s = of_nat p \<longleftrightarrow> ?k = p"
    using Cons.prems(2) assms k by (auto simp: leaves_ok_def word_of_nat_eq_iff take_bit_nat_eq_self)
  note b0 = merkle_leaves_start [OF Cons.prems(2) m]
  have io: "inner_ok H xs ?k (ms_inner s)" using Cons.prems(2) by (simp add: leaves_ok_def)
  have c: "?k < Suc ?k" "Suc ?k \<le> 2 ^ 31" "0 < (32::nat)" "Suc ?k \<le> ?k + 2 ^ 0" "2 ^ 0 dvd Suc ?k" "(?k div 2 ^ 0) * 2 ^ 0 < length xs"
    using k assms(1) by auto
  obtain l matchh pb mu where r: "merkle_carry H (ms_inner s) (ms_matchlevel s) (of_nat (Suc ?k)) 0 (merkle_node H xs 0 (?k div 2 ^ 0))
        (ms_count s = of_nat p) (ms_branch s) (ms_mutated s) = Inr (l, merkle_node H xs l (?k div 2 ^ l), matchh, pb, mu)"
      "mu \<longleftrightarrow> ms_mutated s \<or> (\<exists>j. 0 \<le> j \<and> j < l \<and> equal_pair H xs ?k j)" "l < 32" "odd (Suc ?k div 2 ^ l)" "2 ^ l dvd Suc ?k"
      "branch_ok H xs p ?k (ms_matchlevel s) l matchh pb" "pb = None \<longleftrightarrow> ms_branch s = None"
    using merkle_carry_run [OF io c b0, of "ms_mutated s"] by (elim exE conjE) (rule that)
  let ?s = "\<lparr>ms_count = of_nat (Suc ?k), ms_inner = (ms_inner s)[l := merkle_node H xs l (?k div 2 ^ l)],
    ms_matchlevel = (if matchh then int l else ms_matchlevel s), ms_mutated = mu, ms_branch = pb\<rparr>"
  have "leaves_ok H xs p (length (ys @ [h])) ?s"
    using leaves_ok_Suc [OF Cons.prems(2) r(5,4,3,6,2)] by simp
  then obtain s' where "merkle_leaves H (of_nat p) zs ?s = Inr s'" "leaves_ok H xs p (length xs) s'" "ms_branch s' = None \<longleftrightarrow> pb = None"
    using Cons.IH [of "ys @ [h]" ?s] Cons.prems(1) by auto
  moreover have "ms_count s + 1 = of_nat (Suc ?k)" using Cons.prems(2) by (simp add: leaves_ok_def)
  ultimately show ?case using r(1,7) h by (simp add: Let_def add.commute)
qed auto

lemma lowest_level_run:
  "l < 32 \<Longrightarrow> 2 ^ l dvd n \<Longrightarrow> 0 < n \<Longrightarrow> n \<le> 2 ^ 31 \<Longrightarrow>
   \<exists>l'. lowest_level (of_nat n) l = Inr l' \<and> l' < 32 \<and> 2 ^ l' dvd n \<and> odd (n div 2 ^ l')"
proof (induction "32 - l" arbitrary: l)
  case (Suc k)
  show ?case
  proof (cases "odd (n div 2 ^ l)")
    case True
    then show ?thesis using Suc.prems count_bit [of n l] by (subst lowest_level.simps) auto
  next
    case False
    then have d: "2 ^ Suc l dvd n" using Suc.prems(2) next_power by blast
    then have "Suc l < 32" using pow_dvd_bound Suc.prems(3,4) by blast
    then show ?thesis using Suc.hyps(1) [of "Suc l"] Suc.hyps(2) d False Suc.prems count_bit [of n l]
      by (subst lowest_level.simps) (simp del: power_Suc push_bit_of_1)
  qed
qed simp

definition sweep_branch ::
  "(bytes \<Rightarrow> base_blob) \<Rightarrow> base_blob list \<Rightarrow> nat \<Rightarrow> int \<Rightarrow> nat \<Rightarrow> nat \<Rightarrow> bool \<Rightarrow> base_blob list option \<Rightarrow> bool" where
  "sweep_branch H xs p ml c l matchh pb \<longleftrightarrow>
     (\<forall>br. pb = Some br \<longrightarrow>
        (if matchh then p div 2 ^ l = c div 2 ^ l - 1 \<and> br = map (merkle_sibling H xs p) [0..<l]
         else (\<exists>m > l. found_at H xs p (length xs) ml br m)))"

text \<open>One step of the sweep: the last node of a level pairs with itself.\<close>

lemma sweep_up:
  assumes "2 ^ l dvd c" "odd (c div 2 ^ l)" "length xs \<le> c" "c < length xs + 2 ^ l" "c \<noteq> 2 ^ l"
  shows "2 ^ Suc l dvd c + 2 ^ l" "c + 2 ^ l \<le> length xs + 2 ^ Suc l" "2 ^ Suc l < 2 * length xs"
    "2 * (length xs div 2 ^ Suc l) = c div 2 ^ l - 1"
    "(length xs div 2 ^ Suc l) * 2 ^ Suc l < length xs"
    "H (merkle_node H xs l (c div 2 ^ l - 1) @ merkle_node H xs l (c div 2 ^ l - 1)) = merkle_node H xs (Suc l) (length xs div 2 ^ Suc l)"
proof -
  let ?n = "length xs"
  obtain r where r: "c div 2 ^ l = 2 * r + 1" using assms(2) by (auto elim: oddE)
  then have c: "c = (2 * r + 1) * 2 ^ l" using assms(1) by (metis dvd_div_mult_self)
  have r0: "0 < r" using c assms(5) by (cases r) auto
  have c1: "c + 2 ^ l = 2 ^ Suc l * Suc r" unfolding c by (simp add: algebra_simps)
  then show d: "2 ^ Suc l dvd c + 2 ^ l" by (metis dvd_triv_left)
  show le: "c + 2 ^ l \<le> ?n + 2 ^ Suc l" using assms(4) by simp
  have "2 * 2 ^ l \<le> r * (2 * 2 ^ l)" using r0 by simp
  moreover have "r * (2 * 2 ^ l) < ?n" using c assms(4) by (simp add: algebra_simps)
  ultimately show "2 ^ Suc l < 2 * ?n" unfolding power_Suc by linarith
  have "(c + 2 ^ l) div 2 ^ Suc l = Suc r" unfolding c1 by simp
  moreover have "(c + 2 ^ l) div 2 ^ Suc l = Suc (?n div 2 ^ Suc l)"
    by (rule last_block [OF _ le d]) (rule le_less_trans [OF assms(3)], simp)
  ultimately have i: "?n div 2 ^ Suc l = r" by simp
  then show i2: "2 * (?n div 2 ^ Suc l) = c div 2 ^ l - 1" using r by simp
  show lt: "(?n div 2 ^ Suc l) * 2 ^ Suc l < ?n" unfolding i using c assms(4) by (simp add: algebra_simps)
  have "\<not> (2 * (?n div 2 ^ Suc l) + 1) * 2 ^ l < ?n" unfolding i using c assms(3) by simp
  then show "H (merkle_node H xs l (c div 2 ^ l - 1) @ merkle_node H xs l (c div 2 ^ l - 1)) = merkle_node H xs (Suc l) (?n div 2 ^ Suc l)"
    using merkle_node_Suc [OF lt, of H] i2 by simp
qed

lemma sweep_bound:
  assumes "2 ^ l dvd c" "odd (c div 2 ^ l)" "c \<le> (2 :: nat) ^ 31" "c \<noteq> 2 ^ l" "l < 32"
  shows "c + 2 ^ l \<le> 2 ^ 31"
proof -
  obtain r where "c div 2 ^ l = 2 * r + 1" using assms(2) by (auto elim: oddE)
  then have c: "c = (2 * r + 1) * 2 ^ l" using assms(1) by (metis dvd_div_mult_self)
  have "l \<noteq> 31" using c assms(3,4) by (cases r) auto
  then obtain d where d: "31 = Suc l + d" using assms(5) less_imp_Suc_add [of l 31] by auto
  have p: "(2::nat) ^ 31 = 2 * 2 ^ d * 2 ^ l" unfolding d by (simp add: power_add)
  then have "(2 * r + 1) * 2 ^ l \<le> 2 * 2 ^ d * 2 ^ l" using assms(3) c by (simp only:)
  then have "2 * r + 1 \<le> 2 * 2 ^ d" unfolding mult_le_cancel2 by simp
  then have "2 * r + 2 \<le> 2 * 2 ^ d" by presburger
  then have "(2 * r + 2) * 2 ^ l \<le> 2 * 2 ^ d * 2 ^ l" by (rule mult_le_mono1)
  then show ?thesis unfolding p c by (simp add: algebra_simps)
qed

lemma sweep_branch_up:
  assumes "sweep_branch H xs p ml c l matchh pb" "2 * (length xs div 2 ^ Suc l) = c div 2 ^ l - 1" "length xs \<le> c" "2 ^ l dvd c" "odd (c div 2 ^ l)"
  shows "branch_ok H xs p (length xs) ml (Suc l) matchh
    (if matchh then map_option (\<lambda>b. b @ [merkle_node H xs l (c div 2 ^ l - 1)]) pb else pb)"
proof (cases matchh)
  case True
  have "merkle_sibling H xs p l = merkle_node H xs l (c div 2 ^ l - 1)" "p div 2 ^ Suc l = length xs div 2 ^ Suc l"
    if "p div 2 ^ l = c div 2 ^ l - 1"
  proof -
    have e: "c div 2 ^ l - 1 + 1 = c div 2 ^ l" "even (c div 2 ^ l - 1)" using assms(5) by (auto elim: oddE)
    have "c div 2 ^ l * 2 ^ l = c" using assms(4) by simp
    then show "merkle_sibling H xs p l = merkle_node H xs l (c div 2 ^ l - 1)"
      using that e assms(3) by (simp add: merkle_sibling_def Let_def del: dvd_div_mult_self)
    show "p div 2 ^ Suc l = length xs div 2 ^ Suc l" using that assms(2) unfolding div_Suc_pow [of p] by simp
  qed
  then show ?thesis using True assms(1) by (auto simp: branch_ok_def sweep_branch_def)
next
  case False
  then show ?thesis using assms(1) by (auto simp: branch_ok_def sweep_branch_def Suc_le_eq)
qed

lemma sweep_branch_level:
  assumes "branch_ok H xs p (length xs) ml l matchh pb" "p < length xs" "c div 2 ^ l = Suc (length xs div 2 ^ l)" "odd (c div 2 ^ l)"
  shows "sweep_branch H xs p ml c l matchh pb"
proof -
  have "m > l" if "l \<le> m" "found_at H xs p (length xs) ml br m" for m br
    using that assms(3,4) by (cases "m = l") (auto simp: found_at_def)
  then show ?thesis using assms by (fastforce simp: branch_ok_def sweep_branch_def)
qed

lemma count_is_power:
  assumes "l < 32" "c \<le> 2 ^ 31"
  shows "(of_nat c :: u32) = push_bit l 1 \<longleftrightarrow> c = 2 ^ l"
proof -
  have p: "push_bit l 1 = (of_nat (2 ^ l) :: u32)" by simp
  have "(2::nat) ^ l < 2 ^ 32" using assms(1) by (intro power_strict_increasing) auto
  then show ?thesis unfolding p word_of_nat_eq_iff using assms by (simp add: take_bit_nat_eq_self)
qed

lemma merkle_sweep_run:
  assumes "inner_ok H xs (length xs) inner" "p < length xs"
  shows "l < 32 \<Longrightarrow> 2 ^ l dvd c \<Longrightarrow> odd (c div 2 ^ l) \<Longrightarrow> length xs \<le> c \<Longrightarrow> c < length xs + 2 ^ l \<Longrightarrow> c \<le> 2 ^ 31 \<Longrightarrow>
    2 ^ l < 2 * length xs \<Longrightarrow> sweep_branch H xs p ml c l matchh pb \<Longrightarrow>
    \<exists>L pb'. merkle_sweep H inner ml (of_nat c) l (merkle_node H xs l (c div 2 ^ l - 1)) matchh pb = Inr (merkle_node H xs L 0, pb') \<and>
      length xs \<le> 2 ^ L \<and> 2 ^ L < 2 * length xs \<and> (pb' = None \<longleftrightarrow> pb = None) \<and> (\<forall>br. pb' = Some br \<longrightarrow> br = map (merkle_sibling H xs p) [0..<L])"
proof (induction "32 - l" arbitrary: l c matchh pb rule: less_induct)
  case less
  show ?case
  proof (cases "c = 2 ^ l")
    case True
    have "br = map (merkle_sibling H xs p) [0..<l]" if "pb = Some br" for br
    proof -
      have "even (length xs div 2 ^ m)" if "l < m" for m
      proof -
        have "length xs < 2 ^ m" using less.prems(4) True power_strict_increasing [OF that, of "2::nat"] by linarith
        then show ?thesis by simp
      qed
      then show ?thesis using less.prems(8) that by (auto simp: sweep_branch_def found_at_def split: if_splits)
    qed
    moreover have "merkle_sweep H inner ml (of_nat c) l (merkle_node H xs l (c div 2 ^ l - 1)) matchh pb = Inr (merkle_node H xs l 0, pb)"
      using count_is_power [OF less.prems(1,6)] less.prems(1) True by (subst merkle_sweep.simps) simp
    ultimately show ?thesis using less.prems True by auto
  next
    case False
    let ?n = "length xs" and ?c = "c + 2 ^ l"
    let ?pb = "if matchh then map_option (\<lambda>b. b @ [merkle_node H xs l (c div 2 ^ l - 1)]) pb else pb"
    note up = sweep_up(1-5) [OF less.prems(2-5) False] sweep_up(6) [OF less.prems(2-5) False, of H]
    have c31: "?c \<le> 2 ^ 31" by (rule sweep_bound [OF less.prems(2,3,6) False less.prems(1)])
    have nc: "?n < ?c" using less.prems(4) by (rule le_less_trans) simp
    have l31: "Suc l < 32" using pow_dvd_bound [OF up(1)] c31 nc by simp
    have bok: "branch_ok H xs p ?n ml (Suc l) matchh ?pb"
      by (rule sweep_branch_up [OF less.prems(8) up(4) less.prems(4,2,3)])
    obtain l' matchh' pb' mu' where r:
        "merkle_carry H inner ml (of_nat ?c) (Suc l) (merkle_node H xs (Suc l) (?n div 2 ^ Suc l)) matchh ?pb False =
          Inr (l', merkle_node H xs l' (?n div 2 ^ l'), matchh', pb', mu')"
        "Suc l \<le> l'" "l' < 32" "odd (?c div 2 ^ l')" "?c \<le> ?n + 2 ^ l'" "2 ^ l' dvd ?c" "(?n div 2 ^ l') * 2 ^ l' < ?n"
        "branch_ok H xs p ?n ml l' matchh' pb'" "pb' = None \<longleftrightarrow> ?pb = None" "l' = Suc l \<or> 2 ^ l' < 2 * ?n"
      using merkle_carry_run [OF assms(1) nc c31 l31 up(2,1,5) bok, of False] by (elim exE conjE) (rule that)
    have blk: "?c div 2 ^ l' = Suc (?n div 2 ^ l')" by (rule last_block [OF nc r(5,6)])
    then have "?c = (?n div 2 ^ l') * 2 ^ l' + 2 ^ l'" using r(6) by (metis add.commute dvd_div_mult_self mult_Suc)
    then have lt: "?c < ?n + 2 ^ l'" using r(7) by linarith
    have s: "2 ^ l' < 2 * ?n" using r(10) up(3) by blast
    have sb: "sweep_branch H xs p ml ?c l' matchh' pb'" by (rule sweep_branch_level [OF r(8) assms(2) blk r(4)])
    have m: "32 - l' < 32 - l" using r(2) less.prems(1) by linarith
    have le: "?n \<le> ?c" using nc by simp
    have "merkle_sweep H inner ml (of_nat c) l (merkle_node H xs l (c div 2 ^ l - 1)) matchh pb =
      merkle_sweep H inner ml (of_nat ?c) l' (merkle_node H xs l' (?c div 2 ^ l' - 1)) matchh' pb'"
      using count_is_power [OF less.prems(1,6)] less.prems(1) False r(1) up(6) blk
      by (subst merkle_sweep.simps) (simp add: Let_def del: power_Suc)
    moreover have "?pb = None \<longleftrightarrow> pb = None" by simp
    ultimately show ?thesis using less.hyps [OF m r(3,6,4) le lt c31 s sb] r(9) by (simp only:)
  qed
qed

text \<open>The whole computation; \<open>p\<close> is the wanted position, or the value of \<^verbatim>\<open>(uint32_t)-1\<close> when no branch is wanted.\<close>

lemma MerkleComputation_run:
  assumes "xs \<noteq> []" "length xs \<le> 2 ^ 31" "p < 2 ^ 32" "want \<longrightarrow> p < length xs"
  shows "\<exists>L pb. MerkleComputation H xs (of_nat p) want = Inr (merkle_tree H xs, mutated_upto H xs (length xs), pb) \<and>
    merkle_tree H xs = merkle_node H xs L 0 \<and> length xs \<le> 2 ^ L \<and>
    pb = (if want then Some (map (merkle_sibling H xs p) [0..<L]) else None)"
proof -
  let ?n = "length xs"
  let ?s0 = "\<lparr>ms_count = 0, ms_inner = replicate 32 (replicate 32 0), ms_matchlevel = - 1, ms_mutated = False,
    ms_branch = (if want then Some [] else None)\<rparr>"
  have "leaves_ok H xs p (length []) ?s0" by (auto simp: leaves_ok_def inner_ok_def mutated_upto_def)
  then obtain s where s: "merkle_leaves H (of_nat p) xs ?s0 = Inr s" "leaves_ok H xs p ?n s" "ms_branch s = None \<longleftrightarrow> \<not> want"
    using merkle_leaves_run [OF assms(2,3), of "[]" xs H ?s0] by (cases want) auto
  obtain l where l: "lowest_level (of_nat ?n) 0 = Inr l" "l < 32" "2 ^ l dvd ?n" "odd (?n div 2 ^ l)"
    using lowest_level_run [of 0 ?n] assms(1,2) by auto
  have io: "inner_ok H xs ?n (ms_inner s)" using s(2) by (simp add: leaves_ok_def)
  define q where "q = (if want then p else 0)"
  have q: "q < ?n" using assms(1,4) by (auto simp: q_def)
  have sb: "sweep_branch H xs q (ms_matchlevel s) ?n l (ms_matchlevel s = int l) (ms_branch s)"
    unfolding sweep_branch_def
  proof (intro allI impI)
    fix br assume b: "ms_branch s = Some br"
    then have w: "q = p" "p < ?n" using s(3) assms(4) by (auto simp: q_def)
    then obtain m where m: "found_at H xs q ?n (ms_matchlevel s) br m" using s(2) b by (auto simp: leaves_ok_def)
    then have "l \<le> m" using even_below [OF l(3), of m] by (auto simp: found_at_def not_le [symmetric])
    then show "if ms_matchlevel s = int l then q div 2 ^ l = ?n div 2 ^ l - 1 \<and> br = map (merkle_sibling H xs q) [0..<l]
      else \<exists>m > l. found_at H xs q ?n (ms_matchlevel s) br m"
      using m by (auto simp: found_at_def order_le_less)
  qed
  have "2 ^ l \<le> ?n" using l(3) assms(1) by (simp add: dvd_imp_le)
  then have l2: "2 ^ l < 2 * ?n" "?n < ?n + 2 ^ l" using q by auto
  obtain L pb where r: "merkle_sweep H (ms_inner s) (ms_matchlevel s) (of_nat ?n) l (merkle_node H xs l (?n div 2 ^ l - 1))
        (ms_matchlevel s = int l) (ms_branch s) = Inr (merkle_node H xs L 0, pb)"
      "?n \<le> 2 ^ L" "2 ^ L < 2 * ?n" "pb = None \<longleftrightarrow> ms_branch s = None" "\<forall>br. pb = Some br \<longrightarrow> br = map (merkle_sibling H xs q) [0..<L]"
    using merkle_sweep_run [OF io q l(2-4) order_refl l2(2) assms(2) l2(1) sb] by (elim exE conjE) (rule that)
  have i: "ms_inner s ! l = merkle_node H xs l (?n div 2 ^ l - 1)" using io l(2,4) by (simp add: inner_ok_def)
  have t: "merkle_tree H xs = merkle_node H xs L 0" by (rule merkle_tree_node [OF r(2,3)])
  have "MerkleComputation H xs (of_nat p) want = Inr (merkle_tree H xs, mutated_upto H xs ?n, pb)"
    using assms(1) s(1,2) l(1) r(1) i t by (simp add: MerkleComputation_def Let_def leaves_ok_def)
  moreover have "pb = (if want then Some (map (merkle_sibling H xs p) [0..<L]) else None)"
    using r(4,5) s(3) by (cases pb) (auto simp: q_def)
  ultimately show ?thesis using t r(2) by blast
qed

text \<open>
  C7. The constant-space Merkle computation is correct. For up to 2^31 leaves it never shifts or indexes out of range. The root is that of
  the tree built level by level, in which a node without a partner is paired with itself, and \<^verbatim>\<open>mutated\<close> is set exactly when two complete
  sibling subtrees have equal hashes. For every position the computed branch, folded over the leaf by
  \<^verbatim>\<open>ComputeMerkleRootFromBranch\<close>, gives the root.
\<close>

theorem merkle_root_and_branch:
  assumes "xs \<noteq> []" "length xs \<le> 2 ^ 31"
  shows "ComputeMerkleRoot H xs = Inr (merkle_tree H xs, mutated_upto H xs (length xs)) \<and>
    (\<forall>p < length xs. \<exists>br. ComputeMerkleBranch H xs (of_nat p) = Inr br \<and>
      ComputeMerkleRootFromBranch H (xs ! p) br (of_nat p) = merkle_tree H xs)"
proof (intro conjI allI impI)
  have m: "(- 1 :: u32) = of_nat (2 ^ 32 - 1)" by simp
  have "\<exists>pb. MerkleComputation H xs (- 1) False = Inr (merkle_tree H xs, mutated_upto H xs (length xs), pb)"
    unfolding m using MerkleComputation_run [OF assms, of "2 ^ 32 - 1" False H] by auto
  then show "ComputeMerkleRoot H xs = Inr (merkle_tree H xs, mutated_upto H xs (length xs))"
    by (auto simp: ComputeMerkleRoot_def)
next
  fix p assume p: "p < length xs"
  then have p32: "p < 2 ^ 32" using assms(2) by simp
  obtain L where L: "MerkleComputation H xs (of_nat p) True = Inr (merkle_tree H xs, mutated_upto H xs (length xs),
      Some (map (merkle_sibling H xs p) [0..<L]))" "merkle_tree H xs = merkle_node H xs L 0" "length xs \<le> 2 ^ L"
    using MerkleComputation_run [OF assms p32, of True H] p by auto
  have "ComputeMerkleRootFromBranch H (xs ! p) (map (merkle_sibling H xs p) [0..<L]) (of_nat p) = merkle_tree H xs"
    using ComputeMerkleRootFromBranch_climb [OF p p32, of H 0 L] L(2,3) p by (simp add: merkle_node_0)
  then show "\<exists>br. ComputeMerkleBranch H xs (of_nat p) = Inr br \<and> ComputeMerkleRootFromBranch H (xs ! p) br (of_nat p) = merkle_tree H xs"
    using L(1) by (simp add: ComputeMerkleBranch_def)
qed

theorem merkle_root_and_branch_witness:
  "ComputeMerkleRoot (\<lambda>b. b) [[1], [2], [3], [4], [5], [6], [5], [6]] = Inr ([1, 2, 3, 4, 5, 6, 5, 6], True) \<and>
   ComputeMerkleRoot (\<lambda>b. b) [[1], [2], [3], [4], [5], [6]] = Inr ([1, 2, 3, 4, 5, 6, 5, 6], False) \<and>
   \<not> mutated_upto (\<lambda>b. b) [[1], [2], [3], [4], [5], [6]] 6 \<and>
   ComputeMerkleBranch (\<lambda>b. b) [[1], [2], [3], [4], [5], [6]] 4 = Inr [[6], [5, 6], [1, 2, 3, 4]] \<and>
   ComputeMerkleRootFromBranch (\<lambda>b. b) [5] [[6], [5, 6], [1, 2, 3, 4]] 4 = [1, 2, 3, 4, 5, 6, 5, 6]"
proof -
  let ?xs = "[[1], [2], [3], [4], [5], [6]] :: base_blob list"
  have r: "ComputeMerkleRoot (\<lambda>b. b) ?xs = Inr ([1, 2, 3, 4, 5, 6, 5, 6], False)" by code_simp
  have "ComputeMerkleRoot (\<lambda>b. b) [[1], [2], [3], [4], [5], [6], [5], [6]] = Inr ([1, 2, 3, 4, 5, 6, 5, 6], True)" by code_simp
  moreover have b: "ComputeMerkleBranch (\<lambda>b. b) ?xs 4 = Inr [[6], [5, 6], [1, 2, 3, 4]]" by code_simp
  moreover have n: "length ?xs = 6" by simp
  have "?xs \<noteq> []" "length ?xs \<le> 2 ^ 31" by simp_all
  note ok = merkle_root_and_branch [OF this, of "\<lambda>b. b", unfolded n]
  have "\<not> mutated_upto (\<lambda>b. b) ?xs 6" using ok r by simp
  moreover have "ComputeMerkleRootFromBranch (\<lambda>b. b) [5] [[6], [5, 6], [1, 2, 3, 4]] 4 = [1, 2, 3, 4, 5, 6, 5, 6]"
    using spec [OF conjunct2 [OF ok], of 4] conjunct1 [OF ok] r b by simp
  ultimately show ?thesis using r by blast
qed

end
