(* ===== verification/Coins.thy ===== *)
theory Coins
  imports Transaction "HOL-Library.AList"
begin

unbundle bit_operations_syntax

text \<open>
  \<^verbatim>\<open>coins.h\<close>, \<^verbatim>\<open>coins.cpp\<close> and the coin database of \<^verbatim>\<open>txdb.cpp\<close>: the set of unspent outputs as a database below a
  stack of write-back caches. A view is its table of virtual functions over a state; a cache holds
  the state of the view below it. Memory accounting takes the memory of a coin as a parameter.
\<close>

section \<open>Coins\<close>

record Coin =
  coin_out :: CTxOut
  coin_fCoinBase :: bool
  coin_nHeight :: "31 word"

definition Coin_of :: "CTxOut \<Rightarrow> int \<Rightarrow> bool \<Rightarrow> Coin" where
  "Coin_of out nHeightIn fCoinBaseIn =
     \<lparr>coin_out = out, coin_fCoinBase = fCoinBaseIn, coin_nHeight = word_of_int nHeightIn\<rparr>"

definition coinEmpty :: Coin where
  "coinEmpty = \<lparr>coin_out = txout_null, coin_fCoinBase = False, coin_nHeight = 0\<rparr>"

definition IsSpent :: "Coin \<Rightarrow> bool" where "IsSpent c = txout_IsNull (coin_out c)"

record CCoinsCacheEntry =
  ce_coin :: Coin
  ce_flags :: u8

definition DIRTY :: u8 where "DIRTY = push_bit 0 1"
definition FRESH :: u8 where "FRESH = push_bit 1 1"

text \<open>\<^verbatim>\<open>CCoinsMap\<close>: an association list with distinct keys, in the order an iterator visits.\<close>

type_synonym CCoinsMap = "(COutPoint \<times> CCoinsCacheEntry) list"

section \<open>Views\<close>

text \<open>The virtual functions of \<^verbatim>\<open>CCoinsView\<close> over a state \<open>'s\<close>.\<close>

record 's CCoinsView =
  v_GetCoin :: "'s \<Rightarrow> COutPoint \<Rightarrow> Coin option \<times> 's"
  v_GetBestBlock :: "'s \<Rightarrow> base_blob \<times> 's"
  v_BatchWrite :: "'s \<Rightarrow> CCoinsMap \<Rightarrow> base_blob \<Rightarrow> (bool \<times> 's) outcome"

record 's CCoinsViewCache =
  cv_base :: 's
  cv_hashBlock :: base_blob
  cacheCoins :: CCoinsMap
  cachedCoinsUsage :: u64

definition new_cache :: "'s \<Rightarrow> 's CCoinsViewCache" where
  "new_cache baseIn = \<lparr>cv_base = baseIn, cv_hashBlock = replicate 32 0, cacheCoins = [], cachedCoinsUsage = 0\<rparr>"

definition FetchCoin ::
  "'s CCoinsView \<Rightarrow> (Coin \<Rightarrow> u64) \<Rightarrow> 's CCoinsViewCache \<Rightarrow> COutPoint \<Rightarrow> CCoinsCacheEntry option \<times> 's CCoinsViewCache" where
  "FetchCoin V mem c outpoint =
     (case map_of (cacheCoins c) outpoint of
        Some it \<Rightarrow> (Some it, c)
      | None \<Rightarrow>
          (case v_GetCoin V (cv_base c) outpoint of
             (None, b) \<Rightarrow> (None, c\<lparr>cv_base := b\<rparr>)
           | (Some tmp, b) \<Rightarrow>
               let ret = \<lparr>ce_coin = tmp, ce_flags = if IsSpent tmp then FRESH else 0\<rparr> in
               (Some ret, c\<lparr>cv_base := b, cacheCoins := AList.update outpoint ret (cacheCoins c),
                  cachedCoinsUsage := cachedCoinsUsage c + mem tmp\<rparr>)))"

definition GetCoin ::
  "'s CCoinsView \<Rightarrow> (Coin \<Rightarrow> u64) \<Rightarrow> 's CCoinsViewCache \<Rightarrow> COutPoint \<Rightarrow> Coin option \<times> 's CCoinsViewCache" where
  "GetCoin V mem c outpoint =
     (let (it, c) = FetchCoin V mem c outpoint in
      (case it of None \<Rightarrow> None | Some e \<Rightarrow> if IsSpent (ce_coin e) then None else Some (ce_coin e), c))"

definition AddCoin ::
  "(Coin \<Rightarrow> u64) \<Rightarrow> 's CCoinsViewCache \<Rightarrow> COutPoint \<Rightarrow> Coin \<Rightarrow> bool \<Rightarrow> 's CCoinsViewCache outcome" where
  "AddCoin mem c outpoint newcoin possible_overwrite =
     assert_out (\<not> IsSpent newcoin)
       (if IsUnspendable (scriptPubKey (coin_out newcoin)) then Inr c
        else
          let (it, inserted) = (case map_of (cacheCoins c) outpoint of
                 None \<Rightarrow> (\<lparr>ce_coin = coinEmpty, ce_flags = 0\<rparr>, True) | Some e \<Rightarrow> (e, False));
              usage = (if inserted then cachedCoinsUsage c else cachedCoinsUsage c - mem (ce_coin it))
          in if \<not> possible_overwrite \<and> \<not> IsSpent (ce_coin it)
             then Inl (Throw ''Adding new coin that replaces non-pruned entry'')
             else
               let fresh = (\<not> possible_overwrite \<and> ce_flags it AND DIRTY = 0);
                   e = \<lparr>ce_coin = newcoin, ce_flags = ce_flags it OR (DIRTY OR (if fresh then FRESH else 0))\<rparr>
               in Inr (c\<lparr>cacheCoins := AList.update outpoint e (cacheCoins c),
                         cachedCoinsUsage := usage + mem newcoin\<rparr>))"

text \<open>
  \<open>SpendCoin\<close> returns its verdict and the coin moved out. The asset cache is a state of its own, absent
  when the pointer is null or assets are not deployed; \<open>TrySpendCoin\<close> is its operation.
\<close>

definition SpendCoin ::
  "'s CCoinsView \<Rightarrow> (Coin \<Rightarrow> u64) \<Rightarrow> (COutPoint \<Rightarrow> CTxOut \<Rightarrow> 'a \<Rightarrow> bool \<times> 'a) \<Rightarrow>
   's CCoinsViewCache \<Rightarrow> 'a option \<Rightarrow> COutPoint \<Rightarrow> (bool \<times> Coin option) \<times> 's CCoinsViewCache \<times> 'a option" where
  "SpendCoin V mem TrySpendCoin c assetsCache outpoint =
     (case FetchCoin V mem c outpoint of
        (None, c) \<Rightarrow> ((False, None), c, assetsCache)
      | (Some it, c) \<Rightarrow>
          let usage = cachedCoinsUsage c - mem (ce_coin it);
              tempCoin = ce_coin it;
              m = (if ce_flags it AND FRESH \<noteq> 0 then AList.delete outpoint (cacheCoins c)
                   else AList.update outpoint \<lparr>ce_coin = coinEmpty, ce_flags = ce_flags it OR DIRTY\<rparr> (cacheCoins c));
              c = c\<lparr>cacheCoins := m, cachedCoinsUsage := usage\<rparr>
          in (case assetsCache of None \<Rightarrow> ((True, Some tempCoin), c, None)
              | Some a \<Rightarrow> let (ok, a) = TrySpendCoin outpoint (coin_out tempCoin) a
                          in ((ok, Some tempCoin), c, Some a)))"

definition AccessCoin ::
  "'s CCoinsView \<Rightarrow> (Coin \<Rightarrow> u64) \<Rightarrow> 's CCoinsViewCache \<Rightarrow> COutPoint \<Rightarrow> Coin \<times> 's CCoinsViewCache" where
  "AccessCoin V mem c outpoint =
     (let (it, c) = FetchCoin V mem c outpoint in
      (case it of None \<Rightarrow> coinEmpty | Some e \<Rightarrow> ce_coin e, c))"

definition HaveCoin ::
  "'s CCoinsView \<Rightarrow> (Coin \<Rightarrow> u64) \<Rightarrow> 's CCoinsViewCache \<Rightarrow> COutPoint \<Rightarrow> bool \<times> 's CCoinsViewCache" where
  "HaveCoin V mem c outpoint =
     (let (it, c) = FetchCoin V mem c outpoint in
      (case it of None \<Rightarrow> False | Some e \<Rightarrow> \<not> IsSpent (ce_coin e), c))"

definition HaveCoinInCache :: "'s CCoinsViewCache \<Rightarrow> COutPoint \<Rightarrow> bool" where
  "HaveCoinInCache c outpoint =
     (case map_of (cacheCoins c) outpoint of None \<Rightarrow> False | Some e \<Rightarrow> \<not> IsSpent (ce_coin e))"

definition GetBestBlock :: "'s CCoinsView \<Rightarrow> 's CCoinsViewCache \<Rightarrow> base_blob \<times> 's CCoinsViewCache" where
  "GetBestBlock V c =
     (if blob_IsNull (cv_hashBlock c)
      then let (h, b) = v_GetBestBlock V (cv_base c) in (h, c\<lparr>cv_base := b, cv_hashBlock := h\<rparr>)
      else (cv_hashBlock c, c))"

definition SetBestBlock :: "'s CCoinsViewCache \<Rightarrow> base_blob \<Rightarrow> 's CCoinsViewCache" where
  "SetBestBlock c hashBlockIn = c\<lparr>cv_hashBlock := hashBlockIn\<rparr>"

text \<open>One entry of the child map written into this cache.\<close>

definition batch_entry ::
  "(Coin \<Rightarrow> u64) \<Rightarrow> COutPoint \<times> CCoinsCacheEntry \<Rightarrow> 's CCoinsViewCache \<Rightarrow> 's CCoinsViewCache outcome" where
  "batch_entry mem it c =
     (let op = fst it; e = snd it in
      if ce_flags e AND DIRTY = 0 then Inr c
      else case map_of (cacheCoins c) op of
          None \<Rightarrow>
            if ce_flags e AND FRESH \<noteq> 0 \<and> IsSpent (ce_coin e) then Inr c
            else Inr (c\<lparr>cacheCoins := AList.update op
                     \<lparr>ce_coin = ce_coin e, ce_flags = DIRTY OR (if ce_flags e AND FRESH \<noteq> 0 then FRESH else 0)\<rparr> (cacheCoins c),
                   cachedCoinsUsage := cachedCoinsUsage c + mem (ce_coin e)\<rparr>)
        | Some itUs \<Rightarrow>
            if ce_flags e AND FRESH \<noteq> 0 \<and> \<not> IsSpent (ce_coin itUs)
            then Inl (Throw ''FRESH flag misapplied to cache entry for base transaction with spendable outputs'')
            else if ce_flags itUs AND FRESH \<noteq> 0 \<and> IsSpent (ce_coin e)
            then Inr (c\<lparr>cacheCoins := AList.delete op (cacheCoins c),
                   cachedCoinsUsage := cachedCoinsUsage c - mem (ce_coin itUs)\<rparr>)
            else Inr (c\<lparr>cacheCoins := AList.update op
                     \<lparr>ce_coin = ce_coin e, ce_flags = ce_flags itUs OR DIRTY\<rparr> (cacheCoins c),
                   cachedCoinsUsage := cachedCoinsUsage c - mem (ce_coin itUs) + mem (ce_coin e)\<rparr>))"

fun batch_loop :: "(Coin \<Rightarrow> u64) \<Rightarrow> CCoinsMap \<Rightarrow> 's CCoinsViewCache \<Rightarrow> 's CCoinsViewCache outcome" where
  "batch_loop mem [] c = Inr c"
| "batch_loop mem (it # m) c = bind_out (batch_entry mem it c) (batch_loop mem m)"

definition BatchWrite ::
  "(Coin \<Rightarrow> u64) \<Rightarrow> 's CCoinsViewCache \<Rightarrow> CCoinsMap \<Rightarrow> base_blob \<Rightarrow> (bool \<times> 's CCoinsViewCache) outcome" where
  "BatchWrite mem c mapCoins hashBlockIn =
     bind_out (batch_loop mem mapCoins c) (\<lambda>c. Inr (True, c\<lparr>cv_hashBlock := hashBlockIn\<rparr>))"

definition Flush :: "'s CCoinsView \<Rightarrow> 's CCoinsViewCache \<Rightarrow> (bool \<times> 's CCoinsViewCache) outcome" where
  "Flush V c =
     bind_out (v_BatchWrite V (cv_base c) (cacheCoins c) (cv_hashBlock c)) (\<lambda>(fOk, b).
       Inr (fOk, c\<lparr>cv_base := b, cacheCoins := [], cachedCoinsUsage := 0\<rparr>))"

definition Uncache :: "(Coin \<Rightarrow> u64) \<Rightarrow> 's CCoinsViewCache \<Rightarrow> COutPoint \<Rightarrow> 's CCoinsViewCache" where
  "Uncache mem c hash =
     (case map_of (cacheCoins c) hash of
        Some it \<Rightarrow>
          if ce_flags it = 0
          then c\<lparr>cacheCoins := AList.delete hash (cacheCoins c),
                 cachedCoinsUsage := cachedCoinsUsage c - mem (ce_coin it)\<rparr>
          else c
      | None \<Rightarrow> c)"

definition GetCacheSize :: "'s CCoinsViewCache \<Rightarrow> nat" where
  "GetCacheSize c = length (cacheCoins c)"

text \<open>A cache is itself a view.\<close>

definition cache_view :: "'s CCoinsView \<Rightarrow> (Coin \<Rightarrow> u64) \<Rightarrow> 's CCoinsViewCache CCoinsView" where
  "cache_view V mem = \<lparr>v_GetCoin = GetCoin V mem, v_GetBestBlock = GetBestBlock V, v_BatchWrite = BatchWrite mem\<rparr>"

section \<open>Transactions on a cache\<close>

fun value_in_loop ::
  "'s CCoinsView \<Rightarrow> (Coin \<Rightarrow> u64) \<Rightarrow> CTxIn list \<Rightarrow> CAmount \<Rightarrow> 's CCoinsViewCache \<Rightarrow> CAmount \<times> 's CCoinsViewCache" where
  "value_in_loop V mem [] nResult c = (nResult, c)"
| "value_in_loop V mem (i # is) nResult c =
     (let (cn, c) = AccessCoin V mem c (prevout i)
      in value_in_loop V mem is (wrap64 (nResult + nValue (coin_out cn))) c)"

definition GetValueIn ::
  "'s CCoinsView \<Rightarrow> (Coin \<Rightarrow> u64) \<Rightarrow> 's CCoinsViewCache \<Rightarrow> CTransaction \<Rightarrow> CAmount \<times> 's CCoinsViewCache" where
  "GetValueIn V mem c tx = (if IsCoinBase tx then (0, c) else value_in_loop V mem (vin tx) 0 c)"

fun have_inputs_loop ::
  "'s CCoinsView \<Rightarrow> (Coin \<Rightarrow> u64) \<Rightarrow> CTxIn list \<Rightarrow> 's CCoinsViewCache \<Rightarrow> bool \<times> 's CCoinsViewCache" where
  "have_inputs_loop V mem [] c = (True, c)"
| "have_inputs_loop V mem (i # is) c =
     (let (have, c) = HaveCoin V mem c (prevout i)
      in if \<not> have then (False, c) else have_inputs_loop V mem is c)"

definition HaveInputs ::
  "'s CCoinsView \<Rightarrow> (Coin \<Rightarrow> u64) \<Rightarrow> 's CCoinsViewCache \<Rightarrow> CTransaction \<Rightarrow> bool \<times> 's CCoinsViewCache" where
  "HaveInputs V mem c tx = (if \<not> IsCoinBase tx then have_inputs_loop V mem (vin tx) c else (True, c))"

definition MAX_BLOCK_WEIGHT_HIP2 :: nat where "MAX_BLOCK_WEIGHT_HIP2 = 8000000"
definition GetMaxBlockWeight :: nat where "GetMaxBlockWeight = MAX_BLOCK_WEIGHT_HIP2"
definition WITNESS_SCALE_FACTOR :: nat where "WITNESS_SCALE_FACTOR = 4"
definition MIN_TRANSACTION_OUTPUT_WEIGHT :: nat where
  "MIN_TRANSACTION_OUTPUT_WEIGHT = WITNESS_SCALE_FACTOR * length (ser_txout txout_null)"

text \<open>\<open>left\<close> counts the indices still below the bound.\<close>

fun access_by_txid ::
  "'s CCoinsView \<Rightarrow> (Coin \<Rightarrow> u64) \<Rightarrow> base_blob \<Rightarrow> nat \<Rightarrow> u32 \<Rightarrow> 's CCoinsViewCache \<Rightarrow> Coin \<times> 's CCoinsViewCache" where
  "access_by_txid V mem txid 0 k c = (coinEmpty, c)"
| "access_by_txid V mem txid (Suc left) k c =
     (let (alternate, c) = AccessCoin V mem c \<lparr>op_hash = txid, op_n = k\<rparr>
      in if \<not> IsSpent alternate then (alternate, c) else access_by_txid V mem txid left (k + 1) c)"

definition AccessByTxid ::
  "'s CCoinsView \<Rightarrow> (Coin \<Rightarrow> u64) \<Rightarrow> 's CCoinsViewCache \<Rightarrow> base_blob \<Rightarrow> Coin \<times> 's CCoinsViewCache" where
  "AccessByTxid V mem view txid =
     access_by_txid V mem txid (GetMaxBlockWeight div MIN_TRANSACTION_OUTPUT_WEIGHT) 0 view"

section \<open>The contract of a view\<close>

definition unspent :: "Coin \<Rightarrow> Coin option" where
  "unspent c = (if IsSpent c then None else Some c)"

text \<open>What a batch of cache entries does to the coins below, and when it may be written there.\<close>

definition apply_map :: "CCoinsMap \<Rightarrow> (COutPoint \<Rightarrow> Coin option) \<Rightarrow> COutPoint \<Rightarrow> Coin option" where
  "apply_map m f op =
     (case map_of m op of None \<Rightarrow> f op
      | Some e \<Rightarrow> if ce_flags e AND DIRTY \<noteq> 0 then unspent (ce_coin e) else f op)"

definition child_ok :: "CCoinsMap \<Rightarrow> (COutPoint \<Rightarrow> Coin option) \<Rightarrow> bool" where
  "child_ok m f \<longleftrightarrow> distinct (map fst m) \<and>
     (\<forall>op e. map_of m op = Some e \<longrightarrow> ce_flags e AND FRESH \<noteq> 0 \<longrightarrow> f op = None)"

locale coins_view =
  fixes V :: "'s CCoinsView" and view :: "'s \<Rightarrow> COutPoint \<Rightarrow> Coin option" and ok :: "'s \<Rightarrow> bool"
  assumes get_coin: "ok s \<Longrightarrow> v_GetCoin V s op = (r, s') \<Longrightarrow>
      view s op = (case r of None \<Rightarrow> None | Some c \<Rightarrow> unspent c) \<and> view s' = view s \<and> ok s'"
    and best_block: "ok s \<Longrightarrow> v_GetBestBlock V s = (h, s') \<Longrightarrow> view s' = view s \<and> ok s'"
    and batch_write: "ok s \<Longrightarrow> child_ok m (view s) \<Longrightarrow> \<not> blob_IsNull h \<Longrightarrow>
      \<exists>s'. v_BatchWrite V s m h = Inr (True, s') \<and> view s' = apply_map m (view s) \<and> ok s'"

text \<open>The coins a cache shows, and its invariant over the view below it.\<close>

definition cache_abs :: "('s \<Rightarrow> COutPoint \<Rightarrow> Coin option) \<Rightarrow> 's CCoinsViewCache \<Rightarrow> COutPoint \<Rightarrow> Coin option" where
  "cache_abs view c op =
     (case map_of (cacheCoins c) op of Some e \<Rightarrow> unspent (ce_coin e) | None \<Rightarrow> view (cv_base c) op)"

definition entry_sync :: "Coin option \<Rightarrow> CCoinsCacheEntry \<Rightarrow> bool" where
  "entry_sync below e \<longleftrightarrow>
     (ce_flags e AND FRESH \<noteq> 0 \<longrightarrow> below = None) \<and> (ce_flags e AND DIRTY = 0 \<longrightarrow> unspent (ce_coin e) = below)"

definition coins_usage :: "(Coin \<Rightarrow> u64) \<Rightarrow> CCoinsMap \<Rightarrow> u64" where
  "coins_usage mem m = sum_list (map (\<lambda>(op, e). mem (ce_coin e)) m)"

definition cache_inv ::
  "('s \<Rightarrow> COutPoint \<Rightarrow> Coin option) \<Rightarrow> ('s \<Rightarrow> bool) \<Rightarrow> (Coin \<Rightarrow> u64) \<Rightarrow> 's CCoinsViewCache \<Rightarrow> bool" where
  "cache_inv view ok mem c \<longleftrightarrow> ok (cv_base c) \<and> distinct (map fst (cacheCoins c)) \<and>
     (\<forall>op e. map_of (cacheCoins c) op = Some e \<longrightarrow> entry_sync (view (cv_base c) op) e) \<and>
     cachedCoinsUsage c = coins_usage mem (cacheCoins c)"

lemma dirty_fresh_bits [simp]:
  "DIRTY AND DIRTY = DIRTY" "FRESH AND FRESH = FRESH" "DIRTY AND FRESH = 0" "FRESH AND DIRTY = 0"
  "DIRTY \<noteq> 0" "FRESH \<noteq> 0"
  by (simp_all add: DIRTY_def FRESH_def)

lemma flag_or_simps:
  "(f OR DIRTY) AND DIRTY = (DIRTY :: u8)" "(f OR DIRTY) AND FRESH = f AND FRESH"
  "(f OR (DIRTY OR FRESH)) AND DIRTY = DIRTY" "(f OR (DIRTY OR FRESH)) AND FRESH = FRESH"
  "(DIRTY OR FRESH) AND DIRTY = DIRTY" "(DIRTY OR FRESH) AND FRESH = FRESH"
  by (auto simp: bit.conj_disj_distrib2 DIRTY_def FRESH_def intro!: bit_eqI simp: bit_simps)

lemma coins_usage_fresh_key:
  "map_of m k = None \<Longrightarrow> coins_usage mem (AList.update k e m) = coins_usage mem m + mem (ce_coin e)"
  by (induction m) (auto simp: coins_usage_def split: if_splits)

lemma coins_usage_update:
  "distinct (map fst m) \<Longrightarrow> map_of m k = Some old \<Longrightarrow>
   coins_usage mem (AList.update k e m) = coins_usage mem m - mem (ce_coin old) + mem (ce_coin e)"
  by (induction m) (auto simp: coins_usage_def split: if_splits)

lemma coins_usage_delete:
  "distinct (map fst m) \<Longrightarrow> map_of m k = Some old \<Longrightarrow>
   coins_usage mem (AList.delete k m) = coins_usage mem m - mem (ce_coin old)"
proof (induction m)
  case (Cons p m)
  then show ?case
    by (cases p) (auto simp: coins_usage_def delete_notin_dom dom_map_of_conv_image_fst split: if_splits)
qed simp

lemma cache_invD:
  assumes "cache_inv view ok mem c"
  shows "ok (cv_base c)" "distinct (map fst (cacheCoins c))"
    "map_of (cacheCoins c) op = Some e \<Longrightarrow> entry_sync (view (cv_base c) op) e"
    "cachedCoinsUsage c = coins_usage mem (cacheCoins c)"
  using assms by (auto simp: cache_inv_def)

lemma cache_inv_update:
  assumes "cache_inv view ok mem c" and "entry_sync (view (cv_base c) op) e"
    and "u = coins_usage mem (AList.update op e (cacheCoins c))"
  shows "cache_inv view ok mem (c\<lparr>cacheCoins := AList.update op e (cacheCoins c), cachedCoinsUsage := u\<rparr>)"
  using assms by (auto simp: cache_inv_def update_conv' distinct_update)

lemma cache_inv_delete:
  assumes "cache_inv view ok mem c" and "map_of (cacheCoins c) op = Some e"
  shows "cache_inv view ok mem (c\<lparr>cacheCoins := AList.delete op (cacheCoins c),
    cachedCoinsUsage := cachedCoinsUsage c - mem (ce_coin e)\<rparr>)"
  using assms
  by (auto simp: cache_inv_def delete_conv' distinct_delete coins_usage_delete split: if_splits)

lemma cache_abs_update:
  "cache_abs view (c\<lparr>cacheCoins := AList.update op e (cacheCoins c), cachedCoinsUsage := u\<rparr>) =
   (cache_abs view c)(op := unspent (ce_coin e))"
  by (auto simp: cache_abs_def update_conv' fun_eq_iff split: option.splits)

lemma cache_abs_delete:
  "cache_abs view (c\<lparr>cacheCoins := AList.delete op (cacheCoins c), cachedCoinsUsage := u\<rparr>) =
   (cache_abs view c)(op := view (cv_base c) op)"
  by (auto simp: cache_abs_def delete_conv' fun_eq_iff split: option.splits)

context coins_view
begin

lemma FetchCoin_spec:
  assumes "cache_inv view ok mem c" and "FetchCoin V mem c op = (r, c')"
  shows "cache_inv view ok mem c' \<and> cache_abs view c' = cache_abs view c \<and>
    map_of (cacheCoins c') op = r \<and> cv_hashBlock c' = cv_hashBlock c \<and> (r = None \<longrightarrow> cache_abs view c op = None)"
proof (cases "map_of (cacheCoins c) op")
  case (Some e)
  with assms show ?thesis by (auto simp: FetchCoin_def)
next
  case None
  obtain q b where g: "v_GetCoin V (cv_base c) op = (q, b)" by (cases "v_GetCoin V (cv_base c) op")
  note b = get_coin [OF cache_invD(1) [OF assms(1)] g]
  let ?c = "c\<lparr>cv_base := b\<rparr>"
  have i: "cache_inv view ok mem ?c"
    using assms(1) b by (auto simp: cache_inv_def)
  have a: "cache_abs view ?c = cache_abs view c"
    using b by (auto simp: cache_abs_def fun_eq_iff split: option.splits)
  show ?thesis
  proof (cases q)
    case None
    with g assms(2) \<open>map_of (cacheCoins c) op = None\<close> i a b show ?thesis
      by (auto simp: FetchCoin_def cache_abs_def)
  next
    case (Some tmp)
    define ret where "ret = \<lparr>ce_coin = tmp, ce_flags = if IsSpent tmp then FRESH else 0\<rparr>"
    have c': "r = Some ret" "c' = ?c\<lparr>cacheCoins := AList.update op ret (cacheCoins ?c),
        cachedCoinsUsage := cachedCoinsUsage ?c + mem tmp\<rparr>"
      using assms(2) g None Some by (auto simp: FetchCoin_def ret_def Let_def)
    have "entry_sync (view (cv_base ?c) op) ret"
      using b Some by (auto simp: entry_sync_def ret_def unspent_def)
    then have "cache_inv view ok mem c'"
      unfolding c'(2) using None cache_invD(4) [OF i]
      by (intro cache_inv_update [OF i]) (auto simp: coins_usage_fresh_key ret_def)
    moreover have "cache_abs view c' = cache_abs view c"
      unfolding c'(2) cache_abs_update a using b Some None
      by (auto simp: fun_eq_iff cache_abs_def ret_def)
    ultimately show ?thesis
      using None by (simp add: c' update_conv')
  qed
qed

lemma FetchCoin_abs:
  assumes "cache_inv view ok mem c" and "FetchCoin V mem c op = (r, c')"
  shows "cache_abs view c op = (case r of None \<Rightarrow> None | Some e \<Rightarrow> unspent (ce_coin e))"
proof -
  note f = FetchCoin_spec [OF assms]
  then have "cache_abs view c op = cache_abs view c' op" by simp
  moreover have m: "map_of (cacheCoins c') op = r" using f by blast
  have "cache_abs view c' op = unspent (ce_coin e)" if "r = Some e" for e
    using that by (simp add: cache_abs_def m)
  ultimately show ?thesis using f by (cases r) auto
qed

lemma GetCoin_spec:
  assumes "cache_inv view ok mem c" and "GetCoin V mem c op = (r, c')"
  shows "cache_inv view ok mem c' \<and> cache_abs view c' = cache_abs view c \<and> r = cache_abs view c op"
proof -
  obtain it c1 where f: "FetchCoin V mem c op = (it, c1)" by fastforce
  then show ?thesis
    using FetchCoin_spec [OF assms(1) f] FetchCoin_abs [OF assms(1) f] assms(2)
    by (auto simp: GetCoin_def unspent_def split: option.splits)
qed

lemma HaveCoin_spec:
  assumes "cache_inv view ok mem c" and "HaveCoin V mem c op = (r, c')"
  shows "cache_inv view ok mem c' \<and> cache_abs view c' = cache_abs view c \<and> (r \<longleftrightarrow> cache_abs view c op \<noteq> None)"
proof -
  obtain it c1 where f: "FetchCoin V mem c op = (it, c1)" by fastforce
  then show ?thesis
    using FetchCoin_spec [OF assms(1) f] FetchCoin_abs [OF assms(1) f] assms(2)
    by (auto simp: HaveCoin_def unspent_def split: option.splits if_splits)
qed

lemma AccessCoin_spec:
  assumes "cache_inv view ok mem c" and "AccessCoin V mem c op = (r, c')"
  shows "cache_inv view ok mem c' \<and> cache_abs view c' = cache_abs view c \<and> unspent r = cache_abs view c op"
proof -
  obtain it c1 where f: "FetchCoin V mem c op = (it, c1)" by fastforce
  have "unspent coinEmpty = None" by (simp add: unspent_def IsSpent_def coinEmpty_def txout_IsNull_def txout_null_def)
  with f show ?thesis
    using FetchCoin_spec [OF assms(1) f] FetchCoin_abs [OF assms(1) f] assms(2)
    by (auto simp: AccessCoin_def split: option.splits)
qed

lemma Uncache_spec:
  assumes "cache_inv view ok mem c"
  shows "cache_inv view ok mem (Uncache mem c op) \<and> cache_abs view (Uncache mem c op) = cache_abs view c"
proof (cases "\<exists>e. map_of (cacheCoins c) op = Some e \<and> ce_flags e = 0")
  case True
  then obtain e where e: "map_of (cacheCoins c) op = Some e" "ce_flags e = 0" by blast
  then have "unspent (ce_coin e) = view (cv_base c) op"
    using cache_invD(3) [OF assms e(1)] by (simp add: entry_sync_def)
  then show ?thesis
    using e cache_inv_delete [OF assms e(1)]
    by (auto simp: Uncache_def cache_abs_delete fun_eq_iff) (simp add: cache_abs_def)
next
  case False
  then have "Uncache mem c op = c" by (auto simp: Uncache_def split: option.splits)
  with assms show ?thesis by simp
qed

lemma AddCoin_spec:
  assumes "cache_inv view ok mem c" and "\<not> IsSpent newcoin" and "overwrite \<or> cache_abs view c op = None"
  shows "\<exists>c'. AddCoin mem c op newcoin overwrite = Inr c' \<and> cache_inv view ok mem c' \<and>
    cv_hashBlock c' = cv_hashBlock c \<and> cache_abs view c' = (if IsUnspendable (scriptPubKey (coin_out newcoin)) then cache_abs view c
       else (cache_abs view c)(op := Some newcoin))"
proof (cases "IsUnspendable (scriptPubKey (coin_out newcoin))")
  case True
  then show ?thesis using assms by (simp add: AddCoin_def)
next
  case False
  show ?thesis
  proof (cases "map_of (cacheCoins c) op")
    case None
    define e where "e = \<lparr>ce_coin = newcoin, ce_flags = 0 OR (DIRTY OR (if \<not> overwrite then FRESH else 0))\<rparr>"
    have "entry_sync (view (cv_base c) op) e"
      using assms(3) None by (auto simp: entry_sync_def e_def cache_abs_def flag_or_simps)
    moreover have "AddCoin mem c op newcoin overwrite = Inr (c\<lparr>cacheCoins := AList.update op e (cacheCoins c),
        cachedCoinsUsage := cachedCoinsUsage c + mem newcoin\<rparr>)"
      using assms(2) False None
      by (simp add: AddCoin_def Let_def e_def IsSpent_def coinEmpty_def txout_IsNull_def txout_null_def)
    moreover have "cachedCoinsUsage c + mem newcoin = coins_usage mem (AList.update op e (cacheCoins c))"
      using cache_invD(4) [OF assms(1)] None by (simp add: coins_usage_fresh_key e_def)
    ultimately show ?thesis
      using False assms(2) cache_inv_update [OF assms(1), of op e]
      by (auto simp: cache_abs_update e_def unspent_def)
  next
    case (Some it)
    define fresh where "fresh \<longleftrightarrow> \<not> overwrite \<and> ce_flags it AND DIRTY = 0"
    define e where "e = \<lparr>ce_coin = newcoin, ce_flags = ce_flags it OR (DIRTY OR (if fresh then FRESH else 0))\<rparr>"
    note s = cache_invD(3) [OF assms(1) Some]
    have u: "\<not> overwrite \<Longrightarrow> IsSpent (ce_coin it)"
      using assms(3) Some by (auto simp: cache_abs_def unspent_def split: if_splits)
    have "entry_sync (view (cv_base c) op) e"
      using s u by (auto simp: entry_sync_def e_def fresh_def flag_or_simps unspent_def)
    moreover have "AddCoin mem c op newcoin overwrite = Inr (c\<lparr>cacheCoins := AList.update op e (cacheCoins c),
        cachedCoinsUsage := cachedCoinsUsage c - mem (ce_coin it) + mem newcoin\<rparr>)"
      using assms(2) False Some u by (auto simp: AddCoin_def e_def fresh_def Let_def)
    moreover have "cachedCoinsUsage c - mem (ce_coin it) + mem newcoin = coins_usage mem (AList.update op e (cacheCoins c))"
      using cache_invD(2,4) [OF assms(1)] Some by (simp add: coins_usage_update e_def)
    ultimately show ?thesis
      using False assms(2) cache_inv_update [OF assms(1), of op e]
      by (auto simp: cache_abs_update e_def unspent_def)
  qed
qed

end

lemma unspent_coinEmpty [simp]: "unspent coinEmpty = None"
  by (simp add: unspent_def IsSpent_def coinEmpty_def txout_IsNull_def txout_null_def)

lemma unspent_SomeD: "unspent c = Some d \<Longrightarrow> d = c \<and> \<not> IsSpent c"
  by (auto simp: unspent_def split: if_splits)

context coins_view
begin

lemma view_unspent:
  assumes "ok s" and "view s op = Some cn"
  shows "unspent cn = Some cn"
proof -
  obtain r s' where g: "v_GetCoin V s op = (r, s')" by fastforce
  then show ?thesis
    using get_coin [OF assms(1) g] assms(2) by (auto simp: unspent_def split: option.splits if_splits)
qed

lemma SpendCoin_spec:
  assumes "cache_inv view ok mem c" and "mem coinEmpty = 0"
    and "SpendCoin V mem ts c a op = ((r, moved), c', a')"
  shows "cache_inv view ok mem c' \<and> cv_hashBlock c' = cv_hashBlock c \<and>
    cache_abs view c' = (cache_abs view c)(op := None) \<and>
    (\<forall>cn. cache_abs view c op = Some cn \<longrightarrow> moved = Some cn \<and> (a = None \<longrightarrow> r)) \<and>
    (moved = None \<longrightarrow> \<not> r \<and> cache_abs view c op = None) \<and>
    (case moved of None \<Rightarrow> None | Some cn \<Rightarrow> unspent cn) = cache_abs view c op"
proof -
  obtain it c1 where f: "FetchCoin V mem c op = (it, c1)" by fastforce
  note s = FetchCoin_spec [OF assms(1) f] and abs = FetchCoin_abs [OF assms(1) f]
  show ?thesis
  proof (cases it)
    case None
    then show ?thesis using s abs f assms(3) by (auto simp: SpendCoin_def fun_eq_iff)
  next
    case (Some e)
    have i: "cache_inv view ok mem c1" and m: "map_of (cacheCoins c1) op = Some e"
      and c1: "cache_abs view c1 = cache_abs view c" "cv_hashBlock c1 = cv_hashBlock c"
      using s Some by auto
    note es = cache_invD(3) [OF i m]
    define u where "u = cachedCoinsUsage c1 - mem (ce_coin e)"
    define d where "d = \<lparr>ce_coin = coinEmpty, ce_flags = ce_flags e OR DIRTY\<rparr>"
    have c': "c' = (if ce_flags e AND FRESH \<noteq> 0
          then c1\<lparr>cacheCoins := AList.delete op (cacheCoins c1), cachedCoinsUsage := u\<rparr>
          else c1\<lparr>cacheCoins := AList.update op d (cacheCoins c1), cachedCoinsUsage := u\<rparr>)"
      and r: "moved = Some (ce_coin e)" "a = None \<longrightarrow> r"
      using assms(3) f Some by (auto simp: SpendCoin_def Let_def u_def d_def split: option.splits prod.splits)
    have "cache_inv view ok mem c' \<and> cache_abs view c' = (cache_abs view c1)(op := None) \<and> cv_hashBlock c' = cv_hashBlock c1"
    proof (cases "ce_flags e AND FRESH = 0")
      case False
      then have "view (cv_base c1) op = None" using es by (simp add: entry_sync_def)
      with False show ?thesis
        using cache_inv_delete [OF i m] by (simp add: c' u_def cache_abs_delete)
    next
      case True
      then have "entry_sync (view (cv_base c1) op) d"
        by (simp add: entry_sync_def d_def flag_or_simps)
      moreover have "u = coins_usage mem (AList.update op d (cacheCoins c1))"
        using cache_invD(2,4) [OF i] m assms(2) by (simp add: coins_usage_update u_def d_def)
      ultimately show ?thesis
        using True cache_inv_update [OF i] by (simp add: c' cache_abs_update) (simp add: d_def)
    qed
    then show ?thesis using c1 abs Some r by (auto dest: unspent_SomeD)
  qed
qed

lemma batch_entry_spec:
  assumes "cache_inv view ok mem c" and "ce_flags e AND FRESH \<noteq> 0 \<longrightarrow> cache_abs view c op = None"
  shows "\<exists>c'. batch_entry mem (op, e) c = Inr c' \<and> cache_inv view ok mem c' \<and> cv_hashBlock c' = cv_hashBlock c \<and>
    cache_abs view c' = (if ce_flags e AND DIRTY \<noteq> 0 then (cache_abs view c)(op := unspent (ce_coin e)) else cache_abs view c)"
proof (cases "ce_flags e AND DIRTY = 0")
  case True
  then show ?thesis using assms(1) by (simp add: batch_entry_def)
next
  case dirty: False
  show ?thesis
  proof (cases "map_of (cacheCoins c) op")
    case None
    then have below: "cache_abs view c op = view (cv_base c) op" by (simp add: cache_abs_def)
    show ?thesis
    proof (cases "ce_flags e AND FRESH \<noteq> 0 \<and> IsSpent (ce_coin e)")
      case True
      then have "(cache_abs view c)(op := unspent (ce_coin e)) = cache_abs view c"
        using assms(2) by (auto simp: unspent_def fun_eq_iff)
      then show ?thesis using True dirty None assms(1) by (simp add: batch_entry_def Let_def)
    next
      case False
      define d where "d = \<lparr>ce_coin = ce_coin e, ce_flags = DIRTY OR (if ce_flags e AND FRESH \<noteq> 0 then FRESH else 0)\<rparr>"
      have "entry_sync (view (cv_base c) op) d"
        using assms(2) below by (auto simp: entry_sync_def d_def flag_or_simps)
      moreover have "cachedCoinsUsage c + mem (ce_coin e) = coins_usage mem (AList.update op d (cacheCoins c))"
        using cache_invD(4) [OF assms(1)] None by (simp add: coins_usage_fresh_key d_def)
      moreover have "batch_entry mem (op, e) c = Inr (c\<lparr>cacheCoins := AList.update op d (cacheCoins c),
          cachedCoinsUsage := cachedCoinsUsage c + mem (ce_coin e)\<rparr>)"
        using False dirty None by (auto simp: batch_entry_def Let_def d_def)
      ultimately show ?thesis
        using dirty cache_inv_update [OF assms(1), of op d] by (auto simp: cache_abs_update d_def)
    qed
  next
    case (Some us)
    note us = cache_invD(3) [OF assms(1) Some]
    have "\<not> (ce_flags e AND FRESH \<noteq> 0 \<and> \<not> IsSpent (ce_coin us))"
      using assms(2) Some by (auto simp: cache_abs_def unspent_def split: if_splits)
    then have b: "batch_entry mem (op, e) c = (if ce_flags us AND FRESH \<noteq> 0 \<and> IsSpent (ce_coin e)
         then Inr (c\<lparr>cacheCoins := AList.delete op (cacheCoins c), cachedCoinsUsage := cachedCoinsUsage c - mem (ce_coin us)\<rparr>)
         else Inr (c\<lparr>cacheCoins := AList.update op \<lparr>ce_coin = ce_coin e, ce_flags = ce_flags us OR DIRTY\<rparr> (cacheCoins c),
                   cachedCoinsUsage := cachedCoinsUsage c - mem (ce_coin us) + mem (ce_coin e)\<rparr>))"
      using dirty Some by (auto simp: batch_entry_def Let_def)
    show ?thesis
    proof (cases "ce_flags us AND FRESH \<noteq> 0 \<and> IsSpent (ce_coin e)")
      case True
      then have "view (cv_base c) op = unspent (ce_coin e)"
        using us by (simp add: entry_sync_def unspent_def)
      then show ?thesis
        using True b dirty cache_inv_delete [OF assms(1) Some] by (simp add: cache_abs_delete)
    next
      case False
      define d where "d = \<lparr>ce_coin = ce_coin e, ce_flags = ce_flags us OR DIRTY\<rparr>"
      have dc: "ce_coin d = ce_coin e" by (simp add: d_def)
      have "entry_sync (view (cv_base c) op) d"
        using us by (auto simp: entry_sync_def d_def flag_or_simps)
      moreover have "cachedCoinsUsage c - mem (ce_coin us) + mem (ce_coin e) = coins_usage mem (AList.update op d (cacheCoins c))"
        using cache_invD(2,4) [OF assms(1)] Some by (simp add: coins_usage_update d_def)
      ultimately show ?thesis
        using False b [folded d_def] dirty cache_inv_update [OF assms(1), of op d] by (auto simp: cache_abs_update dc)
    qed
  qed
qed

lemma batch_loop_spec:
  assumes "cache_inv view ok mem c" and "child_ok m (cache_abs view c)"
  shows "\<exists>c'. batch_loop mem m c = Inr c' \<and> cache_inv view ok mem c' \<and> cv_hashBlock c' = cv_hashBlock c \<and>
    cache_abs view c' = apply_map m (cache_abs view c)"
  using assms
proof (induction m arbitrary: c)
  case Nil
  then show ?case by (auto simp: apply_map_def fun_eq_iff)
next
  case (Cons p m)
  obtain op e where p: "p = (op, e)" by (cases p)
  have "ce_flags e AND FRESH \<noteq> 0 \<longrightarrow> cache_abs view c op = None"
    using Cons.prems(2) by (auto simp: child_ok_def p)
  from batch_entry_spec [OF Cons.prems(1) this] obtain c1 where
    c1: "batch_entry mem (op, e) c = Inr c1" "cache_inv view ok mem c1" "cv_hashBlock c1 = cv_hashBlock c"
      "cache_abs view c1 = (if ce_flags e AND DIRTY \<noteq> 0 then (cache_abs view c)(op := unspent (ce_coin e)) else cache_abs view c)"
    by blast
  have no: "map_of m op = None" using Cons.prems(2) by (auto simp: child_ok_def p map_of_eq_None_iff)
  have "child_ok m (cache_abs view c1)"
    unfolding child_ok_def
  proof (intro conjI allI impI)
    show "distinct (map fst m)" using Cons.prems(2) by (simp add: child_ok_def)
    fix op' e'
    assume m: "map_of m op' = Some e'" "ce_flags e' AND FRESH \<noteq> 0"
    then have ne: "op' \<noteq> op" using no by auto
    then have "map_of (p # m) op' = Some e'" using m by (simp add: p)
    then have "cache_abs view c op' = None" using Cons.prems(2) m(2) unfolding child_ok_def by blast
    then show "cache_abs view c1 op' = None" using ne by (simp add: c1(4))
  qed
  from Cons.IH [OF c1(2) this] obtain c2 where
    c2: "batch_loop mem m c1 = Inr c2" "cache_inv view ok mem c2" "cv_hashBlock c2 = cv_hashBlock c1"
      "cache_abs view c2 = apply_map m (cache_abs view c1)" by blast
  have "apply_map m (cache_abs view c1) = apply_map (p # m) (cache_abs view c)"
    using no by (auto simp: fun_eq_iff apply_map_def p c1(4) split: option.splits)
  then show ?case using c1 c2 by (simp add: p)
qed

lemma BatchWrite_spec:
  assumes "cache_inv view ok mem c" and "child_ok m (cache_abs view c)"
  shows "\<exists>c'. BatchWrite mem c m h = Inr (True, c') \<and> cache_inv view ok mem c' \<and> cv_hashBlock c' = h \<and>
    cache_abs view c' = apply_map m (cache_abs view c)"
proof -
  obtain c1 where c1: "batch_loop mem m c = Inr c1" "cache_inv view ok mem c1" "cache_abs view c1 = apply_map m (cache_abs view c)"
    using batch_loop_spec [OF assms] by blast
  have "cache_inv view ok mem (c1\<lparr>cv_hashBlock := h\<rparr>)" using c1(2) by (simp add: cache_inv_def)
  moreover have "cache_abs view (c1\<lparr>cv_hashBlock := h\<rparr>) = cache_abs view c1"
    by (auto simp: cache_abs_def fun_eq_iff split: option.splits)
  ultimately show ?thesis using c1 by (simp add: BatchWrite_def)
qed

lemma GetBestBlock_spec:
  assumes "cache_inv view ok mem c" and "GetBestBlock V c = (h, c')"
  shows "cache_inv view ok mem c' \<and> cache_abs view c' = cache_abs view c"
proof (cases "blob_IsNull (cv_hashBlock c)")
  case True
  obtain h' b where b: "v_GetBestBlock V (cv_base c) = (h', b)" by fastforce
  note bb = best_block [OF cache_invD(1) [OF assms(1)] b]
  have c': "c' = c\<lparr>cv_base := b, cv_hashBlock := h'\<rparr>"
    using assms(2) b True by (auto simp: GetBestBlock_def)
  have "cache_inv view ok mem c'" using assms(1) bb unfolding c' by (auto simp: cache_inv_def)
  moreover have "cache_abs view c' = cache_abs view c"
    using bb unfolding c' by (auto simp: cache_abs_def fun_eq_iff split: option.splits)
  ultimately show ?thesis by simp
qed (use assms in \<open>simp add: GetBestBlock_def\<close>)

lemma cache_apply_map:
  assumes "cache_inv view ok mem c"
  shows "apply_map (cacheCoins c) (view (cv_base c)) = cache_abs view c"
    and "child_ok (cacheCoins c) (view (cv_base c))"
proof -
  have s: "entry_sync (view (cv_base c) op) e" if "map_of (cacheCoins c) op = Some e" for op e
    using cache_invD(3) [OF assms that] .
  then show "apply_map (cacheCoins c) (view (cv_base c)) = cache_abs view c"
    by (auto simp: fun_eq_iff apply_map_def cache_abs_def entry_sync_def split: option.splits)
  show "child_ok (cacheCoins c) (view (cv_base c))"
    using cache_invD(2) [OF assms] s by (auto simp: child_ok_def entry_sync_def)
qed

lemma Flush_spec:
  assumes "cache_inv view ok mem c" and "\<not> blob_IsNull (cv_hashBlock c)"
  shows "\<exists>c'. Flush V c = Inr (True, c') \<and> cache_inv view ok mem c' \<and> cacheCoins c' = [] \<and>
    cachedCoinsUsage c' = 0 \<and> cv_hashBlock c' = cv_hashBlock c \<and> view (cv_base c') = cache_abs view c \<and> cache_abs view c' = cache_abs view c"
proof -
  obtain b where "v_BatchWrite V (cv_base c) (cacheCoins c) (cv_hashBlock c) = Inr (True, b)"
      "view b = cache_abs view c" "ok b"
    using batch_write [OF cache_invD(1) [OF assms(1)] cache_apply_map(2) [OF assms(1)] assms(2)]
      cache_apply_map(1) [OF assms(1)] by auto
  then show ?thesis
    by (auto simp: Flush_def cache_inv_def coins_usage_def cache_abs_def fun_eq_iff)
qed

text \<open>A cache over a view keeps the contract, so caches stack.\<close>

lemma cache_is_view: "coins_view (cache_view V mem) (cache_abs view) (cache_inv view ok mem)"
proof
  fix s op r s'
  assume "cache_inv view ok mem s" and "v_GetCoin (cache_view V mem) s op = (r, s')"
  then have g: "cache_inv view ok mem s'" "cache_abs view s' = cache_abs view s" "r = cache_abs view s op"
    using GetCoin_spec by (auto simp: cache_view_def)
  have "unspent cn = Some cn" if "cache_abs view s op = Some cn" for cn
    using that view_unspent [OF cache_invD(1) [OF \<open>cache_inv view ok mem s\<close>], of op cn]
    by (auto simp: cache_abs_def dest: unspent_SomeD split: option.splits)
  with g show "cache_abs view s op = (case r of None \<Rightarrow> None | Some c \<Rightarrow> unspent c) \<and>
      cache_abs view s' = cache_abs view s \<and> cache_inv view ok mem s'"
    by (auto split: option.splits)
next
  fix s h s'
  assume "cache_inv view ok mem s" and "v_GetBestBlock (cache_view V mem) s = (h, s')"
  then show "cache_abs view s' = cache_abs view s \<and> cache_inv view ok mem s'"
    using GetBestBlock_spec by (simp add: cache_view_def)
next
  fix s m and h :: base_blob
  assume "cache_inv view ok mem s" and "child_ok m (cache_abs view s)"
  then show "\<exists>s'. v_BatchWrite (cache_view V mem) s m h = Inr (True, s') \<and>
      cache_abs view s' = apply_map m (cache_abs view s) \<and> cache_inv view ok mem s'"
    using BatchWrite_spec [of mem s m h] by (auto simp: cache_view_def)
qed

end

section \<open>The coin database\<close>

text \<open>
  \<^verbatim>\<open>CCoinsViewDB\<close> over a key-value store: the store maps keys to values and applies a batch atomically.
  The size estimate of a batch and the bound above which a partial batch is written are
  parameters; the crash simulation of the tests is off.
\<close>

record coins_db =
  db_coins :: "COutPoint \<Rightarrow> Coin option"
  db_best :: "base_blob option"
  db_heads :: "base_blob list option"

datatype db_op =
  EraseBest | WriteBest base_blob | EraseHeads | WriteHeads "base_blob list" |
  EraseCoin COutPoint | WriteCoin COutPoint Coin

fun apply_op :: "db_op \<Rightarrow> coins_db \<Rightarrow> coins_db" where
  "apply_op EraseBest db = db\<lparr>db_best := None\<rparr>"
| "apply_op (WriteBest h) db = db\<lparr>db_best := Some h\<rparr>"
| "apply_op EraseHeads db = db\<lparr>db_heads := None\<rparr>"
| "apply_op (WriteHeads hs) db = db\<lparr>db_heads := Some hs\<rparr>"
| "apply_op (EraseCoin op) db = db\<lparr>db_coins := (db_coins db)(op := None)\<rparr>"
| "apply_op (WriteCoin op c) db = db\<lparr>db_coins := (db_coins db)(op := Some c)\<rparr>"

definition WriteBatch :: "db_op list \<Rightarrow> coins_db \<Rightarrow> coins_db" where
  "WriteBatch batch db = fold apply_op batch db"

definition db_GetCoin :: "coins_db \<Rightarrow> COutPoint \<Rightarrow> Coin option \<times> coins_db" where
  "db_GetCoin db outpoint = (db_coins db outpoint, db)"

definition db_HaveCoin :: "coins_db \<Rightarrow> COutPoint \<Rightarrow> bool" where
  "db_HaveCoin db outpoint \<longleftrightarrow> db_coins db outpoint \<noteq> None"

definition db_GetBestBlock :: "coins_db \<Rightarrow> base_blob \<times> coins_db" where
  "db_GetBestBlock db = (case db_best db of None \<Rightarrow> replicate 32 0 | Some h \<Rightarrow> h, db)"

definition db_GetHeadBlocks :: "coins_db \<Rightarrow> base_blob list" where
  "db_GetHeadBlocks db = (case db_heads db of None \<Rightarrow> [] | Some hs \<Rightarrow> hs)"

fun db_write_loop ::
  "(db_op list \<Rightarrow> nat) \<Rightarrow> nat \<Rightarrow> CCoinsMap \<Rightarrow> db_op list \<Rightarrow> coins_db \<Rightarrow> db_op list \<times> coins_db" where
  "db_write_loop est batch_size [] batch db = (batch, db)"
| "db_write_loop est batch_size (it # m) batch db =
     (let batch = (if ce_flags (snd it) AND DIRTY \<noteq> 0
                   then batch @ [if IsSpent (ce_coin (snd it)) then EraseCoin (fst it)
                                 else WriteCoin (fst it) (ce_coin (snd it))]
                   else batch)
      in if est batch > batch_size then db_write_loop est batch_size m [] (WriteBatch batch db)
         else db_write_loop est batch_size m batch db)"

definition db_BatchWrite ::
  "(db_op list \<Rightarrow> nat) \<Rightarrow> nat \<Rightarrow> coins_db \<Rightarrow> CCoinsMap \<Rightarrow> base_blob \<Rightarrow> (bool \<times> coins_db) outcome" where
  "db_BatchWrite est batch_size db mapCoins hashBlock =
     assert_out (\<not> blob_IsNull hashBlock)
       (let old_tip = fst (db_GetBestBlock db); old_heads = db_GetHeadBlocks db in
        bind_out (if blob_IsNull old_tip \<and> length old_heads = 2
                  then assert_out (old_heads ! 0 = hashBlock) (Inr (old_heads ! 1)) else Inr old_tip)
          (\<lambda>old_tip.
             let batch = [EraseBest, WriteHeads [hashBlock, old_tip]];
                 (batch, db) = db_write_loop est batch_size mapCoins batch db;
                 batch = batch @ [EraseHeads, WriteBest hashBlock]
             in Inr (True, WriteBatch batch db)))"

definition db_view :: "(db_op list \<Rightarrow> nat) \<Rightarrow> nat \<Rightarrow> coins_db CCoinsView" where
  "db_view est batch_size =
     \<lparr>v_GetCoin = db_GetCoin, v_GetBestBlock = db_GetBestBlock, v_BatchWrite = db_BatchWrite est batch_size\<rparr>"

text \<open>
  The database holds unspent coins only and is not in the middle of a transition between two tips.
\<close>

definition db_ok :: "coins_db \<Rightarrow> bool" where
  "db_ok db \<longleftrightarrow> (\<forall>op c. db_coins db op = Some c \<longrightarrow> \<not> IsSpent c) \<and> db_heads db = None"

definition put_dirty :: "COutPoint \<times> CCoinsCacheEntry \<Rightarrow> coins_db \<Rightarrow> coins_db" where
  "put_dirty it db =
     (if ce_flags (snd it) AND DIRTY \<noteq> 0
      then db\<lparr>db_coins := (db_coins db)(fst it := unspent (ce_coin (snd it)))\<rparr> else db)"

lemma WriteBatch_Nil [simp]: "WriteBatch [] db = db"
  by (simp add: WriteBatch_def)

lemma db_write_loop_fold:
  "WriteBatch (fst (db_write_loop est bs m batch db)) (snd (db_write_loop est bs m batch db)) =
   fold put_dirty
     m (WriteBatch batch db)"
proof (induction m arbitrary: batch db)
  case Nil
  then show ?case by simp
next
  case (Cons it m)
  define b where "b = (if ce_flags (snd it) AND DIRTY \<noteq> 0
                   then batch @ [if IsSpent (ce_coin (snd it)) then EraseCoin (fst it)
                                 else WriteCoin (fst it) (ce_coin (snd it))]
                   else batch)"
  have "WriteBatch b db = put_dirty it (WriteBatch batch db)"
    by (simp add: b_def WriteBatch_def unspent_def put_dirty_def)
  moreover have "db_write_loop est bs (it # m) batch db =
      (if est b > bs then db_write_loop est bs m [] (WriteBatch b db) else db_write_loop est bs m b db)"
    by (simp add: b_def Let_def)
  ultimately show ?case
    using Cons [of "[]" "WriteBatch b db"] Cons [of b db] by simp
qed

lemma fold_dirty_coins:
  assumes "distinct (map fst m)"
  shows "db_coins (fold put_dirty m db) =
         apply_map m (db_coins db)"
  using assms
proof (induction m arbitrary: db)
  case Nil
  then show ?case by (simp add: apply_map_def fun_eq_iff)
next
  case (Cons it m)
  have "map_of m (fst it) = None" using Cons.prems by (auto simp: map_of_eq_None_iff)
  with Cons show ?case
    by (cases it) (auto simp: fun_eq_iff apply_map_def put_dirty_def split: option.splits)
qed

interpretation db: coins_view "db_view est bs" db_coins db_ok for est bs
proof
  fix s op r s'
  assume "db_ok s" and "v_GetCoin (db_view est bs) s op = (r, s')"
  then show "db_coins s op = (case r of None \<Rightarrow> None | Some c \<Rightarrow> unspent c) \<and> db_coins s' = db_coins s \<and> db_ok s'"
    by (auto simp: db_view_def db_GetCoin_def db_ok_def unspent_def split: option.splits)
next
  fix s h s'
  assume "db_ok s" and "v_GetBestBlock (db_view est bs) s = (h, s')"
  then show "db_coins s' = db_coins s \<and> db_ok s'"
    by (auto simp: db_view_def db_GetBestBlock_def)
next
  fix s m and h :: base_blob
  assume s: "db_ok s" and m: "child_ok m (db_coins s)" and h: "\<not> blob_IsNull h"
  define tip where "tip = fst (db_GetBestBlock s)"
  obtain batch d where l: "db_write_loop est bs m [EraseBest, WriteHeads [h, tip]] s = (batch, d)" by fastforce
  define s' where "s' = WriteBatch (batch @ [EraseHeads, WriteBest h]) d"
  have "v_BatchWrite (db_view est bs) s m h = Inr (True, s')"
    using s h l by (simp add: db_view_def db_BatchWrite_def db_ok_def db_GetHeadBlocks_def Let_def tip_def s'_def)
  moreover have c: "db_coins s' = apply_map m (db_coins s)"
  proof -
    have "db_coins s' = db_coins (WriteBatch batch d)"
      by (simp add: s'_def WriteBatch_def)
    then show ?thesis
      using db_write_loop_fold [of est bs m "[EraseBest, WriteHeads [h, tip]]" s] m
        fold_dirty_coins [of m "WriteBatch [EraseBest, WriteHeads [h, tip]] s"]
      by (simp add: l child_ok_def WriteBatch_def)
  qed
  moreover have "db_ok s'"
    using s c by (auto simp: db_ok_def apply_map_def unspent_def s'_def WriteBatch_def split: option.splits if_splits)
  ultimately show "\<exists>s'. v_BatchWrite (db_view est bs) s m h = Inr (True, s') \<and>
      db_coins s' = apply_map m (db_coins s) \<and> db_ok s'"
    by blast
qed

text \<open>The cache at the tip of the chain over the database, and a scratch cache over it.\<close>

interpretation tip: coins_view "cache_view (db_view est bs) mem" "cache_abs db_coins" "cache_inv db_coins db_ok mem"
  for est bs mem
  by (rule db.cache_is_view)

interpretation scratch: coins_view "cache_view (cache_view (db_view est bs) mem) mem"
  "cache_abs (cache_abs db_coins)" "cache_inv (cache_abs db_coins) (cache_inv db_coins db_ok mem) mem"
  for est bs mem
  by (rule tip.cache_is_view)

section \<open>Caches refine a plain set of coins\<close>

text \<open>
  Calls on a cache with what they return, and the same calls on a map from outpoints to unspent
  coins.
\<close>

datatype coins_call =
  CallGet COutPoint | CallHave COutPoint | CallAccess COutPoint | CallAdd COutPoint Coin bool |
  CallSpend COutPoint | CallUncache COutPoint | CallFlush

datatype coins_result = RCoin "Coin option" | RBool bool | RUnit

fun cache_call ::
  "'s CCoinsView \<Rightarrow> (Coin \<Rightarrow> u64) \<Rightarrow> coins_call \<Rightarrow> 's CCoinsViewCache \<Rightarrow> (coins_result \<times> 's CCoinsViewCache) outcome" where
  "cache_call V mem (CallGet p) c = (let (r, c) = GetCoin V mem c p in Inr (RCoin r, c))"
| "cache_call V mem (CallHave p) c = (let (r, c) = HaveCoin V mem c p in Inr (RBool r, c))"
| "cache_call V mem (CallAccess p) c = (let (r, c) = AccessCoin V mem c p in Inr (RCoin (unspent r), c))"
| "cache_call V mem (CallAdd p cn overwrite) c =
     bind_out (AddCoin mem c p cn overwrite) (\<lambda>c. Inr (RUnit, c))"
| "cache_call V mem (CallSpend p) c =
     (let ((r, moved), c, a) = SpendCoin V mem (\<lambda>_ _ (a :: unit). (True, a)) c None p
      in Inr (RCoin (case moved of None \<Rightarrow> None | Some cn \<Rightarrow> unspent cn), c))"
| "cache_call V mem (CallUncache p) c = Inr (RUnit, Uncache mem c p)"
| "cache_call V mem CallFlush c = bind_out (Flush V c) (\<lambda>(r, c). Inr (RBool r, c))"

fun set_call :: "coins_call \<Rightarrow> (COutPoint \<Rightarrow> Coin option) \<Rightarrow> coins_result \<times> (COutPoint \<Rightarrow> Coin option)" where
  "set_call (CallGet p) f = (RCoin (f p), f)"
| "set_call (CallHave p) f = (RBool (f p \<noteq> None), f)"
| "set_call (CallAccess p) f = (RCoin (f p), f)"
| "set_call (CallAdd p cn overwrite) f =
     (RUnit, if IsUnspendable (scriptPubKey (coin_out cn)) then f else f(p := Some cn))"
| "set_call (CallSpend p) f = (RCoin (f p), f(p := None))"
| "set_call (CallUncache p) f = (RUnit, f)"
| "set_call CallFlush f = (RBool True, f)"

text \<open>What the callers guarantee: an overwrite is announced, and no spent coin is added.\<close>

fun call_ok :: "coins_call \<Rightarrow> (COutPoint \<Rightarrow> Coin option) \<Rightarrow> bool" where
  "call_ok (CallAdd p cn overwrite) f \<longleftrightarrow> \<not> IsSpent cn \<and> (overwrite \<or> f p = None)"
| "call_ok _ f \<longleftrightarrow> True"

fun run_cache ::
  "'s CCoinsView \<Rightarrow> (Coin \<Rightarrow> u64) \<Rightarrow> coins_call list \<Rightarrow> 's CCoinsViewCache \<Rightarrow>
   (coins_result list \<times> 's CCoinsViewCache) outcome" where
  "run_cache V mem [] c = Inr ([], c)"
| "run_cache V mem (k # ks) c =
     bind_out (cache_call V mem k c) (\<lambda>(r, c). bind_out (run_cache V mem ks c) (\<lambda>(rs, c). Inr (r # rs, c)))"

fun run_set :: "coins_call list \<Rightarrow> (COutPoint \<Rightarrow> Coin option) \<Rightarrow> coins_result list \<times> (COutPoint \<Rightarrow> Coin option)" where
  "run_set [] f = ([], f)"
| "run_set (k # ks) f = (let (r, f) = set_call k f; (rs, f) = run_set ks f in (r # rs, f))"

fun calls_ok :: "coins_call list \<Rightarrow> (COutPoint \<Rightarrow> Coin option) \<Rightarrow> bool" where
  "calls_ok [] f \<longleftrightarrow> True"
| "calls_ok (k # ks) f \<longleftrightarrow> call_ok k f \<and> calls_ok ks (snd (set_call k f))"

lemma FetchCoin_hash: "FetchCoin V mem c op = (r, c') \<Longrightarrow> cv_hashBlock c' = cv_hashBlock c"
  by (auto simp: FetchCoin_def Let_def split: option.splits prod.splits)

context coins_view
begin

lemma cache_call_refines:
  assumes "cache_inv view ok mem c" "mem coinEmpty = 0" "\<not> blob_IsNull (cv_hashBlock c)" "call_ok k (cache_abs view c)"
  shows "\<exists>c'. cache_call V mem k c = Inr (fst (set_call k (cache_abs view c)), c') \<and>
    cache_inv view ok mem c' \<and> cache_abs view c' = snd (set_call k (cache_abs view c)) \<and> \<not> blob_IsNull (cv_hashBlock c')"
proof (cases k)
  case (CallGet p)
  obtain r c' where g: "GetCoin V mem c p = (r, c')" by fastforce
  then have "cv_hashBlock c' = cv_hashBlock c"
    by (auto simp: GetCoin_def split: prod.splits dest: FetchCoin_hash)
  with GetCoin_spec [OF assms(1) g] CallGet g assms(3) show ?thesis by simp
next
  case (CallHave p)
  obtain r c' where g: "HaveCoin V mem c p = (r, c')" by fastforce
  then have "cv_hashBlock c' = cv_hashBlock c"
    by (auto simp: HaveCoin_def split: prod.splits dest: FetchCoin_hash)
  with HaveCoin_spec [OF assms(1) g] CallHave g assms(3) show ?thesis by simp
next
  case (CallAccess p)
  obtain r c' where g: "AccessCoin V mem c p = (r, c')" by fastforce
  then have "cv_hashBlock c' = cv_hashBlock c"
    by (auto simp: AccessCoin_def split: prod.splits dest: FetchCoin_hash)
  with AccessCoin_spec [OF assms(1) g] CallAccess g assms(3) show ?thesis by simp
next
  case (CallAdd p cn ow)
  then show ?thesis using AddCoin_spec [OF assms(1), of cn ow p] assms(3,4) by auto
next
  case (CallSpend p)
  obtain r m c' a where g: "SpendCoin V mem (\<lambda>_ _ (a :: unit). (True, a)) c None p = ((r, m), c', a)"
    by (metis surj_pair)
  with SpendCoin_spec [OF assms(1,2) g] CallSpend assms(3) show ?thesis by simp
next
  case (CallUncache p)
  have "cv_hashBlock (Uncache mem c p) = cv_hashBlock c" by (simp add: Uncache_def split: option.splits)
  with Uncache_spec [OF assms(1), of p] CallUncache assms(3) show ?thesis by simp
next
  case CallFlush
  with Flush_spec [OF assms(1,3)] assms(3) show ?thesis by auto
qed

lemma run_cache_refines:
  assumes "cache_inv view ok mem c" "mem coinEmpty = 0" "\<not> blob_IsNull (cv_hashBlock c)" "calls_ok ks (cache_abs view c)"
  shows "\<exists>c'. run_cache V mem ks c = Inr (fst (run_set ks (cache_abs view c)), c') \<and>
    cache_inv view ok mem c' \<and> cache_abs view c' = snd (run_set ks (cache_abs view c)) \<and> \<not> blob_IsNull (cv_hashBlock c')"
  using assms
proof (induction ks arbitrary: c)
  case Nil
  then show ?case by simp
next
  case (Cons k ks)
  then obtain c1 where c1: "cache_call V mem k c = Inr (fst (set_call k (cache_abs view c)), c1)"
    "cache_inv view ok mem c1" "cache_abs view c1 = snd (set_call k (cache_abs view c))" "\<not> blob_IsNull (cv_hashBlock c1)"
    using cache_call_refines [of mem c k] by auto
  then show ?case
    using Cons.IH [of c1] Cons.prems by (auto simp: Let_def split: prod.splits)
qed

end

text \<open>A cache over a cache over the database: the lower view, the coins shown and the invariant.\<close>

definition stack_view :: "(db_op list \<Rightarrow> nat) \<Rightarrow> nat \<Rightarrow> (Coin \<Rightarrow> u64) \<Rightarrow> coins_db CCoinsViewCache CCoinsView" where
  "stack_view est bs mem = cache_view (db_view est bs) mem"

definition stack_shows :: "coins_db CCoinsViewCache CCoinsViewCache \<Rightarrow> COutPoint \<Rightarrow> Coin option" where
  "stack_shows = cache_abs (cache_abs db_coins)"

definition stack_ok :: "(Coin \<Rightarrow> u64) \<Rightarrow> coins_db CCoinsViewCache CCoinsViewCache \<Rightarrow> bool" where
  "stack_ok mem = cache_inv (cache_abs db_coins) (cache_inv db_coins db_ok mem) mem"

lemmas stack_defs = stack_view_def stack_shows_def stack_ok_def

text \<open>
  C2. The coin caches implement a plain map. On a cache over a cache over the database, any
  sequence of lookups, additions, spends, evictions and flushes whose additions announce their
  overwrites returns what the same sequence returns on a map from outpoints to unspent coins,
  throws nothing, and leaves a stack that shows the resulting map: the flags still describe how
  each entry differs from the view below, and the memory counter is the sum over the entries. A
  final flush makes the lower cache show the same map and empties the upper one.
\<close>

theorem coins_cache_refines_map:
  assumes "stack_ok mem c" "mem coinEmpty = 0" "\<not> blob_IsNull (cv_hashBlock c)" "calls_ok ks (stack_shows c)"
  shows "\<exists>c'. run_cache (stack_view est bs mem) mem ks c = Inr (fst (run_set ks (stack_shows c)), c') \<and>
     stack_ok mem c' \<and> stack_shows c' = snd (run_set ks (stack_shows c)) \<and>
     (\<exists>c''. Flush (stack_view est bs mem) c' = Inr (True, c'') \<and> stack_ok mem c'' \<and>
        cacheCoins c'' = [] \<and> cachedCoinsUsage c'' = 0 \<and> cache_abs db_coins (cv_base c'') = stack_shows c')"
proof -
  obtain c' where c': "run_cache (stack_view est bs mem) mem ks c = Inr (fst (run_set ks (stack_shows c)), c')"
    "stack_ok mem c'" "stack_shows c' = snd (run_set ks (stack_shows c))" "\<not> blob_IsNull (cv_hashBlock c')"
    using tip.run_cache_refines [OF assms [unfolded stack_defs]] unfolding stack_defs by blast
  then show ?thesis
    using tip.Flush_spec [OF c'(2,4) [unfolded stack_defs]] unfolding stack_defs
    by blast
qed

text \<open>An empty database below two empty caches, and a run that adds, spends and flushes.\<close>

definition empty_db :: coins_db where
  "empty_db = \<lparr>db_coins = (\<lambda>_. None), db_best = None, db_heads = None\<rparr>"

definition demo_stack :: "coins_db CCoinsViewCache CCoinsViewCache" where
  "demo_stack = SetBestBlock (new_cache (new_cache empty_db)) (replicate 32 1)"

definition demo_point :: "u32 \<Rightarrow> COutPoint" where
  "demo_point k = \<lparr>op_hash = replicate 32 5, op_n = k\<rparr>"

definition demo_coin :: Coin where
  "demo_coin = Coin_of \<lparr>nValue = 50, scriptPubKey = [OP_TRUE]\<rparr> 7 True"

definition demo_calls :: "coins_call list" where
  "demo_calls = [CallAdd (demo_point 0) demo_coin False, CallAdd (demo_point 1) demo_coin False, CallFlush,
     CallSpend (demo_point 0), CallHave (demo_point 0), CallGet (demo_point 1), CallUncache (demo_point 1)]"

theorem coins_cache_refines_map_witness:
  "\<exists>c'. run_cache (stack_view length 3 (\<lambda>_. 0)) (\<lambda>_. 0) demo_calls demo_stack =
      Inr ([RUnit, RUnit, RBool True, RCoin (Some demo_coin), RBool False, RCoin (Some demo_coin), RUnit], c') \<and>
    stack_shows c' (demo_point 0) = None \<and> stack_shows c' (demo_point 1) = Some demo_coin"
proof -
  have i: "stack_ok (\<lambda>_. 0) demo_stack"
    by (simp add: stack_ok_def demo_stack_def SetBestBlock_def new_cache_def cache_inv_def coins_usage_def db_ok_def empty_db_def)
  have h: "\<not> blob_IsNull (cv_hashBlock demo_stack)" by code_simp
  have s: "stack_shows demo_stack = (\<lambda>_. None)"
    by (simp add: fun_eq_iff stack_shows_def cache_abs_def demo_stack_def SetBestBlock_def new_cache_def empty_db_def)
  have ok: "calls_ok demo_calls (\<lambda>_. None)" by code_simp
  have r: "fst (run_set demo_calls (\<lambda>_. None)) =
      [RUnit, RUnit, RBool True, RCoin (Some demo_coin), RBool False, RCoin (Some demo_coin), RUnit]"
    "snd (run_set demo_calls (\<lambda>_. None)) (demo_point 0) = None"
    "snd (run_set demo_calls (\<lambda>_. None)) (demo_point 1) = Some demo_coin"
    by code_simp+
  show ?thesis
    using coins_cache_refines_map [OF i refl h, of demo_calls length 3] ok r unfolding s by metis
qed

section \<open>Connecting and disconnecting transactions\<close>

text \<open>
  \<^verbatim>\<open>AddCoins\<close>, \<^verbatim>\<open>UpdateCoins\<close>, \<^verbatim>\<open>ApplyTxInUndo\<close> and the coin part of \<^verbatim>\<open>DisconnectBlock\<close>. \<open>H\<close> is the transaction hash. The
  asset cache is an opaque state with four operations: those of \<^verbatim>\<open>CAssetsCache\<close> that spend and restore a
  coin, what \<^verbatim>\<open>AddCoins\<close> records of a transaction, and what \<^verbatim>\<open>DisconnectBlock\<close> undoes of it between the outputs
  and the inputs. The address indexes are left out.
\<close>

record 'a asset_ops =
  a_TrySpendCoin :: "COutPoint \<Rightarrow> CTxOut \<Rightarrow> 'a \<Rightarrow> bool \<times> 'a"
  a_UndoAssetCoin :: "Coin \<Rightarrow> COutPoint \<Rightarrow> 'a \<Rightarrow> bool \<times> 'a"
  a_add_tx :: "CTransaction \<Rightarrow> int \<Rightarrow> 'a \<Rightarrow> 'a"
  a_undo_tx :: "CTransaction \<Rightarrow> 'a \<Rightarrow> bool \<times> 'a"

fun add_outputs ::
  "'s CCoinsView \<Rightarrow> (Coin \<Rightarrow> u64) \<Rightarrow> base_blob \<Rightarrow> bool \<Rightarrow> int \<Rightarrow> bool \<Rightarrow> nat \<Rightarrow> CTxOut list \<Rightarrow>
   's CCoinsViewCache \<Rightarrow> 's CCoinsViewCache outcome" where
  "add_outputs V mem txid fCoinbase nHeight check i [] c = Inr c"
| "add_outputs V mem txid fCoinbase nHeight check i (out # outs) c =
     (let p = \<lparr>op_hash = txid, op_n = of_nat i\<rparr>;
          (overwrite, c) = (if check then HaveCoin V mem c p else (fCoinbase, c))
      in bind_out (AddCoin mem c p (Coin_of out nHeight fCoinbase) overwrite)
           (add_outputs V mem txid fCoinbase nHeight check (Suc i) outs))"

definition AddCoins ::
  "'s CCoinsView \<Rightarrow> (Coin \<Rightarrow> u64) \<Rightarrow> 'a asset_ops \<Rightarrow> (CTransaction \<Rightarrow> base_blob) \<Rightarrow> 's CCoinsViewCache \<Rightarrow> CTransaction \<Rightarrow>
   int \<Rightarrow> bool \<Rightarrow> 'a option \<Rightarrow> ('s CCoinsViewCache \<times> 'a option) outcome" where
  "AddCoins V mem A H c tx nHeight check a =
     bind_out (add_outputs V mem (H tx) (IsCoinBase tx) nHeight check 0 (vout tx) c)
       (\<lambda>c. Inr (c, map_option (a_add_tx A tx nHeight) a))"

fun spend_inputs ::
  "'s CCoinsView \<Rightarrow> (Coin \<Rightarrow> u64) \<Rightarrow> 'a asset_ops \<Rightarrow> CTxIn list \<Rightarrow>
   's CCoinsViewCache \<Rightarrow> 'a option \<Rightarrow> (Coin list \<times> 's CCoinsViewCache \<times> 'a option) outcome" where
  "spend_inputs V mem A [] c a = Inr ([], c, a)"
| "spend_inputs V mem A (i # is) c a =
     (let ((is_spent, moved), c, a) = SpendCoin V mem (a_TrySpendCoin A) c a (prevout i) in
      assert_out is_spent
        (bind_out (spend_inputs V mem A is c a) (\<lambda>(undo, c, a).
           Inr ((case moved of None \<Rightarrow> coinEmpty | Some cn \<Rightarrow> cn) # undo, c, a))))"

definition UpdateCoins ::
  "'s CCoinsView \<Rightarrow> (Coin \<Rightarrow> u64) \<Rightarrow> 'a asset_ops \<Rightarrow> (CTransaction \<Rightarrow> base_blob) \<Rightarrow>
   CTransaction \<Rightarrow> 's CCoinsViewCache \<Rightarrow> 'a option \<Rightarrow> int \<Rightarrow> (Coin list \<times> 's CCoinsViewCache \<times> 'a option) outcome" where
  "UpdateCoins V mem A H tx inputs a nHeight =
     bind_out (if \<not> IsCoinBase tx then spend_inputs V mem A (vin tx) inputs a else Inr ([], inputs, a))
       (\<lambda>(vprevout, c, a). bind_out (AddCoins V mem A H c tx nHeight False a) (\<lambda>(c, a). Inr (vprevout, c, a)))"

datatype DisconnectResult = DISCONNECT_OK | DISCONNECT_UNCLEAN | DISCONNECT_FAILED

definition coin_IsAsset :: "Coin \<Rightarrow> bool" where
  "coin_IsAsset c \<longleftrightarrow> IsAssetScript (scriptPubKey (coin_out c)) \<noteq> None"

definition ApplyTxInUndo ::
  "'s CCoinsView \<Rightarrow> (Coin \<Rightarrow> u64) \<Rightarrow> 'a asset_ops \<Rightarrow> Coin \<Rightarrow> 's CCoinsViewCache \<Rightarrow>
   'a option \<Rightarrow> COutPoint \<Rightarrow> (DisconnectResult \<times> 's CCoinsViewCache \<times> 'a option) outcome" where
  "ApplyTxInUndo V mem A undo view assetCache out =
     (let fIsAsset = coin_IsAsset undo;
          tempCoin = undo;
          (have, view) = HaveCoin V mem view out;
          fClean = \<not> have;
          (undo', view) =
            (if coin_nHeight undo = 0 then
               (let (alternate, view) = AccessByTxid V mem view (op_hash out) in
                (if \<not> IsSpent alternate
                 then Some (undo\<lparr>coin_nHeight := coin_nHeight alternate, coin_fCoinBase := coin_fCoinBase alternate\<rparr>)
                 else None, view))
             else (Some undo, view))
      in case undo' of
           None \<Rightarrow> Inr (DISCONNECT_FAILED, view, assetCache)
         | Some undo \<Rightarrow>
             bind_out (AddCoin mem view out undo (\<not> fClean)) (\<lambda>view.
               let (fClean, assetCache) =
                     (case assetCache of
                        Some a \<Rightarrow> if fIsAsset
                          then (let (ok, a) = a_UndoAssetCoin A tempCoin out a in (fClean \<and> ok, Some a))
                          else (fClean, Some a)
                      | None \<Rightarrow> (fClean, None))
               in Inr (if fClean then DISCONNECT_OK else DISCONNECT_UNCLEAN, view, assetCache)))"

fun disconnect_outputs ::
  "'s CCoinsView \<Rightarrow> (Coin \<Rightarrow> u64) \<Rightarrow> 'a asset_ops \<Rightarrow> base_blob \<Rightarrow> bool \<Rightarrow> int \<Rightarrow> nat \<Rightarrow>
   CTxOut list \<Rightarrow> bool \<Rightarrow> 's CCoinsViewCache \<Rightarrow> 'a option \<Rightarrow> bool \<times> 's CCoinsViewCache \<times> 'a option" where
  "disconnect_outputs V mem A hash is_coinbase nHeight i [] fClean view tempCache = (fClean, view, tempCache)"
| "disconnect_outputs V mem A hash is_coinbase nHeight i (out # outs) fClean view tempCache =
     (if \<not> IsUnspendable (scriptPubKey out) then
        (let ((is_spent, moved), view, tempCache) =
               SpendCoin V mem (a_TrySpendCoin A) view tempCache \<lparr>op_hash = hash, op_n = of_nat i\<rparr>;
             cn = (case moved of None \<Rightarrow> coinEmpty | Some cn \<Rightarrow> cn);
             mismatch = (\<not> is_spent \<or> out \<noteq> coin_out cn \<or> nHeight \<noteq> uint (coin_nHeight cn) \<or>
                         is_coinbase \<noteq> coin_fCoinBase cn)
         in disconnect_outputs V mem A hash is_coinbase nHeight (Suc i) outs (fClean \<and> \<not> mismatch) view tempCache)
      else disconnect_outputs V mem A hash is_coinbase nHeight (Suc i) outs fClean view tempCache)"

text \<open>Inputs and their undo records from the last one to the first; \<open>None\<close> is \<open>DISCONNECT_FAILED\<close>.\<close>

fun restore_inputs ::
  "'s CCoinsView \<Rightarrow> (Coin \<Rightarrow> u64) \<Rightarrow> 'a asset_ops \<Rightarrow> (CTxIn \<times> Coin) list \<Rightarrow> bool \<Rightarrow>
   's CCoinsViewCache \<Rightarrow> 'a option \<Rightarrow> (bool option \<times> 's CCoinsViewCache \<times> 'a option) outcome" where
  "restore_inputs V mem A [] fClean view a = Inr (Some fClean, view, a)"
| "restore_inputs V mem A ((i, undo) # rest) fClean view a =
     bind_out (ApplyTxInUndo V mem A undo view a (prevout i)) (\<lambda>(res, view, a).
       if res = DISCONNECT_FAILED then Inr (None, view, a)
       else restore_inputs V mem A rest (fClean \<and> res \<noteq> DISCONNECT_UNCLEAN) view a)"

text \<open>
  One transaction of the loop; \<open>undo\<close> is absent for the first transaction of a block. The outputs are
  spent against a copy of the asset cache, the inputs restored in the asset cache itself. \<open>None\<close> is
  \<open>DISCONNECT_FAILED\<close>.
\<close>

definition disconnect_tx ::
  "'s CCoinsView \<Rightarrow> (Coin \<Rightarrow> u64) \<Rightarrow> 'a asset_ops \<Rightarrow>
   (CTransaction \<Rightarrow> base_blob) \<Rightarrow> int \<Rightarrow> CTransaction \<Rightarrow> Coin list option \<Rightarrow> bool \<Rightarrow> 's CCoinsViewCache \<Rightarrow> 'a option \<Rightarrow> 'a option \<Rightarrow>
   (bool option \<times> 's CCoinsViewCache \<times> 'a option \<times> 'a option) outcome" where
  "disconnect_tx V mem A H nHeight tx undo fClean view tempCache a =
     (let (fClean, view, tempCache) =
            disconnect_outputs V mem A (H tx) (IsCoinBase tx) nHeight 0 (vout tx) fClean view tempCache;
          (ok, a) = (case a of None \<Rightarrow> (True, None) | Some x \<Rightarrow> let (ok, x) = a_undo_tx A tx x in (ok, Some x))
      in if \<not> ok then Inr (None, view, tempCache, a)
         else case undo of
           None \<Rightarrow> Inr (Some fClean, view, tempCache, a)
         | Some vprevout \<Rightarrow>
             if length vprevout \<noteq> length (vin tx) then Inr (None, view, tempCache, a)
             else bind_out (restore_inputs V mem A (rev (zip (vin tx) vprevout)) fClean view a)
                    (\<lambda>(r, view, a). Inr (r, view, tempCache, a)))"

text \<open>The transactions of a block from the last one to the first, with their undo records.\<close>

fun disconnect_loop ::
  "'s CCoinsView \<Rightarrow> (Coin \<Rightarrow> u64) \<Rightarrow> 'a asset_ops \<Rightarrow>
   (CTransaction \<Rightarrow> base_blob) \<Rightarrow> int \<Rightarrow> (CTransaction \<times> Coin list option) list \<Rightarrow> bool \<Rightarrow> 's CCoinsViewCache \<Rightarrow> 'a option \<Rightarrow>
   'a option \<Rightarrow> (DisconnectResult \<times> 's CCoinsViewCache \<times> 'a option) outcome" where
  "disconnect_loop V mem A H nHeight [] fClean view tempCache a =
     Inr (if fClean then DISCONNECT_OK else DISCONNECT_UNCLEAN, view, a)"
| "disconnect_loop V mem A H nHeight ((tx, undo) # rest) fClean view tempCache a =
     bind_out (disconnect_tx V mem A H nHeight tx undo fClean view tempCache a) (\<lambda>(r, view, tempCache, a).
       case r of None \<Rightarrow> Inr (DISCONNECT_FAILED, view, a)
       | Some fClean \<Rightarrow> disconnect_loop V mem A H nHeight rest fClean view tempCache a)"

text \<open>
  \<^verbatim>\<open>vprevhash\<close> is the hash of the previous block, \<open>vtxundo\<close> the undo data read from disk. The model starts
  once the undo data of coins and assets have been read; a failed read, like a failed write of the
  address indexes, returns \<^verbatim>\<open>DISCONNECT_FAILED\<close> in the source.
\<close>

definition DisconnectBlock ::
  "'s CCoinsView \<Rightarrow> (Coin \<Rightarrow> u64) \<Rightarrow> 'a asset_ops \<Rightarrow>
   (CTransaction \<Rightarrow> base_blob) \<Rightarrow> int \<Rightarrow> CTransaction list \<Rightarrow> Coin list list \<Rightarrow> base_blob \<Rightarrow> 's CCoinsViewCache \<Rightarrow>
   'a option \<Rightarrow> (DisconnectResult \<times> 's CCoinsViewCache \<times> 'a option) outcome" where
  "DisconnectBlock V mem A H nHeight vtx vtxundo vprevhash view a =
     (if length vtxundo + 1 \<noteq> length vtx then Inr (DISCONNECT_FAILED, view, a)
      else if a = None then Inl NullDeref
      else bind_out (disconnect_loop V mem A H nHeight (rev (zip vtx (None # map Some vtxundo))) True view a a)
        (\<lambda>(r, view, a). Inr (r, if r = DISCONNECT_FAILED then view else SetBestBlock view vprevhash, a)))"

text \<open>The calls of \<^verbatim>\<open>UpdateCoins\<close> in \<^verbatim>\<open>ConnectBlock\<close>: the first transaction leaves no undo record.\<close>

fun connect_loop ::
  "'s CCoinsView \<Rightarrow> (Coin \<Rightarrow> u64) \<Rightarrow> 'a asset_ops \<Rightarrow> (CTransaction \<Rightarrow> base_blob) \<Rightarrow> int \<Rightarrow> nat \<Rightarrow>
   CTransaction list \<Rightarrow> 's CCoinsViewCache \<Rightarrow> 'a option \<Rightarrow> (Coin list list \<times> 's CCoinsViewCache \<times> 'a option) outcome" where
  "connect_loop V mem A H nHeight i [] view a = Inr ([], view, a)"
| "connect_loop V mem A H nHeight i (tx # txs) view a =
     bind_out (UpdateCoins V mem A H tx view a nHeight) (\<lambda>(txundo, view, a).
       bind_out (connect_loop V mem A H nHeight (Suc i) txs view a) (\<lambda>(vtxundo, view, a).
         Inr (if i = 0 then vtxundo else txundo # vtxundo, view, a)))"

section \<open>Disconnecting undoes connecting\<close>

text \<open>The effect of a transaction on a map of coins.\<close>

fun put_outputs :: "base_blob \<Rightarrow> bool \<Rightarrow> int \<Rightarrow> nat \<Rightarrow> CTxOut list \<Rightarrow> (COutPoint \<Rightarrow> Coin option) \<Rightarrow> COutPoint \<Rightarrow> Coin option" where
  "put_outputs txid cb h i [] f = f"
| "put_outputs txid cb h i (out # outs) f =
     put_outputs txid cb h (Suc i) outs
       (if IsUnspendable (scriptPubKey out) then f
        else f(\<lparr>op_hash = txid, op_n = of_nat i\<rparr> := Some (Coin_of out h cb)))"

fun drop_points :: "COutPoint list \<Rightarrow> (COutPoint \<Rightarrow> Coin option) \<Rightarrow> COutPoint \<Rightarrow> Coin option" where
  "drop_points [] f = f"
| "drop_points (p # ps) f = drop_points ps (f(p := None))"

definition connect_tx :: "(CTransaction \<Rightarrow> base_blob) \<Rightarrow> int \<Rightarrow> CTransaction \<Rightarrow> (COutPoint \<Rightarrow> Coin option) \<Rightarrow> COutPoint \<Rightarrow> Coin option" where
  "connect_tx H h tx f =
     put_outputs (H tx) (IsCoinBase tx) h 0 (vout tx)
       (if IsCoinBase tx then f else drop_points (map prevout (vin tx)) f)"

text \<open>
  A transaction that can be connected to \<open>f\<close>: distinct inputs that are spendable coins above height 0, no
  output that is spent already or whose outpoint exists.
\<close>

definition coin_restorable :: "Coin \<Rightarrow> bool" where
  "coin_restorable cn \<longleftrightarrow>
     \<not> IsSpent cn \<and> coin_nHeight cn \<noteq> 0 \<and> \<not> IsUnspendable (scriptPubKey (coin_out cn))"

definition connectable :: "(CTransaction \<Rightarrow> base_blob) \<Rightarrow> CTransaction \<Rightarrow> (COutPoint \<Rightarrow> Coin option) \<Rightarrow> bool" where
  "connectable H tx f \<longleftrightarrow>
     (\<not> IsCoinBase tx \<longrightarrow> distinct (map prevout (vin tx)) \<and>
        list_all (\<lambda>i. case f (prevout i) of None \<Rightarrow> False | Some cn \<Rightarrow> coin_restorable cn) (vin tx)) \<and>
     int (length (vout tx)) < 2 ^ 32 \<and>
     list_all (\<lambda>out. \<not> txout_IsNull out) (vout tx) \<and>
     list_all (\<lambda>k. f \<lparr>op_hash = H tx, op_n = of_nat k\<rparr> = None) [0..<length (vout tx)]"

lemma op_index_neq: "i < j \<Longrightarrow> j < 2 ^ 32 \<Longrightarrow> (of_nat i :: u32) \<noteq> of_nat j"
proof
  assume "i < j" "j < 2 ^ 32" "(of_nat i :: u32) = of_nat j"
  then have "unat (of_nat i :: u32) = unat (of_nat j :: u32)" by simp
  with \<open>i < j\<close> \<open>j < 2 ^ 32\<close> show False by (simp add: unat_of_nat_small)
qed

lemma put_outputs_other:
  assumes "\<And>k. i \<le> k \<Longrightarrow> k < i + length outs \<Longrightarrow> p \<noteq> \<lparr>op_hash = txid, op_n = of_nat k\<rparr>"
  shows "put_outputs txid cb h i outs f p = f p"
  using assms
proof (induction outs arbitrary: i f)
  case Nil
  then show ?case by simp
next
  case (Cons out outs)
  have "p \<noteq> \<lparr>op_hash = txid, op_n = of_nat i\<rparr>" using Cons.prems [of i] by simp
  moreover have "put_outputs txid cb h (Suc i) outs g p = g p" for g
    using Cons.prems by (intro Cons.IH) auto
  ultimately show ?case by simp
qed

lemma put_outputs_upd:
  assumes "\<And>k. i \<le> k \<Longrightarrow> k < i + length outs \<Longrightarrow> p \<noteq> \<lparr>op_hash = txid, op_n = of_nat k\<rparr>"
  shows "(put_outputs txid cb h i outs f)(p := v) = put_outputs txid cb h i outs (f(p := v))"
  using assms
proof (induction outs arbitrary: i f)
  case Nil
  then show ?case by simp
next
  case (Cons out outs)
  have ne: "p \<noteq> \<lparr>op_hash = txid, op_n = of_nat i\<rparr>" using Cons.prems [of i] by simp
  have "(put_outputs txid cb h (Suc i) outs g)(p := v) = put_outputs txid cb h (Suc i) outs (g(p := v))" for g
    using Cons.prems by (intro Cons.IH) auto
  moreover have "f(\<lparr>op_hash = txid, op_n = of_nat i\<rparr> := w, p := v) = f(p := v, \<lparr>op_hash = txid, op_n = of_nat i\<rparr> := w)" for w
    using ne by (intro fun_upd_twist) simp
  ultimately show ?case by (cases "IsUnspendable (scriptPubKey out)") (simp_all only: put_outputs.simps if_True if_False)
qed

lemma drop_points_other: "p \<notin> set ps \<Longrightarrow> drop_points ps f p = f p"
  by (induction ps arbitrary: f) auto

lemma drop_points_in: "p \<in> set ps \<Longrightarrow> drop_points ps f p = None"
proof (induction ps arbitrary: f)
  case (Cons q ps)
  then show ?case by (cases "p \<in> set ps") (auto simp: drop_points_other)
qed simp

lemma drop_points_upd: "(drop_points ps f)(p := v) = drop_points (removeAll p ps) (f(p := v))"
proof (rule ext)
  fix q
  show "((drop_points ps f)(p := v)) q = drop_points (removeAll p ps) (f(p := v)) q"
    by (cases "q \<in> set ps") (auto simp: drop_points_in drop_points_other)
qed

text \<open>The operations of the asset cache report success.\<close>

definition assets_succeed :: "'a asset_ops \<Rightarrow> bool" where
  "assets_succeed A \<longleftrightarrow>
     (\<forall>p out a. fst (a_TrySpendCoin A p out a)) \<and> (\<forall>cn p a. fst (a_UndoAssetCoin A cn p a)) \<and> (\<forall>tx a. fst (a_undo_tx A tx a))"

lemma SpendCoin_verdict:
  assumes "SpendCoin V mem (a_TrySpendCoin A) c a p = ((r, Some cn), c', a')" "assets_succeed A"
  shows "r"
  using assms by (auto simp: SpendCoin_def Let_def assets_succeed_def split: prod.splits option.splits) (metis fst_conv)+

context coins_view
begin

lemma add_outputs_spec:
  assumes "cache_inv view ok mem c" "list_all (\<lambda>out. \<not> txout_IsNull out) outs" "i + length outs < 2 ^ 32"
    and "\<And>k. i \<le> k \<Longrightarrow> k < i + length outs \<Longrightarrow> cache_abs view c \<lparr>op_hash = txid, op_n = of_nat k\<rparr> = None"
  shows "\<exists>c'. add_outputs V mem txid cb h False i outs c = Inr c' \<and> cache_inv view ok mem c' \<and>
    cv_hashBlock c' = cv_hashBlock c \<and> cache_abs view c' = put_outputs txid cb h i outs (cache_abs view c)"
  using assms
proof (induction outs arbitrary: i c)
  case Nil
  then show ?case by simp
next
  case (Cons out outs)
  let ?p = "\<lparr>op_hash = txid, op_n = of_nat i\<rparr> :: COutPoint"
  have "\<not> IsSpent (Coin_of out h cb)" using Cons.prems(2) by (simp add: IsSpent_def Coin_of_def)
  moreover have "cache_abs view c ?p = None" using Cons.prems(4) [of i] by simp
  ultimately obtain c1 where c1: "AddCoin mem c ?p (Coin_of out h cb) cb = Inr c1" "cache_inv view ok mem c1"
    "cv_hashBlock c1 = cv_hashBlock c"
    "cache_abs view c1 = (if IsUnspendable (scriptPubKey out) then cache_abs view c
       else (cache_abs view c)(?p := Some (Coin_of out h cb)))"
    using AddCoin_spec [OF Cons.prems(1), of "Coin_of out h cb" cb ?p] by (auto simp: Coin_of_def)
  have "cache_abs view c1 \<lparr>op_hash = txid, op_n = of_nat k\<rparr> = None" if "Suc i \<le> k" "k < Suc i + length outs" for k
  proof -
    have "(of_nat k :: u32) \<noteq> of_nat i" using op_index_neq [of i k] that Cons.prems(3) by auto
    then show ?thesis using Cons.prems(4) [of k] that by (auto simp: c1(4))
  qed
  then obtain c2 where "add_outputs V mem txid cb h False (Suc i) outs c1 = Inr c2 \<and> cache_inv view ok mem c2 \<and>
      cv_hashBlock c2 = cv_hashBlock c1 \<and> cache_abs view c2 = put_outputs txid cb h (Suc i) outs (cache_abs view c1)"
    using Cons.IH [OF c1(2), of "Suc i"] Cons.prems by auto
  then show ?case using c1 by (simp add: Let_def)
qed

lemma spend_inputs_spec:
  assumes "cache_inv view ok mem c" "mem coinEmpty = 0" "assets_succeed A" "distinct (map prevout is)"
    and "list_all (\<lambda>i. cache_abs view c (prevout i) \<noteq> None) is"
  shows "\<exists>c' a'. spend_inputs V mem A is c a = Inr (map (\<lambda>i. the (cache_abs view c (prevout i))) is, c', a') \<and>
    cache_inv view ok mem c' \<and> cv_hashBlock c' = cv_hashBlock c \<and>
    cache_abs view c' = drop_points (map prevout is) (cache_abs view c)"
  using assms
proof (induction "is" arbitrary: c a)
  case Nil
  then show ?case by simp
next
  case (Cons i "is")
  obtain cn where cn: "cache_abs view c (prevout i) = Some cn" using Cons.prems(5) by auto
  obtain r moved c1 a1 where s: "SpendCoin V mem (a_TrySpendCoin A) c a (prevout i) = ((r, moved), c1, a1)" by (metis surj_pair)
  note sp = SpendCoin_spec [OF Cons.prems(1,2) s]
  have m: "moved = Some cn" and c1: "cache_inv view ok mem c1" "cv_hashBlock c1 = cv_hashBlock c"
    "cache_abs view c1 = (cache_abs view c)(prevout i := None)"
    using sp cn by auto
  have r: "r" using SpendCoin_verdict [OF s [unfolded m] Cons.prems(3)] .
  have same: "cache_abs view c1 (prevout j) = cache_abs view c (prevout j)" if "j \<in> set is" for j
  proof -
    have "prevout j \<noteq> prevout i" using that Cons.prems(4) by (auto simp: image_iff)
    then show ?thesis by (simp add: c1(3))
  qed
  then have "list_all (\<lambda>i. cache_abs view c1 (prevout i) \<noteq> None) is"
    using Cons.prems(5) by (auto simp: list_all_iff)
  then obtain c2 a2 where c2: "spend_inputs V mem A is c1 a1 = Inr (map (\<lambda>i. the (cache_abs view c1 (prevout i))) is, c2, a2)"
    "cache_inv view ok mem c2" "cv_hashBlock c2 = cv_hashBlock c1"
    "cache_abs view c2 = drop_points (map prevout is) (cache_abs view c1)"
    using Cons.IH [where a = a1, OF c1(1) Cons.prems(2,3)] Cons.prems(4) by auto
  have "map (\<lambda>i. the (cache_abs view c1 (prevout i))) is = map (\<lambda>i. the (cache_abs view c (prevout i))) is"
    using same by simp
  then show ?case using s m r c1 c2 cn by simp
qed

lemma UpdateCoins_spec:
  assumes "cache_inv view ok mem c" "mem coinEmpty = 0" "connectable H tx (cache_abs view c)" "assets_succeed A"
  shows "\<exists>c' a'. UpdateCoins V mem A H tx c a h =
      Inr (if IsCoinBase tx then [] else map (\<lambda>i. the (cache_abs view c (prevout i))) (vin tx), c', a') \<and>
    cache_inv view ok mem c' \<and> cv_hashBlock c' = cv_hashBlock c \<and> cache_abs view c' = connect_tx H h tx (cache_abs view c)"
proof -
  let ?f = "cache_abs view c"
  define g where "g = (if IsCoinBase tx then ?f else drop_points (map prevout (vin tx)) ?f)"
  obtain c1 a1 where c1: "(if \<not> IsCoinBase tx then spend_inputs V mem A (vin tx) c a else Inr ([], c, a)) =
      Inr (if IsCoinBase tx then [] else map (\<lambda>i. the (?f (prevout i))) (vin tx), c1, a1)"
    "cache_inv view ok mem c1" "cv_hashBlock c1 = cv_hashBlock c" "cache_abs view c1 = g"
  proof (cases "IsCoinBase tx")
    case True
    then show thesis using that assms(1) by (simp add: g_def)
  next
    case False
    then have "distinct (map prevout (vin tx))" "list_all (\<lambda>i. ?f (prevout i) \<noteq> None) (vin tx)"
      using assms(3) by (auto simp: connectable_def list_all_iff split: option.splits)
    then show thesis using that spend_inputs_spec [where a = a, OF assms(1,2,4), of "vin tx"] False by (auto simp: g_def)
  qed
  have "cache_abs view c1 \<lparr>op_hash = H tx, op_n = of_nat k\<rparr> = None" if "k < length (vout tx)" for k
  proof -
    have f: "?f \<lparr>op_hash = H tx, op_n = of_nat k\<rparr> = None"
      using assms(3) that by (auto simp: connectable_def list_all_iff)
    then show ?thesis
      using drop_points_other drop_points_in
      by (cases "\<lparr>op_hash = H tx, op_n = of_nat k\<rparr> \<in> set (map prevout (vin tx))") (auto simp: c1(4) g_def)
  qed
  then obtain c2 where "add_outputs V mem (H tx) (IsCoinBase tx) h False 0 (vout tx) c1 = Inr c2"
    "cache_inv view ok mem c2" "cv_hashBlock c2 = cv_hashBlock c1"
    "cache_abs view c2 = put_outputs (H tx) (IsCoinBase tx) h 0 (vout tx) g"
    using add_outputs_spec [OF c1(2), of "vout tx" 0 "H tx" "IsCoinBase tx" h] assms(3) c1(4)
    by (auto simp: connectable_def)
  then show ?thesis
    using c1 by (simp add: UpdateCoins_def AddCoins_def connect_tx_def g_def)
qed

end

text \<open>The transactions of a block in order: the first one and only the first one is a coinbase.\<close>

fun connect_txs :: "(CTransaction \<Rightarrow> base_blob) \<Rightarrow> int \<Rightarrow> CTransaction list \<Rightarrow> (COutPoint \<Rightarrow> Coin option) \<Rightarrow> COutPoint \<Rightarrow> Coin option" where
  "connect_txs H h [] f = f"
| "connect_txs H h (tx # txs) f = connect_txs H h txs (connect_tx H h tx f)"

fun block_connectable :: "(CTransaction \<Rightarrow> base_blob) \<Rightarrow> int \<Rightarrow> nat \<Rightarrow> CTransaction list \<Rightarrow> (COutPoint \<Rightarrow> Coin option) \<Rightarrow> bool" where
  "block_connectable H h i [] f \<longleftrightarrow> True"
| "block_connectable H h i (tx # txs) f \<longleftrightarrow>
     (IsCoinBase tx \<longleftrightarrow> i = 0) \<and> connectable H tx f \<and> block_connectable H h (Suc i) txs (connect_tx H h tx f)"

definition undo_records :: "nat \<Rightarrow> CTransaction list \<Rightarrow> Coin list list \<Rightarrow> Coin list option list" where
  "undo_records i txs us = (if i = 0 \<and> txs \<noteq> [] then None # map Some us else map Some us)"

lemma restore_points_at:
  "fold (\<lambda>(i, u) f. f(prevout i := Some u)) (map (\<lambda>i. (i, the (f (prevout i)))) is) g p =
    (if p \<in> prevout ` set is then Some (the (f p)) else g p)"
  by (induction "is" arbitrary: g) auto

lemma restore_points:
  assumes "\<And>i. i \<in> set is \<Longrightarrow> \<exists>cn. f (prevout i) = Some cn \<and> Q cn"
  shows "fold (\<lambda>(i, u) f. f(prevout i := Some u)) (rev (map (\<lambda>i. (i, the (f (prevout i)))) is))
    (drop_points (map prevout is) f) = f"
proof
  fix p
  show "fold (\<lambda>(i, u) f. f(prevout i := Some u)) (rev (map (\<lambda>i. (i, the (f (prevout i)))) is))
    (drop_points (map prevout is) f) p = f p"
    using assms by (fastforce simp: rev_map restore_points_at drop_points_other)
qed

context coins_view
begin

lemma disconnect_outputs_spec:
  assumes "cache_inv view ok mem c" "mem coinEmpty = 0" "assets_succeed A" "0 \<le> h" "h < 2 ^ 31" "i + length outs < 2 ^ 32"
    and "cache_abs view c = put_outputs txid cb h i outs g"
    and "\<And>k. i \<le> k \<Longrightarrow> k < i + length outs \<Longrightarrow> g \<lparr>op_hash = txid, op_n = of_nat k\<rparr> = None"
  shows "\<exists>c' t'. disconnect_outputs V mem A txid cb h i outs fClean c t = (fClean, c', t') \<and>
    cache_inv view ok mem c' \<and> cv_hashBlock c' = cv_hashBlock c \<and> cache_abs view c' = g"
  using assms
proof (induction outs arbitrary: i c g fClean t)
  case Nil
  then show ?case by simp
next
  case (Cons out outs)
  let ?p = "\<lparr>op_hash = txid, op_n = of_nat i\<rparr> :: COutPoint"
  have g0: "g ?p = None" using Cons.prems(8) [of i] by simp
  have rest: "g \<lparr>op_hash = txid, op_n = of_nat k\<rparr> = None" if "Suc i \<le> k" "k < Suc i + length outs" for k
    using Cons.prems(8) [of k] that by simp
  show ?case
  proof (cases "IsUnspendable (scriptPubKey out)")
    case True
    then show ?thesis
      using Cons.IH [OF Cons.prems(1-5), of "Suc i" g fClean t] Cons.prems(6,7) rest by simp
  next
    case False
    have ne: "?p \<noteq> \<lparr>op_hash = txid, op_n = of_nat k\<rparr>" if "Suc i \<le> k" "k < Suc i + length outs" for k
      using op_index_neq [of i k] that Cons.prems(6) by auto
    have f: "cache_abs view c = put_outputs txid cb h (Suc i) outs (g(?p := Some (Coin_of out h cb)))"
      using Cons.prems(7) False by simp
    have cn: "cache_abs view c ?p = Some (Coin_of out h cb)"
      unfolding f by (subst put_outputs_other) (use ne in auto)
    obtain r moved c1 t1 where s: "SpendCoin V mem (a_TrySpendCoin A) c t ?p = ((r, moved), c1, t1)" by (metis surj_pair)
    have m: "moved = Some (Coin_of out h cb)" and c1: "cache_inv view ok mem c1" "cv_hashBlock c1 = cv_hashBlock c"
      "cache_abs view c1 = (cache_abs view c)(?p := None)"
      using SpendCoin_spec [OF Cons.prems(1,2) s] cn by auto
    have r: "r" using SpendCoin_verdict [OF s [unfolded m] Cons.prems(3)] .
    have "cache_abs view c1 = put_outputs txid cb h (Suc i) outs g"
      unfolding c1(3) f by (subst put_outputs_upd) (use ne g0 in \<open>auto simp: fun_upd_idem\<close>)
    moreover have "uint (coin_nHeight (Coin_of out h cb)) = h"
      using Cons.prems(4,5) by (simp add: Coin_of_def uint_word_of_int_eq take_bit_int_eq_self)
    ultimately show ?thesis
      using Cons.IH [OF c1(1) Cons.prems(2-5), of "Suc i" g fClean t1] Cons.prems(6) rest s m r c1(2) False
      by (simp add: Let_def) (simp add: Coin_of_def)
  qed
qed

lemma ApplyTxInUndo_spec:
  assumes "cache_inv view ok mem c" "coin_restorable undo" "cache_abs view c out = None" "assets_succeed A"
  shows "\<exists>c' a'. ApplyTxInUndo V mem A undo c a out = Inr (DISCONNECT_OK, c', a') \<and>
    cache_inv view ok mem c' \<and> cv_hashBlock c' = cv_hashBlock c \<and> cache_abs view c' = (cache_abs view c)(out := Some undo)"
proof -
  obtain r c1 where h: "HaveCoin V mem c out = (r, c1)" by fastforce
  have r: "\<not> r" and c1: "cache_inv view ok mem c1" "cache_abs view c1 = cache_abs view c"
    using HaveCoin_spec [OF assms(1) h] assms(3) by auto
  have hb: "cv_hashBlock c1 = cv_hashBlock c"
    using h by (auto simp: HaveCoin_def split: prod.splits dest: FetchCoin_hash)
  obtain c2 where "AddCoin mem c1 out undo False = Inr c2" "cache_inv view ok mem c2" "cv_hashBlock c2 = cv_hashBlock c1"
    "cache_abs view c2 = (cache_abs view c1)(out := Some undo)"
    using AddCoin_spec [OF c1(1), of undo False out] assms(2,3) by (auto simp: coin_restorable_def c1(2))
  then show ?thesis
    using h r c1 hb assms(2,4)
    by (cases a) (auto simp: ApplyTxInUndo_def Let_def coin_restorable_def assets_succeed_def split_beta)
qed

lemma restore_inputs_spec:
  assumes "cache_inv view ok mem c" "distinct (map (\<lambda>(i, u). prevout i) ps)"
    and "list_all (\<lambda>(i, u). coin_restorable u \<and> cache_abs view c (prevout i) = None) ps" "assets_succeed A"
  shows "\<exists>c' a'. restore_inputs V mem A ps fClean c a = Inr (Some fClean, c', a') \<and>
    cache_inv view ok mem c' \<and> cv_hashBlock c' = cv_hashBlock c \<and>
    cache_abs view c' = fold (\<lambda>(i, u) f. f(prevout i := Some u)) ps (cache_abs view c)"
  using assms
proof (induction ps arbitrary: c a)
  case Nil
  then show ?case by simp
next
  case (Cons p ps)
  obtain i u where p: "p = (i, u)" by (cases p)
  obtain c1 a1 where c1: "ApplyTxInUndo V mem A u c a (prevout i) = Inr (DISCONNECT_OK, c1, a1)"
    "cache_inv view ok mem c1" "cv_hashBlock c1 = cv_hashBlock c" "cache_abs view c1 = (cache_abs view c)(prevout i := Some u)"
    using ApplyTxInUndo_spec [OF Cons.prems(1) _ _ Cons.prems(4), of u "prevout i" a] Cons.prems(3) by (auto simp: p)
  have "list_all (\<lambda>(i, u). coin_restorable u \<and> cache_abs view c1 (prevout i) = None) ps"
    using Cons.prems(2,3) unfolding p c1(4) list_all_iff Ball_def split_paired_All by (fastforce simp: image_iff)
  then show ?case
    using Cons.IH [OF c1(2), of a1] Cons.prems(2,4) c1 by (auto simp: p)
qed

lemma disconnect_tx_spec:
  assumes "cache_inv view ok mem c" "mem coinEmpty = 0" "assets_succeed A" "0 \<le> h" "h < 2 ^ 31" "connectable H tx f"
    and "cache_abs view c = connect_tx H h tx f"
    and "undo = (if IsCoinBase tx then None else Some (map (\<lambda>i. the (f (prevout i))) (vin tx)))"
  shows "\<exists>c' t' a'. disconnect_tx V mem A H h tx undo True c t a = Inr (Some True, c', t', a') \<and>
    cache_inv view ok mem c' \<and> cv_hashBlock c' = cv_hashBlock c \<and> cache_abs view c' = f"
proof -
  define g where "g = (if IsCoinBase tx then f else drop_points (map prevout (vin tx)) f)"
  have free: "g \<lparr>op_hash = H tx, op_n = of_nat k\<rparr> = None" if "k < length (vout tx)" for k
  proof -
    have "f \<lparr>op_hash = H tx, op_n = of_nat k\<rparr> = None"
      using assms(6) that by (auto simp: connectable_def list_all_iff)
    then show ?thesis
      by (cases "\<lparr>op_hash = H tx, op_n = of_nat k\<rparr> \<in> set (map prevout (vin tx))")
        (auto simp: g_def drop_points_in drop_points_other)
  qed
  obtain a1 where a1: "(case a of None \<Rightarrow> (True, None) | Some x \<Rightarrow> let (ok, x) = a_undo_tx A tx x in (ok, Some x)) = (True, a1)"
    using assms(3) by (cases a) (auto simp: assets_succeed_def split_beta)
  obtain c1 t1 where c1: "disconnect_outputs V mem A (H tx) (IsCoinBase tx) h 0 (vout tx) True c t = (True, c1, t1)"
    "cache_inv view ok mem c1" "cv_hashBlock c1 = cv_hashBlock c" "cache_abs view c1 = g"
    using disconnect_outputs_spec [OF assms(1-5), of 0 "vout tx" "H tx" "IsCoinBase tx" g True t] assms(6,7) free
    by (auto simp: connectable_def connect_tx_def g_def)
  show ?thesis
  proof (cases "IsCoinBase tx")
    case True
    then show ?thesis using c1 a1 assms(8) by (simp add: disconnect_tx_def g_def)
  next
    case False
    define u where "u = map (\<lambda>i. the (f (prevout i))) (vin tx)"
    have ins: "distinct (map prevout (vin tx))"
      "\<And>i. i \<in> set (vin tx) \<Longrightarrow> \<exists>cn. f (prevout i) = Some cn \<and> coin_restorable cn"
      using assms(6) False by (auto simp: connectable_def list_all_iff split: option.splits)
    have ps: "zip (vin tx) u = map (\<lambda>i. (i, the (f (prevout i)))) (vin tx)"
      by (simp add: u_def zip_map2 zip_same_conv_map)
    have "list_all (\<lambda>(i, u). coin_restorable u \<and> cache_abs view c1 (prevout i) = None) (rev (zip (vin tx) u))"
      using ins(2) False by (fastforce simp: ps list_all_iff c1(4) g_def drop_points_in)
    moreover have "distinct (map (\<lambda>(i, u). prevout i) (rev (zip (vin tx) u)))"
      using ins(1) by (simp add: ps rev_map [symmetric] comp_def)
    ultimately obtain c2 a2 where c2: "restore_inputs V mem A (rev (zip (vin tx) u)) True c1 a1 = Inr (Some True, c2, a2)"
      "cache_inv view ok mem c2" "cv_hashBlock c2 = cv_hashBlock c1"
      "cache_abs view c2 = fold (\<lambda>(i, u) f. f(prevout i := Some u)) (rev (zip (vin tx) u)) g"
      using restore_inputs_spec [OF c1(2) _ _ assms(3)] c1(4) by blast
    have "cache_abs view c2 = f"
      unfolding c2(4) ps g_def using False restore_points [of "vin tx" f coin_restorable, OF ins(2)] by simp
    then show ?thesis
      using c1 c2 a1 False assms(8) by (simp add: disconnect_tx_def u_def)
  qed
qed

lemma connect_disconnect_spec:
  assumes "cache_inv view ok mem c" "mem coinEmpty = 0" "assets_succeed A" "0 \<le> h" "h < 2 ^ 31" "block_connectable H h i txs (cache_abs view c)"
  shows "\<exists>us c' a'. connect_loop V mem A H h i txs c a = Inr (us, c', a') \<and>
    cache_inv view ok mem c' \<and> cv_hashBlock c' = cv_hashBlock c \<and> cache_abs view c' = connect_txs H h txs (cache_abs view c) \<and>
    length (undo_records i txs us) = length txs \<and>
    (\<forall>d rest t b. cache_inv view ok mem d \<longrightarrow> cache_abs view d = connect_txs H h txs (cache_abs view c) \<longrightarrow>
       (\<exists>d' t' b'. disconnect_loop V mem A H h (rev (zip txs (undo_records i txs us)) @ rest) True d t b =
          disconnect_loop V mem A H h rest True d' t' b' \<and>
          cache_inv view ok mem d' \<and> cv_hashBlock d' = cv_hashBlock d \<and> cache_abs view d' = cache_abs view c))"
  using assms(1,6)
proof (induction txs arbitrary: i c a)
  case Nil
  then show ?case by (auto simp: undo_records_def)
next
  case (Cons tx txs)
  let ?f = "cache_abs view c"
  define u where "u = (if IsCoinBase tx then [] else map (\<lambda>i. the (?f (prevout i))) (vin tx))"
  have ok: "connectable H tx ?f" "IsCoinBase tx \<longleftrightarrow> i = 0" using Cons.prems(2) by simp_all
  obtain c1 a1 where c1: "UpdateCoins V mem A H tx c a h = Inr (u, c1, a1)" "cache_inv view ok mem c1"
    "cv_hashBlock c1 = cv_hashBlock c" "cache_abs view c1 = connect_tx H h tx ?f"
    using UpdateCoins_spec [OF Cons.prems(1) assms(2) ok(1) assms(3), of a h] by (auto simp: u_def)
  obtain us c' a' where c': "connect_loop V mem A H h (Suc i) txs c1 a1 = Inr (us, c', a')" "cache_inv view ok mem c'"
    "cv_hashBlock c' = cv_hashBlock c1" "cache_abs view c' = connect_txs H h txs (cache_abs view c1)"
    "length (undo_records (Suc i) txs us) = length txs"
    and bk: "\<And>d rest t b. cache_inv view ok mem d \<Longrightarrow> cache_abs view d = connect_txs H h txs (cache_abs view c1) \<Longrightarrow>
       \<exists>d' t' b'. disconnect_loop V mem A H h (rev (zip txs (undo_records (Suc i) txs us)) @ rest) True d t b =
          disconnect_loop V mem A H h rest True d' t' b' \<and>
          cache_inv view ok mem d' \<and> cv_hashBlock d' = cv_hashBlock d \<and> cache_abs view d' = cache_abs view c1"
    using Cons.IH [OF c1(2), of "Suc i" a1] Cons.prems(2) unfolding c1(4) block_connectable.simps by blast
  let ?o = "if IsCoinBase tx then None else Some (map (\<lambda>i. the (?f (prevout i))) (vin tx))"
  have rec: "undo_records i (tx # txs) (if i = 0 then us else u # us) = ?o # undo_records (Suc i) txs us"
    using ok(2) by (simp add: undo_records_def u_def)
  show ?case
  proof (rule exI [of _ "if i = 0 then us else u # us"], rule exI [of _ c'], rule exI [of _ a'], intro conjI allI impI)
    show "connect_loop V mem A H h i (tx # txs) c a = Inr (if i = 0 then us else u # us, c', a')"
      using c1(1) c'(1) by simp
  next
    fix d rest t b
    assume d: "cache_inv view ok mem d" "cache_abs view d = connect_txs H h (tx # txs) ?f"
    have "cache_abs view d = connect_txs H h txs (cache_abs view c1)" using d(2) c1(4) by simp
    from bk [OF d(1) this, of "(tx, ?o) # rest" t b]
    obtain d1 t1 b1 where d1: "disconnect_loop V mem A H h (rev (zip txs (undo_records (Suc i) txs us)) @ (tx, ?o) # rest) True d t b =
        disconnect_loop V mem A H h ((tx, ?o) # rest) True d1 t1 b1"
      "cache_inv view ok mem d1" "cv_hashBlock d1 = cv_hashBlock d" "cache_abs view d1 = connect_tx H h tx ?f"
      using c1(4) by auto
    obtain d2 t2 b2 where "disconnect_tx V mem A H h tx ?o True d1 t1 b1 = Inr (Some True, d2, t2, b2)"
      "cache_inv view ok mem d2" "cv_hashBlock d2 = cv_hashBlock d1" "cache_abs view d2 = ?f"
      using disconnect_tx_spec [OF d1(2) assms(2-5) ok(1) d1(4) refl] by blast
    then show "\<exists>d' t' b'. disconnect_loop V mem A H h (rev (zip (tx # txs) (undo_records i (tx # txs) (if i = 0 then us else u # us))) @ rest)
        True d t b = disconnect_loop V mem A H h rest True d' t' b' \<and>
        cache_inv view ok mem d' \<and> cv_hashBlock d' = cv_hashBlock d \<and> cache_abs view d' = ?f"
      using d1 unfolding rec by (intro exI [of _ d2] exI [of _ t2] exI [of _ b2]) simp
  qed (use c1 c' rec in simp_all)
qed

lemma DisconnectBlock_spec:
  assumes "cache_inv view ok mem c" "mem coinEmpty = 0" "assets_succeed A" "0 \<le> h" "h < 2 ^ 31" "vtx \<noteq> []"
    and "block_connectable H h 0 vtx (cache_abs view c)"
  shows "\<exists>us c' c'' a' b'. connect_loop V mem A H h 0 vtx c a = Inr (us, c', a') \<and> cache_inv view ok mem c' \<and>
    cache_abs view c' = connect_txs H h vtx (cache_abs view c) \<and>
    DisconnectBlock V mem A H h vtx us prev (SetBestBlock c' best) (Some b) = Inr (DISCONNECT_OK, c'', b') \<and>
    cache_inv view ok mem c'' \<and> cache_abs view c'' = cache_abs view c \<and> cv_hashBlock c'' = prev"
proof -
  obtain us c' a' where c': "connect_loop V mem A H h 0 vtx c a = Inr (us, c', a')" "cache_inv view ok mem c'"
    "cache_abs view c' = connect_txs H h vtx (cache_abs view c)" "length (undo_records 0 vtx us) = length vtx"
    and bk: "\<And>d rest t b. cache_inv view ok mem d \<Longrightarrow> cache_abs view d = connect_txs H h vtx (cache_abs view c) \<Longrightarrow>
       \<exists>d' t' b'. disconnect_loop V mem A H h (rev (zip vtx (undo_records 0 vtx us)) @ rest) True d t b =
          disconnect_loop V mem A H h rest True d' t' b' \<and> cache_inv view ok mem d' \<and> cv_hashBlock d' = cv_hashBlock d \<and> cache_abs view d' = cache_abs view c"
    using connect_disconnect_spec [OF assms(1-5,7), of a] by blast
  have "cache_inv view ok mem (SetBestBlock d b)" "cache_abs view (SetBestBlock d b) = cache_abs view d"
    if "cache_inv view ok mem d" for d b
    using that by (simp_all add: SetBestBlock_def cache_inv_def cache_abs_def fun_eq_iff cong: option.case_cong)
  then show ?thesis
    using c' bk [of "SetBestBlock c' best" "[]" "Some b" "Some b"] assms(6)
    by (fastforce simp: DisconnectBlock_def undo_records_def SetBestBlock_def)
qed

end

text \<open>
  C3. Disconnecting a block undoes connecting it. Let the cache show a set of coins to which the
  block's transactions can be connected in order: the first one is the only coinbase, every input
  is an unspent coin not yet spent in the block, no output exists yet. The calls of
  \<^verbatim>\<open>UpdateCoins\<close> made while connecting succeed and turn the set into the one the transactions
  describe, outputs of unspendable scripts left out, whatever asset cache is passed as long as its
  operations report success. \<^verbatim>\<open>DisconnectBlock\<close>, run with the undo
  records they returned, reports a clean result, restores the set of coins exactly, and sets the
  best block back.
\<close>

theorem disconnect_undoes_connect:
  assumes "stack_ok mem c" "mem coinEmpty = 0" "assets_succeed A" "0 \<le> h" "h < 2 ^ 31" "vtx \<noteq> []"
    and "block_connectable H h 0 vtx (stack_shows c)"
  shows "\<exists>vtxundo c' c'' a' b'.
    connect_loop (stack_view est bs mem) mem A H h 0 vtx c a = Inr (vtxundo, c', a') \<and>
    stack_ok mem c' \<and> stack_shows c' = connect_txs H h vtx (stack_shows c) \<and>
    DisconnectBlock (stack_view est bs mem) mem A H h vtx vtxundo prev (SetBestBlock c' best) (Some b) = Inr (DISCONNECT_OK, c'', b') \<and>
    stack_ok mem c'' \<and> stack_shows c'' = stack_shows c \<and> cv_hashBlock c'' = prev"
  using tip.DisconnectBlock_spec [OF assms [unfolded stack_defs], of est bs a prev best b] unfolding stack_defs by blast

definition demo_hash :: "CTransaction \<Rightarrow> base_blob" where
  "demo_hash tx = replicate 32 (if IsCoinBase tx then 2 else 3)"

definition demo_in :: "COutPoint \<Rightarrow> CTxIn" where
  "demo_in p = \<lparr>prevout = p, scriptSig = [], nSequence = 0, scriptWitness = []\<rparr>"

definition demo_out :: "int \<Rightarrow> bytes \<Rightarrow> CTxOut" where
  "demo_out v s = \<lparr>nValue = v, scriptPubKey = s\<rparr>"

definition demo_block :: "CTransaction list" where
  "demo_block =
     [\<lparr>vin = [demo_in outpoint_null], vout = [demo_out 60 [OP_TRUE]], tx_nVersion = 2, tx_nLockTime = 0\<rparr>,
      \<lparr>vin = [demo_in (demo_point 0)], vout = [demo_out 0 [OP_RETURN], demo_out 40 [OP_TRUE]], tx_nVersion = 2, tx_nLockTime = 0\<rparr>]"

definition demo_coins :: "coins_db CCoinsViewCache CCoinsViewCache" where
  "demo_coins = new_cache (new_cache (empty_db\<lparr>db_coins := [demo_point 0 \<mapsto> demo_coin]\<rparr>))"

text \<open>An asset cache that counts the calls it receives.\<close>

definition demo_assets :: "nat asset_ops" where
  "demo_assets = \<lparr>a_TrySpendCoin = (\<lambda>_ _ n. (True, Suc n)), a_UndoAssetCoin = (\<lambda>_ _ n. (True, Suc n)),
     a_add_tx = (\<lambda>_ _ n. Suc n), a_undo_tx = (\<lambda>_ n. (True, Suc n))\<rparr>"

theorem disconnect_undoes_connect_witness:
  "\<exists>vtxundo c' c'' a' b'.
    connect_loop (stack_view length 3 (\<lambda>_. 0)) (\<lambda>_. 0) demo_assets demo_hash 9 0 demo_block demo_coins (Some 0) =
      Inr (vtxundo, c', a') \<and>
    stack_shows c' (demo_point 0) = None \<and>
    stack_shows c' \<lparr>op_hash = replicate 32 3, op_n = 1\<rparr> = Some (Coin_of (demo_out 40 [OP_TRUE]) 9 False) \<and>
    DisconnectBlock (stack_view length 3 (\<lambda>_. 0)) (\<lambda>_. 0) demo_assets demo_hash 9 demo_block vtxundo
      (replicate 32 7) (SetBestBlock c' (replicate 32 8)) (Some 5) = Inr (DISCONNECT_OK, c'', b') \<and>
    stack_shows c'' (demo_point 0) = Some demo_coin"
proof -
  have u: "\<not> IsSpent demo_coin" by code_simp
  have i: "stack_ok (\<lambda>_. 0) demo_coins"
    using u by (simp add: stack_ok_def demo_coins_def new_cache_def cache_inv_def coins_usage_def db_ok_def empty_db_def)
  have s: "stack_shows demo_coins = [demo_point 0 \<mapsto> demo_coin]"
    by (simp add: fun_eq_iff stack_shows_def cache_abs_def demo_coins_def new_cache_def empty_db_def)
  have ok: "block_connectable demo_hash 9 0 demo_block [demo_point 0 \<mapsto> demo_coin]" by code_simp
  have r: "connect_txs demo_hash 9 demo_block [demo_point 0 \<mapsto> demo_coin] (demo_point 0) = None"
    "connect_txs demo_hash 9 demo_block [demo_point 0 \<mapsto> demo_coin] \<lparr>op_hash = replicate 32 3, op_n = 1\<rparr> =
      Some (Coin_of (demo_out 40 [OP_TRUE]) 9 False)"
    by code_simp+
  have b: "demo_block \<noteq> []" "(0 :: int) \<le> 9" "(9 :: int) < 2 ^ 31" by (simp_all add: demo_block_def)
  have as: "assets_succeed demo_assets" by (simp add: assets_succeed_def demo_assets_def)
  from disconnect_undoes_connect [OF i refl as b(2,3,1) ok [folded s], of length 3 "Some 0" "replicate 32 7" "replicate 32 8" 5]
  obtain us c' c'' a' b' where
    "connect_loop (stack_view length 3 (\<lambda>_. 0)) (\<lambda>_. 0) demo_assets demo_hash 9 0 demo_block demo_coins (Some 0) = Inr (us, c', a')"
    "DisconnectBlock (stack_view length 3 (\<lambda>_. 0)) (\<lambda>_. 0) demo_assets demo_hash 9 demo_block us
      (replicate 32 7) (SetBestBlock c' (replicate 32 8)) (Some 5) = Inr (DISCONNECT_OK, c'', b')"
    and sh: "stack_shows c' = connect_txs demo_hash 9 demo_block (stack_shows demo_coins)"
    "stack_shows c'' = stack_shows demo_coins" by blast
  moreover have "stack_shows c' (demo_point 0) = None" "stack_shows c'' (demo_point 0) = Some demo_coin"
    "stack_shows c' \<lparr>op_hash = replicate 32 3, op_n = 1\<rparr> = Some (Coin_of (demo_out 40 [OP_TRUE]) 9 False)"
    unfolding sh s by (rule r, simp, rule r)
  ultimately show ?thesis by blast
qed

end
