(* ===== verification/TxVerify.thy ===== *)
theory TxVerify
  imports Coins Interpreter Chain
begin

unbundle bit_operations_syntax

text \<open>
  \<^verbatim>\<open>consensus/tx_verify.cpp\<close>: lock times, the cost of signature operations, and the check of a transaction's inputs against the
  coins it spends. Whether enforced values are deployed is an argument. Heights are far below the limits of their type.
\<close>

section \<open>Lock times\<close>

definition IsFinalTx :: "CTransaction \<Rightarrow> int \<Rightarrow> int \<Rightarrow> bool" where
  "IsFinalTx tx nBlockHeight nBlockTime =
     (let t = uint (tx_nLockTime tx) in
      if tx_nLockTime tx = 0 then True
      else if t < (if t < LOCKTIME_THRESHOLD then nBlockHeight else nBlockTime) then True
      else list_all (\<lambda>i. nSequence i = SEQUENCE_FINAL) (vin tx))"

abbreviation (input) LOCKTIME_VERIFY_SEQUENCE :: int where "LOCKTIME_VERIFY_SEQUENCE \<equiv> 1"

text \<open>The loop over the inputs and the heights of the coins they spend; the heights of inputs without a lock are reset to 0.\<close>

fun sequence_lock_loop ::
  "block_mem \<Rightarrow> ptr \<Rightarrow> CTxIn list \<Rightarrow> int list \<Rightarrow> int \<Rightarrow> int \<Rightarrow> ((int \<times> int) \<times> int list) outcome" where
  "sequence_lock_loop h block (txin # txins) (nCoinHeight # prevHeights) nMinHeight nMinTime =
     (if nSequence txin AND SEQUENCE_LOCKTIME_DISABLE_FLAG \<noteq> 0 then
        bind_out (sequence_lock_loop h block txins prevHeights nMinHeight nMinTime) (\<lambda>(r, hs). Inr (r, 0 # hs))
      else if nSequence txin AND SEQUENCE_LOCKTIME_TYPE_FLAG \<noteq> 0 then
        bind_out (GetAncestor h block (max (nCoinHeight - 1) 0)) (\<lambda>a. case a of None \<Rightarrow> Inl NullDeref
        | Some a \<Rightarrow>
            let nCoinTime = GetMedianTimePast h a;
                lock = uint (push_bit SEQUENCE_LOCKTIME_GRANULARITY (nSequence txin AND SEQUENCE_LOCKTIME_MASK)) in
            bind_out (sequence_lock_loop h block txins prevHeights nMinHeight (max nMinTime (nCoinTime + lock - 1)))
              (\<lambda>(r, hs). Inr (r, nCoinHeight # hs)))
      else
        bind_out (sequence_lock_loop h block txins prevHeights
            (max nMinHeight (nCoinHeight + uint (nSequence txin AND SEQUENCE_LOCKTIME_MASK) - 1)) nMinTime)
          (\<lambda>(r, hs). Inr (r, nCoinHeight # hs)))"
| "sequence_lock_loop h block _ prevHeights nMinHeight nMinTime = Inr ((nMinHeight, nMinTime), prevHeights)"

definition CalculateSequenceLocks ::
  "block_mem \<Rightarrow> CTransaction \<Rightarrow> int \<Rightarrow> int list \<Rightarrow> ptr \<Rightarrow> ((int \<times> int) \<times> int list) outcome" where
  "CalculateSequenceLocks h tx flags prevHeights block =
     assert_out (length prevHeights = length (vin tx))
       (let fEnforceBIP68 = ((word_of_int (tx_nVersion tx) :: u32) \<ge> 2 \<and> flags AND LOCKTIME_VERIFY_SEQUENCE \<noteq> 0) in
        if \<not> fEnforceBIP68 then Inr ((- 1, - 1), prevHeights)
        else sequence_lock_loop h block (vin tx) prevHeights (- 1) (- 1))"

definition EvaluateSequenceLocks :: "block_mem \<Rightarrow> ptr \<Rightarrow> int \<times> int \<Rightarrow> bool outcome" where
  "EvaluateSequenceLocks h block lockPair =
     (case pprev (h block) of None \<Rightarrow> Inl AssertFail
      | Some p \<Rightarrow>
          let nBlockTime = GetMedianTimePast h p in
          Inr (\<not> (fst lockPair \<ge> int (nHeight (h block)) \<or> snd lockPair \<ge> nBlockTime)))"

definition SequenceLocks :: "block_mem \<Rightarrow> CTransaction \<Rightarrow> int \<Rightarrow> int list \<Rightarrow> ptr \<Rightarrow> (bool \<times> int list) outcome" where
  "SequenceLocks h tx flags prevHeights block =
     bind_out (CalculateSequenceLocks h tx flags prevHeights block) (\<lambda>(lockPair, hs).
       bind_out (EvaluateSequenceLocks h block lockPair) (\<lambda>b. Inr (b, hs)))"

section \<open>Signature operations\<close>

fun sum_sigops :: "int outcome list \<Rightarrow> int \<Rightarrow> int outcome" where
  "sum_sigops [] nSigOps = Inr nSigOps"
| "sum_sigops (k # ks) nSigOps = bind_out k (\<lambda>k. sum_sigops ks ((nSigOps + k) mod 2 ^ 32))"

definition GetLegacySigOpCount :: "CTransaction \<Rightarrow> int outcome" where
  "GetLegacySigOpCount tx =
     sum_sigops (map (\<lambda>i. GetSigOpCount (scriptSig i) False) (vin tx) @ map (\<lambda>out. GetSigOpCount (scriptPubKey out) False) (vout tx)) 0"

fun p2sh_sigops_loop ::
  "'s CCoinsView \<Rightarrow> (Coin \<Rightarrow> u64) \<Rightarrow> CTxIn list \<Rightarrow> int \<Rightarrow> 's CCoinsViewCache \<Rightarrow> (int \<times> 's CCoinsViewCache) outcome" where
  "p2sh_sigops_loop V mem [] nSigOps c = Inr (nSigOps, c)"
| "p2sh_sigops_loop V mem (i # is) nSigOps c =
     (let (cn, c) = AccessCoin V mem c (prevout i) in
      assert_out (\<not> IsSpent cn)
        (if IsPayToScriptHash (scriptPubKey (coin_out cn)) then
           bind_out (GetSigOpCount_P2SH (scriptPubKey (coin_out cn)) (scriptSig i))
             (\<lambda>k. p2sh_sigops_loop V mem is ((nSigOps + k) mod 2 ^ 32) c)
         else p2sh_sigops_loop V mem is nSigOps c))"

definition GetP2SHSigOpCount ::
  "'s CCoinsView \<Rightarrow> (Coin \<Rightarrow> u64) \<Rightarrow> CTransaction \<Rightarrow> 's CCoinsViewCache \<Rightarrow> (int \<times> 's CCoinsViewCache) outcome" where
  "GetP2SHSigOpCount V mem tx c = (if IsCoinBase tx then Inr (0, c) else p2sh_sigops_loop V mem (vin tx) 0 c)"

fun witness_sigops_loop ::
  "'s CCoinsView \<Rightarrow> (Coin \<Rightarrow> u64) \<Rightarrow> script_flags \<Rightarrow> CTxIn list \<Rightarrow> int \<Rightarrow> 's CCoinsViewCache \<Rightarrow> (int \<times> 's CCoinsViewCache) outcome" where
  "witness_sigops_loop V mem flags [] nSigOps c = Inr (nSigOps, c)"
| "witness_sigops_loop V mem flags (i # is) nSigOps c =
     (let (cn, c) = AccessCoin V mem c (prevout i) in
      assert_out (\<not> IsSpent cn)
        (bind_out (CountWitnessSigOps (scriptSig i) (scriptPubKey (coin_out cn)) (Some (scriptWitness i)) flags)
          (\<lambda>k. witness_sigops_loop V mem flags is (wrap64 (nSigOps + k)) c)))"

definition GetTransactionSigOpCost ::
  "'s CCoinsView \<Rightarrow> (Coin \<Rightarrow> u64) \<Rightarrow> CTransaction \<Rightarrow> script_flags \<Rightarrow> 's CCoinsViewCache \<Rightarrow> (int \<times> 's CCoinsViewCache) outcome" where
  "GetTransactionSigOpCost V mem tx flags c =
     bind_out (GetLegacySigOpCount tx) (\<lambda>legacy.
       let nSigOps = (legacy * int WITNESS_SCALE_FACTOR) mod 2 ^ 32 in
       if IsCoinBase tx then Inr (nSigOps, c)
       else bind_out
         (if flags AND SCRIPT_VERIFY_P2SH \<noteq> 0 then
            bind_out (GetP2SHSigOpCount V mem tx c) (\<lambda>(k, c). Inr (nSigOps + (k * int WITNESS_SCALE_FACTOR) mod 2 ^ 32, c))
          else Inr (nSigOps, c))
         (\<lambda>(nSigOps, c). witness_sigops_loop V mem flags (vin tx) nSigOps c))"

section \<open>The inputs of a transaction\<close>

definition COINBASE_MATURITY :: int where "COINBASE_MATURITY = 50"

text \<open>A rejection is the DoS score and the reason; \<^verbatim>\<open>state.Invalid\<close> is a rejection with score 0.\<close>

fun tx_inputs_loop ::
  "'s CCoinsView \<Rightarrow> (Coin \<Rightarrow> u64) \<Rightarrow> int \<Rightarrow> CTxIn list \<Rightarrow> CAmount \<Rightarrow> 's CCoinsViewCache \<Rightarrow>
   ((int \<times> string + CAmount) \<times> 's CCoinsViewCache) outcome" where
  "tx_inputs_loop V mem nSpendHeight [] nValueIn c = Inr (Inr nValueIn, c)"
| "tx_inputs_loop V mem nSpendHeight (i # is) nValueIn c =
     (let (cn, c) = AccessCoin V mem c (prevout i) in
      assert_out (\<not> IsSpent cn)
        (if coin_fCoinBase cn \<and> nSpendHeight - uint (coin_nHeight cn) < COINBASE_MATURITY
         then Inr (Inl (0, ''bad-txns-premature-spend-of-coinbase''), c)
         else let nValueIn = wrap64 (nValueIn + nValue (coin_out cn)) in
           if \<not> MoneyRange (nValue (coin_out cn)) \<or> \<not> MoneyRange nValueIn
           then Inr (Inl (100, ''bad-txns-inputvalues-outofrange''), c)
           else tx_inputs_loop V mem nSpendHeight is nValueIn c))"

definition CheckTxInputs ::
  "'s CCoinsView \<Rightarrow> (Coin \<Rightarrow> u64) \<Rightarrow> bool \<Rightarrow> CTransaction \<Rightarrow> int \<Rightarrow> 's CCoinsViewCache \<Rightarrow>
   ((int \<times> string + CAmount) \<times> 's CCoinsViewCache) outcome" where
  "CheckTxInputs V mem fEnforced tx nSpendHeight c =
     (let (have, c) = HaveInputs V mem c tx in
      if \<not> have then Inr (Inl (100, ''bad-txns-inputs-missingorspent''), c)
      else bind_out (tx_inputs_loop V mem nSpendHeight (vin tx) 0 c) (\<lambda>(r, c).
        case r of Inl e \<Rightarrow> Inr (Inl e, c)
        | Inr nValueIn \<Rightarrow>
            bind_out (GetValueOut tx fEnforced) (\<lambda>value_out.
              if nValueIn < value_out then Inr (Inl (100, ''bad-txns-in-belowout''), c)
              else let txfee_aux = wrap64 (nValueIn - value_out) in
                if \<not> MoneyRange txfee_aux then Inr (Inl (100, ''bad-txns-fee-out-of-range''), c)
                else Inr (Inr txfee_aux, c))))"

section \<open>Value is conserved\<close>

definition mature_at :: "int \<Rightarrow> Coin \<Rightarrow> bool" where
  "mature_at height cn \<longleftrightarrow> (coin_fCoinBase cn \<longrightarrow> COINBASE_MATURITY \<le> height - uint (coin_nHeight cn))"

definition coins_value :: "Coin list \<Rightarrow> int" where
  "coins_value cs = sum_list (map (\<lambda>cn. nValue (coin_out cn)) cs)"

definition spends_exactly :: "(COutPoint \<Rightarrow> Coin option) \<Rightarrow> int \<Rightarrow> bool \<Rightarrow> CTransaction \<Rightarrow> int \<Rightarrow> bool" where
  "spends_exactly S height fEnforced tx fee \<longleftrightarrow>
     (\<exists>cs. map (\<lambda>i. S (prevout i)) (vin tx) = map Some cs \<and> list_all (mature_at height) cs \<and>
        list_all (\<lambda>cn. 0 \<le> nValue (coin_out cn)) cs \<and> list_all (\<lambda>out. 0 \<le> nValue out) (counted_outs fEnforced tx) \<and>
        coins_value cs \<le> MAX_MONEY \<and> 0 \<le> fee \<and>
        coins_value cs = sum_list (map nValue (counted_outs fEnforced tx)) + fee)"

context coins_view
begin

lemma have_inputs_loop_spec:
  "cache_inv view ok mem c \<Longrightarrow>
   \<exists>c'. have_inputs_loop V mem is c = (list_all (\<lambda>i. cache_abs view c (prevout i) \<noteq> None) is, c') \<and>
     cache_inv view ok mem c' \<and> cache_abs view c' = cache_abs view c"
proof (induction "is" arbitrary: c)
  case (Cons i "is")
  obtain r c1 where h: "HaveCoin V mem c (prevout i) = (r, c1)" by fastforce
  note s = HaveCoin_spec [OF Cons.prems h]
  show ?case using Cons.IH [of c1] s h by (auto simp: Let_def)
qed simp

lemma tx_inputs_loop_spec:
  "cache_inv view ok mem c \<Longrightarrow> MoneyRange a \<Longrightarrow> map (\<lambda>i. cache_abs view c (prevout i)) is = map Some cs \<Longrightarrow>
   \<exists>r c'. tx_inputs_loop V mem height is a c = Inr (r, c') \<and> cache_inv view ok mem c' \<and> cache_abs view c' = cache_abs view c \<and>
     (\<forall>v. r = Inr v \<longleftrightarrow> list_all (mature_at height) cs \<and> list_all (\<lambda>cn. 0 \<le> nValue (coin_out cn)) cs \<and>
        v = a + coins_value cs \<and> v \<le> MAX_MONEY)"
proof (induction "is" arbitrary: c a cs)
  case Nil
  then show ?case by (auto simp: coins_value_def MoneyRange_def)
next
  case (Cons i "is")
  obtain cn cs' where cs: "cs = cn # cs'" "cache_abs view c (prevout i) = Some cn"
    "map (\<lambda>i. cache_abs view c (prevout i)) is = map Some cs'"
    using Cons.prems(3) by (cases cs) auto
  obtain d c1 where h: "AccessCoin V mem c (prevout i) = (d, c1)" by fastforce
  note s = AccessCoin_spec [OF Cons.prems(1) h]
  then have d: "d = cn" "\<not> IsSpent cn" using cs(2) by (auto simp: unspent_def split: if_splits)
  let ?v = "nValue (coin_out cn)"
  show ?case
  proof (cases "mature_at height cn \<and> 0 \<le> ?v \<and> a + ?v \<le> MAX_MONEY")
    case True
    then have w: "wrap64 (a + ?v) = a + ?v" "MoneyRange (a + ?v)" "MoneyRange ?v"
      using money_step [OF Cons.prems(2), of ?v] by auto
    have "\<exists>r c'. tx_inputs_loop V mem height is (a + ?v) c1 = Inr (r, c') \<and> cache_inv view ok mem c' \<and> cache_abs view c' = cache_abs view c1 \<and>
       (\<forall>v. r = Inr v \<longleftrightarrow> list_all (mature_at height) cs' \<and> list_all (\<lambda>cn. 0 \<le> nValue (coin_out cn)) cs' \<and>
        v = a + ?v + coins_value cs' \<and> v \<le> MAX_MONEY)"
      using Cons.IH [OF _ w(2), of c1 cs'] s cs(3) by simp
    moreover have "tx_inputs_loop V mem height (i # is) a c = tx_inputs_loop V mem height is (a + ?v) c1"
      using True h d w by (auto simp: mature_at_def)
    ultimately show ?thesis using True s cs(1) by (simp add: coins_value_def add.assoc)
  next
    case False
    have "\<exists>e. tx_inputs_loop V mem height (i # is) a c = Inr (Inl e, c1)"
      using False h d money_step(1) [OF Cons.prems(2), of ?v] by (auto simp: mature_at_def Let_def)
    moreover have "\<not> (list_all (mature_at height) cs \<and> list_all (\<lambda>cn. 0 \<le> nValue (coin_out cn)) cs \<and> a + coins_value cs \<le> MAX_MONEY)"
      using False sum_list_nonneg' [of "\<lambda>cn. nValue (coin_out cn)" cs'] cs(1) by (auto simp: coins_value_def)
    ultimately show ?thesis using s by auto
  qed
qed

end

lemma all_some_list: "list_all (\<lambda>i. f i \<noteq> None) xs \<longleftrightarrow> (\<exists>cs. map f xs = map Some cs)"
proof
  assume "list_all (\<lambda>i. f i \<noteq> None) xs"
  then have "map f xs = map Some (map (\<lambda>i. the (f i)) xs)" by (induction xs) auto
  then show "\<exists>cs. map f xs = map Some cs" by blast
next
  assume "\<exists>cs. map f xs = map Some cs"
  then obtain cs where "map f xs = map Some cs" by blast
  then show "list_all (\<lambda>i. f i \<noteq> None) xs" by (induction xs arbitrary: cs) auto
qed

lemma map_Some_inj: "map Some cs = map Some ds \<longleftrightarrow> cs = ds"
  by (simp add: inj_map_eq_map)

definition fee_verdict :: "bool \<Rightarrow> CTransaction \<Rightarrow> int \<Rightarrow> (int \<times> string + CAmount) outcome" where
  "fee_verdict fE tx nValueIn =
     bind_out (GetValueOut tx fE) (\<lambda>value_out.
       if nValueIn < value_out then Inr (Inl (100, ''bad-txns-in-belowout''))
       else let txfee_aux = wrap64 (nValueIn - value_out) in
         if \<not> MoneyRange txfee_aux then Inr (Inl (100, ''bad-txns-fee-out-of-range'')) else Inr (Inr txfee_aux))"

lemma fee_verdict_fee:
  assumes "MoneyRange v"
  shows "fee_verdict fE tx v = Inr (Inr fee) \<longleftrightarrow>
    list_all (\<lambda>out. 0 \<le> nValue out) (counted_outs fE tx) \<and> 0 \<le> fee \<and> v = sum_list (map nValue (counted_outs fE tx)) + fee"
proof -
  let ?s = "sum_list (map nValue (counted_outs fE tx))"
  have nn: "list_all (\<lambda>out. 0 \<le> nValue out) (counted_outs fE tx) \<Longrightarrow> 0 \<le> ?s" by (rule sum_list_nonneg')
  have w: "wrap64 (v - ?s) = v - ?s \<and> MoneyRange (v - ?s)" if "0 \<le> ?s" "?s \<le> v"
    using assms that wrap64_id [of "v - ?s"]
    by (auto simp: MoneyRange_def MAX_MONEY_def COIN_def in_int64_def int64_min_def int64_max_def)
  show ?thesis
  proof (cases "GetValueOut tx fE")
    case (Inl e)
    then have "\<not> (list_all (\<lambda>out. 0 \<le> nValue out) (counted_outs fE tx) \<and> ?s \<le> MAX_MONEY)"
      using GetValueOut_sum [of tx fE ?s] by auto
    then show ?thesis using Inl assms by (auto simp: fee_verdict_def MoneyRange_def)
  next
    case (Inr s)
    then show ?thesis using GetValueOut_sum [of tx fE s] nn w by (auto simp: fee_verdict_def Let_def)
  qed
qed

lemma spends_coins:
  assumes "map (\<lambda>i. S (prevout i)) (vin tx) = map Some cs"
  shows "spends_exactly S height fE tx fee \<longleftrightarrow>
    (list_all (mature_at height) cs \<and> list_all (\<lambda>cn. 0 \<le> nValue (coin_out cn)) cs \<and> coins_value cs \<le> MAX_MONEY) \<and>
    fee_verdict fE tx (coins_value cs) = Inr (Inr fee)"
proof -
  have m: "MoneyRange (coins_value cs)" if "list_all (\<lambda>cn. 0 \<le> nValue (coin_out cn)) cs" "coins_value cs \<le> MAX_MONEY"
    using that sum_list_nonneg' [OF that(1)] by (simp add: MoneyRange_def coins_value_def)
  have "spends_exactly S height fE tx fee \<longleftrightarrow> list_all (mature_at height) cs \<and> list_all (\<lambda>cn. 0 \<le> nValue (coin_out cn)) cs \<and>
    list_all (\<lambda>out. 0 \<le> nValue out) (counted_outs fE tx) \<and> coins_value cs \<le> MAX_MONEY \<and> 0 \<le> fee \<and>
    coins_value cs = sum_list (map nValue (counted_outs fE tx)) + fee"
    unfolding spends_exactly_def assms map_Some_inj by simp
  then show ?thesis using fee_verdict_fee [OF m, of fE tx fee] by blast
qed

lemma CheckTxInputs_run:
  assumes "HaveInputs V mem c tx = (True, c1)" "tx_inputs_loop V mem height (vin tx) 0 c1 = Inr (r, c2)"
  shows "CheckTxInputs V mem fE tx height c =
    (case r of Inl e \<Rightarrow> Inr (Inl e, c2) | Inr v \<Rightarrow> bind_out (fee_verdict fE tx v) (\<lambda>x. Inr (x, c2)))"
proof (cases r)
  case (Inr v)
  then show ?thesis using assms by (cases "GetValueOut tx fE") (simp_all add: CheckTxInputs_def fee_verdict_def Let_def)
qed (simp add: assms CheckTxInputs_def)

lemma fee_verdict_fault: "fee_verdict fE tx v = Inl e \<Longrightarrow> e = Throw ''GetValueOut: value out of range''"
  using value_out_loop_fault [of fE "vout tx" 0]
  by (cases "GetValueOut tx fE") (auto simp: fee_verdict_def GetValueOut_def Let_def split: if_splits)

context coins_view
begin

lemma CheckTxInputs_spec:
  assumes "cache_inv view ok mem c" "\<not> IsCoinBase tx"
  shows "(\<exists>r c'. CheckTxInputs V mem fE tx height c = Inr (r, c') \<and> cache_inv view ok mem c' \<and> cache_abs view c' = cache_abs view c \<and>
      (\<forall>fee. r = Inr fee \<longleftrightarrow> spends_exactly (cache_abs view c) height fE tx fee)) \<or>
    (CheckTxInputs V mem fE tx height c = Inl (Throw ''GetValueOut: value out of range'') \<and>
      (\<forall>fee. \<not> spends_exactly (cache_abs view c) height fE tx fee))"
proof -
  let ?S = "cache_abs view c"
  obtain c1 where h: "HaveInputs V mem c tx = (list_all (\<lambda>i. ?S (prevout i) \<noteq> None) (vin tx), c1)"
    "cache_inv view ok mem c1" "cache_abs view c1 = ?S"
    using have_inputs_loop_spec [OF assms(1), of "vin tx"] assms(2) by (auto simp: HaveInputs_def)
  show ?thesis
  proof (cases "\<exists>cs. map (\<lambda>i. ?S (prevout i)) (vin tx) = map Some cs")
    case False
    then show ?thesis using h all_some_list [of "\<lambda>i. ?S (prevout i)" "vin tx"]
      by (auto simp: CheckTxInputs_def spends_exactly_def)
  next
    case True
    then obtain cs where cs: "map (\<lambda>i. ?S (prevout i)) (vin tx) = map Some cs" by blast
    obtain r c2 where l: "tx_inputs_loop V mem height (vin tx) 0 c1 = Inr (r, c2)" "cache_inv view ok mem c2" "cache_abs view c2 = ?S"
      "\<forall>v. r = Inr v \<longleftrightarrow> list_all (mature_at height) cs \<and> list_all (\<lambda>cn. 0 \<le> nValue (coin_out cn)) cs \<and> v = coins_value cs \<and> v \<le> MAX_MONEY"
      using tx_inputs_loop_spec [OF h(2), of 0 "vin tx" cs height] cs h(3) by (auto simp: MoneyRange_def MAX_MONEY_def COIN_def)
    have e: "spends_exactly ?S height fE tx fee \<longleftrightarrow>
      (list_all (mature_at height) cs \<and> list_all (\<lambda>cn. 0 \<le> nValue (coin_out cn)) cs \<and> coins_value cs \<le> MAX_MONEY) \<and>
      fee_verdict fE tx (coins_value cs) = Inr (Inr fee)" for fee
      by (rule spends_coins [OF cs])
    have spend: "spends_exactly ?S height fE tx fee \<longleftrightarrow> (\<exists>v. r = Inr v \<and> fee_verdict fE tx v = Inr (Inr fee))" for fee
      unfolding e using l(4) by auto
    have hi: "HaveInputs V mem c tx = (True, c1)"
      using h(1) True all_some_list [of "\<lambda>i. ?S (prevout i)" "vin tx"] by (simp del: not_None_eq)
    note run = CheckTxInputs_run [OF hi l(1), of fE]
    show ?thesis
    proof (cases r)
      case (Inl e)
      then show ?thesis using run l(2,3) spend by simp
    next
      case (Inr v)
      then show ?thesis
        using run l(2,3) spend fee_verdict_fault [of fE tx v] by (cases "fee_verdict fE tx v") simp_all
    qed
  qed
qed

end

text \<open>
  C4. No transaction creates money. For a transaction other than a coinbase, on two coin caches over the database,
  \<^verbatim>\<open>CheckTxInputs\<close> accepts with fee \<open>fee\<close> exactly when every input spends an unspent output of the set the caches show, every
  coinbase among them has its 50 confirmations, no value is negative, the inputs are worth at most \<^verbatim>\<open>MAX_MONEY\<close>, and they are worth
  exactly the outputs plus a fee that is not negative; outputs that carry assets count only when enforced values are deployed.
  The set of coins does not change, no assertion fails, and the only exception is that of \<^verbatim>\<open>GetValueOut\<close>, on transactions that
  are not acceptable.
\<close>

theorem CheckTxInputs_conserves_value:
  assumes "stack_ok mem c" "\<not> IsCoinBase tx"
  shows "(\<exists>r c'. CheckTxInputs (stack_view est bs mem) mem fE tx height c = Inr (r, c') \<and> stack_ok mem c' \<and> stack_shows c' = stack_shows c \<and>
      (\<forall>fee. r = Inr fee \<longleftrightarrow> spends_exactly (stack_shows c) height fE tx fee)) \<or>
    (CheckTxInputs (stack_view est bs mem) mem fE tx height c = Inl (Throw ''GetValueOut: value out of range'') \<and>
      (\<forall>fee. \<not> spends_exactly (stack_shows c) height fE tx fee))"
  using assms unfolding stack_defs by (rule tip.CheckTxInputs_spec)

theorem CheckTxInputs_conserves_value_witness:
  "\<exists>c'. CheckTxInputs (stack_view length 3 (\<lambda>_. 0)) (\<lambda>_. 0) True (Coins.demo_block ! 1) 200 demo_coins = Inr (Inr 10, c') \<and>
    stack_shows c' = stack_shows demo_coins \<and> spends_exactly (stack_shows demo_coins) 200 True (Coins.demo_block ! 1) 10 \<and>
    \<not> spends_exactly (stack_shows demo_coins) 200 True (Coins.demo_block ! 1) 9"
proof -
  have u: "\<not> IsSpent demo_coin" by code_simp
  have i: "stack_ok (\<lambda>_. 0) demo_coins"
    using u by (simp add: stack_ok_def demo_coins_def new_cache_def cache_inv_def coins_usage_def db_ok_def empty_db_def)
  have nb: "\<not> IsCoinBase (Coins.demo_block ! 1)" by code_simp
  have r: "map_sum id fst (CheckTxInputs (stack_view length 3 (\<lambda>_. 0)) (\<lambda>_. 0) True (Coins.demo_block ! 1) 200 demo_coins) = Inr (Inr 10)"
    by code_simp
  then obtain c' where c': "CheckTxInputs (stack_view length 3 (\<lambda>_. 0)) (\<lambda>_. 0) True (Coins.demo_block ! 1) 200 demo_coins = Inr (Inr 10, c')"
    by (cases "CheckTxInputs (stack_view length 3 (\<lambda>_. 0)) (\<lambda>_. 0) True (Coins.demo_block ! 1) 200 demo_coins") auto
  have "stack_shows c' = stack_shows demo_coins \<and> (\<forall>fee. 10 = fee \<longleftrightarrow> spends_exactly (stack_shows demo_coins) 200 True (Coins.demo_block ! 1) fee)"
    using CheckTxInputs_conserves_value [OF i nb, of length 3 True 200] unfolding c' by simp
  then have sh: "stack_shows c' = stack_shows demo_coins"
    and f: "spends_exactly (stack_shows demo_coins) 200 True (Coins.demo_block ! 1) fee \<longleftrightarrow> 10 = fee" for fee
    by blast+
  show ?thesis unfolding f using c' sh by simp
qed

section \<open>Relative lock times\<close>

text \<open>The rule of the locks: an input without the disable flag waits for a number of blocks, or of units of 512 seconds, after its coin.\<close>

definition lock_open :: "block_mem \<Rightarrow> ptr \<Rightarrow> int \<Rightarrow> int \<Rightarrow> CTxIn \<Rightarrow> int \<Rightarrow> bool" where
  "lock_open h block height time i coin_height \<longleftrightarrow>
     nSequence i AND SEQUENCE_LOCKTIME_DISABLE_FLAG \<noteq> 0 \<or>
     (if nSequence i AND SEQUENCE_LOCKTIME_TYPE_FLAG \<noteq> 0
      then (\<exists>a. GetAncestor h block (max (coin_height - 1) 0) = Inr (Some a) \<and>
        GetMedianTimePast h a + uint (push_bit SEQUENCE_LOCKTIME_GRANULARITY (nSequence i AND SEQUENCE_LOCKTIME_MASK)) \<le> time)
      else coin_height + uint (nSequence i AND SEQUENCE_LOCKTIME_MASK) \<le> height)"

lemma sequence_lock_loop_rule:
  assumes "wf_tree h A" "block \<in> A"
  shows "length is = length hs \<Longrightarrow> list_all (\<lambda>k. k \<le> int (nHeight (h block)) + 1) hs \<Longrightarrow>
    \<exists>mh mt hs'. sequence_lock_loop h block is hs a b = Inr ((mh, mt), hs') \<and>
      (\<forall>height time. mh < height \<and> mt < time \<longleftrightarrow> a < height \<and> b < time \<and> list_all2 (lock_open h block height time) is hs)"
proof (induction "is" hs arbitrary: a b rule: list_induct2)
  case (Cons i "is" k hs)
  consider (off) "nSequence i AND SEQUENCE_LOCKTIME_DISABLE_FLAG \<noteq> 0"
    | (time) "nSequence i AND SEQUENCE_LOCKTIME_DISABLE_FLAG = 0" "nSequence i AND SEQUENCE_LOCKTIME_TYPE_FLAG \<noteq> 0"
    | (height) "nSequence i AND SEQUENCE_LOCKTIME_DISABLE_FLAG = 0" "nSequence i AND SEQUENCE_LOCKTIME_TYPE_FLAG = 0"
    by blast
  then show ?case
  proof cases
    case off
    obtain mh mt hs' where "sequence_lock_loop h block is hs a b = Inr ((mh, mt), hs')"
      "\<forall>height time. mh < height \<and> mt < time \<longleftrightarrow> a < height \<and> b < time \<and> list_all2 (lock_open h block height time) is hs"
      using Cons by (auto dest!: Cons.IH [of a b])
    then show ?thesis using off by (auto simp: lock_open_def [of h block _ _ i k])
  next
    case time
    have "0 \<le> max (k - 1) 0" "max (k - 1) 0 \<le> int (nHeight (h block))" using Cons.prems by auto
    then obtain q where q: "GetAncestor h block (max (k - 1) 0) = Inr (Some q)" using GetAncestor_in [OF assms] by blast
    let ?b = "max b (GetMedianTimePast h q + uint (push_bit SEQUENCE_LOCKTIME_GRANULARITY (nSequence i AND SEQUENCE_LOCKTIME_MASK)) - 1)"
    obtain mh mt hs' where "sequence_lock_loop h block is hs a ?b = Inr ((mh, mt), hs')"
      "\<forall>height time. mh < height \<and> mt < time \<longleftrightarrow> a < height \<and> ?b < time \<and> list_all2 (lock_open h block height time) is hs"
      using Cons by (auto dest!: Cons.IH [of a ?b])
    then show ?thesis using time q by (auto simp: lock_open_def [of h block _ _ i k] Let_def)
  next
    case height
    let ?a = "max a (k + uint (nSequence i AND SEQUENCE_LOCKTIME_MASK) - 1)"
    obtain mh mt hs' where "sequence_lock_loop h block is hs ?a b = Inr ((mh, mt), hs')"
      "\<forall>height time. mh < height \<and> mt < time \<longleftrightarrow> ?a < height \<and> b < time \<and> list_all2 (lock_open h block height time) is hs"
      using Cons by (auto dest!: Cons.IH [of ?a b])
    then show ?thesis using height by (auto simp: lock_open_def [of h block _ _ i k])
  qed
qed auto

lemma median_nonneg: "0 \<le> GetMedianTimePast h p"
proof -
  have t: "x \<in> set (past_times h n q) \<Longrightarrow> 0 \<le> x" for x n q
    by (induction h n q rule: past_times.induct) (auto simp: GetBlockTime_def)
  let ?ts = "sort (past_times h nMedianTimeSpan (Some p))"
  have "past_times h nMedianTimeSpan (Some p) \<noteq> []" by (simp add: nMedianTimeSpan_def eval_nat_numeral)
  then have "length ?ts div 2 < length ?ts" by (cases "past_times h nMedianTimeSpan (Some p)") auto
  then have "?ts ! (length ?ts div 2) \<in> set (past_times h nMedianTimeSpan (Some p))" by (metis nth_mem set_sort)
  then show ?thesis using t by (auto simp: GetMedianTimePast_def Let_def)
qed

text \<open>\<^verbatim>\<open>SequenceLocks\<close> accepts a transaction in a block exactly when the lock of every input is open.\<close>

lemma SequenceLocks_rule:
  assumes "wf_tree h A" "block \<in> A" "pprev (h block) = Some p" "length hs = length (vin tx)"
    and "list_all (\<lambda>k. k \<le> int (nHeight (h block)) + 1) hs"
    and "(word_of_int (tx_nVersion tx) :: u32) \<ge> 2" "flags AND LOCKTIME_VERIFY_SEQUENCE \<noteq> 0"
  shows "\<exists>hs'. SequenceLocks h tx flags hs block =
    Inr (list_all2 (lock_open h block (int (nHeight (h block))) (GetMedianTimePast h p)) (vin tx) hs, hs')"
proof -
  obtain mh mt hs' where r: "sequence_lock_loop h block (vin tx) hs (- 1) (- 1) = Inr ((mh, mt), hs')"
    "\<forall>height time. mh < height \<and> mt < time \<longleftrightarrow> - 1 < height \<and> - 1 < time \<and> list_all2 (lock_open h block height time) (vin tx) hs"
    using sequence_lock_loop_rule [OF assms(1,2) assms(4) [symmetric] assms(5), of "- 1" "- 1"] by blast
  have "mh < int (nHeight (h block)) \<and> mt < GetMedianTimePast h p \<longleftrightarrow>
    list_all2 (lock_open h block (int (nHeight (h block))) (GetMedianTimePast h p)) (vin tx) hs"
    using r(2) median_nonneg [of h p] by simp
  then show ?thesis using r(1) assms(3,4,6,7)
    by (auto simp: SequenceLocks_def CalculateSequenceLocks_def EvaluateSequenceLocks_def not_le)
qed

end
