(* ===== verification/Spec2Isabelle.thy ===== *)
theory Spec2Isabelle
  imports BlockTree NumberText Base58 SigHash Merkle TxVerify
begin

text \<open>
  The consensus core of the CmusicAI node, a proof-of-work currency with assets in C++ under src/src. A node
  receives headers and transactions as bytes, keeps a tree of headers, checks their proof of work, follows the branch with the most
  work, and applies the transactions of its blocks to a set of unspent outputs, each spent by running a script. The theories
  follow these parts. Every definition is a translation of the function of the same name, or of the loop or case inside it that its name says.

  \<^bold>\<open>Conventions.\<close> Theory \<^verbatim>\<open>Prelude\<close>: unsigned integers are words of their width; signed ones are \<open>int\<close>, with \<open>wrap64\<close> where a
  sum of 64-bit values can overflow. Code that can stop returns an \<open>outcome\<close>: a failed assertion, a null dereference, an index or
  shift out of range, a division by zero or a thrown exception on the left. Loops over lists are recursive functions and counted loops folds. A loop that
  need not end on every memory is a partial function into \<open>option\<close>, and the theorems prove that it returns; there is no fuel anywhere. Objects reached
  through pointers live in a memory from addresses to records. State is passed and returned. Hash functions, curve operations, the memory a coin
  occupies, the size estimate of a database batch, the clock and peer counts of the node, and the asset cache are parameters.

  \<^bold>\<open>Numbers and parameters.\<close>
  \<^item> \<^verbatim>\<open>Arith256\<close> (arith_uint256.h, arith_uint256.cpp): 256-bit integers as eight 32-bit limbs. The limb loops compute the operations on
    natural numbers modulo \<open>2 ^ 256\<close>, division floors or throws, and the compact encoding loses at most its lowest bits.
  \<^item> \<^verbatim>\<open>Uint256\<close> (uint256.h, uint256.cpp, hex functions of utilstrencodings.cpp): blobs and their hexadecimal text, read back.
  \<^item> \<^verbatim>\<open>Params\<close> (consensus/params.h, chainparams.cpp, amount.h, \<^verbatim>\<open>GetBlockSubsidy\<close> of validation.cpp): the parameters of
    the main network; the subsidies sum to \<^verbatim>\<open>MAX_MONEY\<close>.

  \<^bold>\<open>Blocks.\<close>
  \<^item> \<^verbatim>\<open>Chain\<close> (chain.h, chain.cpp): entries of the block index and the active chain. Ancestors by the skip list are those by single
    steps; \<^verbatim>\<open>SetTip\<close>, \<^verbatim>\<open>FindFork\<close>, \<^verbatim>\<open>LastCommonAncestor\<close>, \<^verbatim>\<open>GetLocator\<close> and the search by time return and are correct on well-formed trees.
  \<^item> \<^verbatim>\<open>VersionBits\<close> (versionbits.h, versionbits.cpp): deployments by signalling. The cached computation refines the recursion over
    periods; final states stay; the statistics and the height a state began at are exact.
  \<^item> \<^verbatim>\<open>Pow\<close> (pow.cpp, header checks of validation.cpp): the check of a hash against its target, and the retargeting \<^verbatim>\<open>DarkGravityWave\<close>: within the limit
    always, exact on every branch when products fit 256 bits, and its wrap-around on the main network.
  \<^item> \<^verbatim>\<open>BlockTree\<close> (validation.cpp, checkpoints.cpp): the map of headers, acceptance of a header, and the choice of the chain with the most
    work. An invariant of the tree is kept by every operation; what is accepted satisfies the rules.
  \<^item> \<^verbatim>\<open>Merkle\<close> (consensus/merkle.cpp): the constant-space computation of roots and branches equals the tree built level by level, for up
    to \<open>2 ^ 31\<close> leaves, where its 32-bit counter is enough.

  \<^bold>\<open>Text.\<close>
  \<^item> \<^verbatim>\<open>BaseCodes\<close> (base 64 and 32), \<^verbatim>\<open>NumberText\<close> (integer and fixed-point parsers and amounts, utilstrencodings.cpp,
    utilmoneystr.cpp, core_write.cpp, rpc/server.cpp) and \<^verbatim>\<open>Base58\<close> (base58.cpp): what is printed is read back, and values out of range are refused.

  \<^bold>\<open>Bytes, scripts and transactions.\<close>
  \<^item> \<^verbatim>\<open>Serialize\<close> (serialize.h, streams.h): writing appends bytes and reading consumes a prefix. The locale \<^verbatim>\<open>codec\<close> is the contract of a writer and a reader,
    interpreted for integers, sizes, strings and vectors here and for asset records and transactions in the theories that define them.
  \<^item> \<^verbatim>\<open>AssetData\<close> (assets/assettypes.h): the asset records that scripts carry.
  \<^item> \<^verbatim>\<open>Script\<close> (script/script.h, script/script.cpp): opcodes, script numbers, building, reading and classifying scripts.
  \<^item> \<^verbatim>\<open>Transaction\<close> (primitives/transaction.h, transaction.cpp): both serialized forms, read back, and the value of the outputs.
  \<^item> \<^verbatim>\<open>Interpreter\<close> (script/interpreter.cpp): every opcode of \<^verbatim>\<open>EvalScript\<close>, and \<^verbatim>\<open>VerifyScript\<close>. A stack is a list with its top first. An
    element or byte read, erased or inserted outside its vector is a fault. Evaluation is type safe on every script, and the spending of a pay-to-public-key-hash output is characterized with its errors.
  \<^item> \<^verbatim>\<open>SigHash\<close> (script/interpreter.cpp): the digest of a signature is the hash of a modified transaction; the checker of a transaction meets what \<^verbatim>\<open>Interpreter\<close>
    asks of a checker.

  \<^bold>\<open>Unspent outputs.\<close>
  \<^item> \<^verbatim>\<open>Coins\<close> (coins.h, coins.cpp, txdb.cpp, block connection of validation.cpp): coins in caches over a database. The locale
    \<^verbatim>\<open>coins_view\<close> is what a cache asks of the view below it. It is interpreted on the database, on a cache over the database and on a cache over that cache, so a stack of
    caches behaves as a map. Disconnecting a block undoes connecting it.
  \<^item> \<^verbatim>\<open>TxVerify\<close> (consensus/tx_verify.cpp): lock times, signature operation costs, and \<^verbatim>\<open>CheckTxInputs\<close>, which accepts
    exactly the transactions that conserve value; its lemmas extend \<^verbatim>\<open>coins_view\<close>.

  \<^bold>\<open>Bounds.\<close> Hypotheses on sizes are those of the types: header heights below \<open>2 ^ 31\<close>, serialized lengths at most
  \<^verbatim>\<open>MAX_SIZE\<close>, pushes shorter than \<open>2 ^ 32\<close> bytes. Container sizes are natural numbers, without the wrap-around of \<^verbatim>\<open>size_t\<close>,
  and \<^verbatim>\<open>long\<close> has 64 bits.

  \<^bold>\<open>Not modelled.\<close>
  \<^item> Asset rules: the asset cache and databases (assets/assets.cpp, assetdb.cpp and others), \<^verbatim>\<open>CheckTransaction\<close> and
    \<^verbatim>\<open>CheckTxAssets\<close>. They rest on regular expressions, process-wide caches and several databases; the operations of the cache that block connection calls are parameters.
  \<^item> The rest of validation.cpp: block files, the memory pool, the script-checking threads, reorganization, the optional indexes,
    failed reads and writes of the disk, and the debug check \<^verbatim>\<open>CheckBlockIndex\<close>.
  \<^item> Networking, remote procedures, wallet, mining, policy, graphical interface and start-up: input and output, threads and user interaction.
  \<^item> Hash functions, ciphers and curve operations (algo, crypto, secp256k1), and the libraries leveldb and univalue.
  \<^item> Bloom filters, compact blocks, block filters by merkleblock.cpp, and the compressed form of coins: self-contained encodings of messages and of the database,
    which is modelled as a map.
\<close>

end
